(* ===== verification/Prelude.thy ===== *)
theory Prelude
  imports Main "HOL-Library.Word"
begin

text \<open>
  Shared vocabulary of the development: the machine types of the sources, byte-addressed
  buffers with the two operations the code performs on them (reading a run of bytes, copying
  a run of bytes in), the little-endian image of the fixed-width integers that the code stores
  through casted pointers, and the result type of operations that may fault. The collection
  \<open>mem_simps\<close> holds the read-over-write laws that the component proofs use.
\<close>

unbundle bit_operations_syntax

named_theorems mem_simps \<open>read-over-write laws of byte buffers\<close>

section \<open>Types\<close>

type_synonym byte = "8 word"
type_synonym u16 = "16 word"
type_synonym u32 = "32 word"
type_synonym u64 = "64 word"
type_synonym bytes = "byte list"

text \<open>
  A buffer is a function from offsets to bytes. Its extent is not part of the value: every
  operation that could leave the buffer compares with the extent the source declares for it.
\<close>

type_synonym buffer = "nat \<Rightarrow> byte"

text \<open>
  What a C++ operation can do instead of returning: leave a buffer (undefined behaviour), fail an
  assertion, call \<open>exit\<close>, or let an exception escape; the three exceptions are those of \<open>libcuckoo\<close>.
\<close>

datatype fault = Out_of_bounds | Assert_failed | Exit_failure
  | Hashpower_changed | Maximum_hashpower_exceeded | Load_factor_too_low

type_synonym 'a result = "fault + 'a"

fun and_then :: "'a result \<Rightarrow> ('a \<Rightarrow> 'b result) \<Rightarrow> 'b result" where
  "and_then (Inl e) f = Inl e"
| "and_then (Inr x) f = f x"

lemma and_then_Inr_iff [simp]:
  "and_then r f = Inr y \<longleftrightarrow> (\<exists>x. r = Inr x \<and> f x = Inr y)"
  by (cases r) auto

lemma and_then_cong [fundef_cong]:
  "r = r' \<Longrightarrow> (\<And>x. r' = Inr x \<Longrightarrow> f x = g x) \<Longrightarrow> and_then r f = and_then r' g"
  by (cases r') auto

definition check :: "bool \<Rightarrow> fault \<Rightarrow> unit result" where
  "check b e = (if b then Inr () else Inl e)"

lemma check_simps [simp]:
  "check True e = Inr ()" "check False e = Inl e"
  "check b e = Inr u \<longleftrightarrow> b"
  by (auto simp: check_def)

text \<open>A loop over a list that threads a state and stops at the first fault.\<close>

fun each :: "('a \<Rightarrow> 's \<Rightarrow> 's result) \<Rightarrow> 'a list \<Rightarrow> 's \<Rightarrow> 's result" where
  "each f [] s = Inr s"
| "each f (x # xs) s = and_then (f x s) (each f xs)"

section \<open>Byte buffers\<close>

definition rd :: "buffer \<Rightarrow> nat \<Rightarrow> nat \<Rightarrow> bytes" where
  "rd m off n = map (\<lambda>i. m (off + i)) [0..<n]"

definition wr :: "buffer \<Rightarrow> nat \<Rightarrow> bytes \<Rightarrow> buffer" where
  "wr m off xs = (\<lambda>a. if off \<le> a \<and> a < off + length xs then xs ! (a - off) else m a)"

lemma length_rd [simp]: "length (rd m off n) = n"
  by (simp add: rd_def)

lemma nth_rd [simp]: "i < n \<Longrightarrow> rd m off n ! i = m (off + i)"
  by (simp add: rd_def)

lemma rd_0 [simp]: "rd m off 0 = []"
  by (simp add: rd_def)

lemma wr_Nil [simp]: "wr m off [] = m"
  by (auto simp: wr_def fun_eq_iff)

lemma wr_out: "a < off \<or> off + length xs \<le> a \<Longrightarrow> wr m off xs a = m a"
  by (auto simp: wr_def)

lemma wr_in: "off \<le> a \<Longrightarrow> a < off + length xs \<Longrightarrow> wr m off xs a = xs ! (a - off)"
  by (auto simp: wr_def)

lemma rd_wr_same [mem_simps]: "n = length xs \<Longrightarrow> rd (wr m off xs) off n = xs"
  by (rule nth_equalityI) (auto simp: wr_in)

lemma rd_wr_disjoint [mem_simps]:
  "off + n \<le> off' \<or> off' + length xs \<le> off \<Longrightarrow> rd (wr m off' xs) off n = rd m off n"
  by (rule nth_equalityI) (auto simp: wr_out)

lemma rd_wr_inside:
  assumes "off' \<le> off" and "off + n \<le> off' + length xs"
  shows "rd (wr m off' xs) off n = take n (drop (off - off') xs)"
proof (rule nth_equalityI)
  show "length (rd (wr m off' xs) off n) = length (take n (drop (off - off') xs))"
    using assms by simp
next
  fix i assume "i < length (rd (wr m off' xs) off n)"
  with assms show "rd (wr m off' xs) off n ! i = take n (drop (off - off') xs) ! i"
    by (auto simp: wr_in nth_append algebra_simps)
qed

lemma rd_append: "rd m off (a + b) = rd m off a @ rd m (off + a) b"
  by (rule nth_equalityI) (auto simp: nth_append)

lemma take_rd [simp]: "k \<le> n \<Longrightarrow> take k (rd m off n) = rd m off k"
  by (rule nth_equalityI) auto

lemma drop_rd [simp]: "k \<le> n \<Longrightarrow> drop k (rd m off n) = rd m (off + k) (n - k)"
  by (rule nth_equalityI) (auto simp: algebra_simps)

lemma wr_append: "wr m off (xs @ ys) = wr (wr m off xs) (off + length xs) ys"
  by (rule ext) (auto simp: wr_def nth_append)

lemma rd_eqD: "rd m off n = xs \<Longrightarrow> i < n \<Longrightarrow> m (off + i) = xs ! i"
  by auto

lemma rd_cong_sub:
  assumes "rd m off n = rd m' off' n" and "k + l \<le> n"
  shows "rd m (off + k) l = rd m' (off' + k) l"
proof -
  have "take l (drop k (rd m off n)) = take l (drop k (rd m' off' n))"
    using assms(1) by simp
  with assms(2) show ?thesis by simp
qed

section \<open>Little-endian integers\<close>

definition le32 :: "u32 \<Rightarrow> bytes" where
  "le32 w = [ucast w, ucast (drop_bit 8 w), ucast (drop_bit 16 w), ucast (drop_bit 24 w)]"

definition un_le32 :: "bytes \<Rightarrow> u32" where
  "un_le32 bs = ucast (bs ! 0) OR push_bit 8 (ucast (bs ! 1)) OR
     push_bit 16 (ucast (bs ! 2)) OR push_bit 24 (ucast (bs ! 3))"

lemma length_le32 [simp]: "length (le32 w) = 4"
  by (simp add: le32_def)

lemma un_le32_le32 [simp]: "un_le32 (le32 w @ bs) = w"
proof (rule bit_word_eqI)
  fix n assume "n < LENGTH(32)"
  then consider "n < 8" | "8 \<le> n" "n < 16" | "16 \<le> n" "n < 24" | "24 \<le> n" "n < 32"
    by fastforce
  then show "bit (un_le32 (le32 w @ bs)) n = bit w n"
    by cases (auto simp: un_le32_def le32_def bit_simps)
qed

lemma un_le32_le32_Nil [simp]: "un_le32 (le32 w) = w"
  using un_le32_le32 [of w "[]"] by simp

definition le16 :: "u16 \<Rightarrow> bytes" where
  "le16 w = [ucast w, ucast (drop_bit 8 w)]"

definition un_le16 :: "bytes \<Rightarrow> u16" where
  "un_le16 bs = ucast (bs ! 0) OR push_bit 8 (ucast (bs ! 1))"

definition le64 :: "u64 \<Rightarrow> bytes" where
  "le64 w = le32 (ucast w) @ le32 (ucast (drop_bit 32 w))"

definition un_le64 :: "bytes \<Rightarrow> u64" where
  "un_le64 bs = ucast (un_le32 bs) OR push_bit 32 (ucast (un_le32 (drop 4 bs)))"

lemma length_le16 [simp]: "length (le16 w) = 2"
  by (simp add: le16_def)

lemma length_le64 [simp]: "length (le64 w) = 8"
  by (simp add: le64_def)

lemma un_le16_le16 [simp]: "un_le16 (le16 w @ bs) = w"
proof (rule bit_word_eqI)
  fix n assume "n < LENGTH(16)"
  then consider "n < 8" | "8 \<le> n" "n < 16" by fastforce
  then show "bit (un_le16 (le16 w @ bs)) n = bit w n"
    by cases (auto simp: un_le16_def le16_def bit_simps)
qed

lemma un_le64_le64 [simp]: "un_le64 (le64 w @ bs) = w"
proof (rule bit_word_eqI)
  fix n assume "n < LENGTH(64)"
  then consider "n < 32" | "32 \<le> n" "n < 64" by fastforce
  then show "bit (un_le64 (le64 w @ bs)) n = bit w n"
    by cases (auto simp: un_le64_def le64_def bit_simps)
qed

lemma un_le32_prefix: "4 \<le> length bs \<Longrightarrow> un_le32 (bs @ cs) = un_le32 bs"
  by (auto simp: un_le32_def nth_append)

lemma le32_un_le32:
  assumes "length bs = 4"
  shows "le32 (un_le32 bs) = bs"
proof -
  from assms obtain a b c d where bs: "bs = [a, b, c, d]"
    by (auto simp: length_Suc_conv eval_nat_numeral)
  have "ucast (un_le32 bs) = a"
    by (rule bit_word_eqI) (auto simp: bs un_le32_def bit_simps dest: bit_imp_le_length)
  moreover have "ucast (drop_bit 8 (un_le32 bs)) = b"
    by (rule bit_word_eqI) (auto simp: bs un_le32_def bit_simps dest: bit_imp_le_length)
  moreover have "ucast (drop_bit 16 (un_le32 bs)) = c"
    by (rule bit_word_eqI) (auto simp: bs un_le32_def bit_simps dest: bit_imp_le_length)
  moreover have "ucast (drop_bit 24 (un_le32 bs)) = d"
    by (rule bit_word_eqI) (auto simp: bs un_le32_def bit_simps dest: bit_imp_le_length)
  ultimately show ?thesis by (simp add: le32_def bs)
qed

text \<open>The byte swaps behind \<open>htonl\<close>, \<open>htonll\<close> and \<open>htons\<close> on a little-endian host.\<close>

definition bswap16 :: "u16 \<Rightarrow> u16" where "bswap16 w = un_le16 (rev (le16 w))"
definition bswap32 :: "u32 \<Rightarrow> u32" where "bswap32 w = un_le32 (rev (le32 w))"
definition bswap64 :: "u64 \<Rightarrow> u64" where "bswap64 w = un_le64 (rev (le64 w))"

lemma le16_un_le16:
  assumes "length bs = 2"
  shows "le16 (un_le16 bs) = bs"
proof -
  from assms obtain a b where bs: "bs = [a, b]"
    by (auto simp: length_Suc_conv eval_nat_numeral)
  have "ucast (un_le16 bs) = a"
    by (rule bit_word_eqI) (auto simp: bs un_le16_def bit_simps dest: bit_imp_le_length)
  moreover have "ucast (drop_bit 8 (un_le16 bs)) = b"
    by (rule bit_word_eqI) (auto simp: bs un_le16_def bit_simps dest: bit_imp_le_length)
  ultimately show ?thesis by (simp add: le16_def bs)
qed

lemma le64_un_le64:
  assumes "length bs = 8"
  shows "le64 (un_le64 bs) = bs"
proof -
  have "ucast (un_le64 bs) = un_le32 bs"
    by (rule bit_word_eqI) (auto simp: un_le64_def bit_simps dest: bit_imp_le_length)
  moreover have "ucast (drop_bit 32 (un_le64 bs)) = un_le32 (drop 4 bs)"
    by (rule bit_word_eqI) (auto simp: un_le64_def bit_simps dest: bit_imp_le_length)
  moreover have "un_le32 bs = un_le32 (take 4 bs)"
    using un_le32_prefix [of "take 4 bs" "drop 4 bs"] assms by simp
  ultimately show ?thesis
    using assms by (simp add: le64_def le32_un_le32)
qed

lemma bswap_inverse [simp]:
  "bswap16 (bswap16 a) = a" "bswap32 (bswap32 b) = b" "bswap64 (bswap64 c) = c"
  using un_le16_le16 [of a "[]"] un_le64_le64 [of c "[]"]
  by (simp_all add: bswap16_def bswap32_def bswap64_def le16_un_le16 le32_un_le32 le64_un_le64)

section \<open>Words\<close>

lemma small_word_bits: "unat k < 2 ^ w \<Longrightarrow> w \<le> n \<Longrightarrow> \<not> bit (k :: 'a::len word) n"
proof -
  assume k: "unat k < 2 ^ w" and n: "w \<le> n"
  have "bit k n \<Longrightarrow> bit (unat k) n" by (simp add: bit_unsigned_iff)
  moreover have "\<not> bit (unat k) n"
    using k n by (metis bit_take_bit_iff linorder_not_le take_bit_nat_eq_self)
  ultimately show ?thesis by blast
qed

lemma unat_drop_bit: "unat (drop_bit n (w :: 'a::len word)) = unat w div 2 ^ n"
  unfolding unat_drop_bit_eq by (rule drop_bit_eq_div)

end
