(* ===== verification/Wire.thy ===== *)
theory Wire
  imports Prelude
begin

text \<open>
  The message formats of \<open>src/frontend/request.h\<close> and the constants of \<open>src/frontend/cs.h\<close>:
  requests and replies as the byte images that clients and clerks write through casted pointers
  into the registered buffers. A request header is two 32-bit words, the first one split into the
  bit-fields \<open>op : 8\<close> and \<open>key_size : 24\<close>; the key and the value follow it. A reply header is the
  status and the value size; it is built at the same place as the request it answers.
\<close>

section \<open>Operations, statuses and constants\<close>

datatype Operation = PUT | GET | UPDATE | DELETE | CLOSE | ALLOC

fun op_code :: "Operation \<Rightarrow> u32" where
  "op_code PUT = 0"
| "op_code GET = 1"
| "op_code UPDATE = 2"
| "op_code DELETE = 3"
| "op_code CLOSE = 4"
| "op_code ALLOC = 5"

definition op_of :: "u32 \<Rightarrow> Operation option" where
  "op_of w = (if w = 0 then Some PUT else if w = 1 then Some GET else if w = 2 then Some UPDATE
     else if w = 3 then Some DELETE else if w = 4 then Some CLOSE else if w = 5 then Some ALLOC
     else None)"

lemma op_of_op_code [simp]: "op_of (op_code p) = Some p"
  by (cases p) (auto simp: op_of_def)

lemma op_of_SomeD: "op_of w = Some p \<Longrightarrow> w = op_code p"
  by (auto simp: op_of_def split: if_splits)

datatype RequestStatus = OK | NOTFOUND | ERROR

fun status_code :: "RequestStatus \<Rightarrow> u32" where
  "status_code OK = 0"
| "status_code NOTFOUND = 1"
| "status_code ERROR = 2"

lemma status_code_eq_0 [simp]: "status_code st = 0 \<longleftrightarrow> st = OK"
  by (cases st) auto

definition MAX_REQUEST :: nat where "MAX_REQUEST = 4096"
definition MAX_ASYNC_SIZE :: nat where "MAX_ASYNC_SIZE = 32 * 1024"
definition CLIENT_DONE :: u32 where "CLIENT_DONE = 0x7f7f7f7f"
definition CLERK_DONE :: u32 where "CLERK_DONE = 0xf7f7f7f7"
definition RING_HEADER :: nat where "RING_HEADER = 4 * 2"
definition sizeof_Request :: nat where "sizeof_Request = 8"
definition sizeof_RequestReply :: nat where "sizeof_RequestReply = 8"

lemmas wire_consts = MAX_REQUEST_def MAX_ASYNC_SIZE_def RING_HEADER_def sizeof_Request_def
  sizeof_RequestReply_def

lemma done_flags_differ [simp]: "CLIENT_DONE \<noteq> CLERK_DONE" "CLERK_DONE \<noteq> CLIENT_DONE"
  by (simp_all add: CLIENT_DONE_def CLERK_DONE_def)

section \<open>Requests\<close>

record Request =
  op :: u32
  key_size :: u32
  val_size :: u32

text \<open>The sum is computed in \<open>size_t\<close> and returned as \<open>uint32_t\<close>: it wraps at 32 bits.\<close>

definition Request_Length :: "Request \<Rightarrow> u32" where
  "Request_Length r = of_nat sizeof_Request + key_size r + val_size r"

definition request_bytes :: "u32 \<Rightarrow> u32 \<Rightarrow> u32 \<Rightarrow> bytes" where
  "request_bytes p k v = le32 (take_bit 8 p OR push_bit 8 k) @ le32 v"

definition read_request :: "buffer \<Rightarrow> nat \<Rightarrow> Request" where
  "read_request m off =
     (let w = un_le32 (rd m off 4) in
      \<lparr>op = take_bit 8 w, key_size = drop_bit 8 w, val_size = un_le32 (rd m (off + 4) 4)\<rparr>)"

lemma length_request_bytes [simp]: "length (request_bytes p k v) = 8"
  by (simp add: request_bytes_def)

lemma take_bit_op_code [simp]: "take_bit 8 (op_code p) = op_code p"
  by (cases p) simp_all

lemma pack_op: "take_bit 8 (take_bit 8 p OR push_bit 8 k) = take_bit 8 (p :: u32)"
  by (rule bit_word_eqI) (auto simp: bit_simps)

lemma pack_key: "unat k < 2 ^ 24 \<Longrightarrow> drop_bit 8 (take_bit 8 p OR push_bit 8 k) = (k :: u32)"
proof (rule bit_word_eqI)
  fix n assume k: "unat k < 2 ^ 24" and "n < LENGTH(32)"
  then show "bit (drop_bit 8 (take_bit 8 p OR push_bit 8 k)) n = bit k n"
    using small_word_bits [OF k, of n] by (cases "n < 24") (auto simp: bit_simps)
qed

text \<open>What a client writes is what the clerk reads.\<close>

lemma read_request_bytes:
  assumes "rd m off 8 = request_bytes (op_code p) k v" and "unat k < 2 ^ 24"
  shows "read_request m off = \<lparr>op = op_code p, key_size = k, val_size = v\<rparr>"
proof -
  have "rd m off (4 + 4) = rd m off 4 @ rd m (off + 4) 4" by (rule rd_append)
  with assms(1) have "rd m off 4 = le32 (take_bit 8 (op_code p) OR push_bit 8 k)"
    and "rd m (off + 4) 4 = le32 v"
    by (auto simp: request_bytes_def)
  with pack_op [of "op_code p" k] pack_key [OF assms(2), of "op_code p"] show ?thesis
    by (simp add: read_request_def)
qed

section \<open>Replies\<close>

definition reply_bytes :: "RequestStatus \<Rightarrow> u32 \<Rightarrow> bytes" where
  "reply_bytes st v = le32 (status_code st) @ le32 v"

definition reply_status :: "buffer \<Rightarrow> nat \<Rightarrow> u32" where
  "reply_status m off = un_le32 (rd m off 4)"

definition reply_val_size :: "buffer \<Rightarrow> nat \<Rightarrow> u32" where
  "reply_val_size m off = un_le32 (rd m (off + 4) 4)"

lemma length_reply_bytes [simp]: "length (reply_bytes st v) = 8"
  by (simp add: reply_bytes_def)

lemma read_reply_bytes:
  assumes "rd m off 8 = reply_bytes st v"
  shows "reply_status m off = status_code st" and "reply_val_size m off = v"
proof -
  have "rd m off (4 + 4) = rd m off 4 @ rd m (off + 4) 4" by (rule rd_append)
  with assms have "rd m off 4 = le32 (status_code st)" and "rd m (off + 4) 4 = le32 v"
    by (auto simp: reply_bytes_def)
  then show "reply_status m off = status_code st" and "reply_val_size m off = v"
    by (simp_all add: reply_status_def reply_val_size_def)
qed

section \<open>The header word of a buffer\<close>

definition header :: "buffer \<Rightarrow> u32" where
  "header m = un_le32 (rd m 0 4)"

definition set_header :: "u32 \<Rightarrow> buffer \<Rightarrow> buffer" where
  "set_header w m = wr m 0 (le32 w)"

lemma header_set_header [simp]: "header (set_header w m) = w"
  by (simp add: header_def set_header_def rd_wr_same)

lemma header_wr [simp]: "4 \<le> off \<Longrightarrow> header (wr m off xs) = header m"
  by (simp add: header_def rd_wr_disjoint)

lemma rd_set_header [mem_simps]: "4 \<le> off \<Longrightarrow> rd (set_header w m) off n = rd m off n"
  by (simp add: set_header_def rd_wr_disjoint)

lemma header_wr_0 [simp]: "header (wr m 0 (le32 w)) = w"
  by (simp add: header_def rd_wr_same)

end
