(* ===== verification/Rdma.thy ===== *)
theory Rdma
  imports Prelude
begin

text \<open>
  \<open>src/rdmautil/rdmautil.h\<close> and \<open>rdmautil.cc\<close>: the connection certificate and its exchange, the
  work requests that the \<open>post_*\<close> functions hand to the verbs library, the completion poll, and the
  set-up of a device, a context and a queue pair. The verbs library itself and the socket calls are
  not part of the sources: their calls are arguments of the definitions.
\<close>

section \<open>Constants, status codes\<close>

definition MAX_QP_DEPTH :: u32 where "MAX_QP_DEPTH = 8"
definition MAX_INLINE_SIZE :: nat where "MAX_INLINE_SIZE = 128"
definition SEND_BUF_SIZE :: nat where "SEND_BUF_SIZE = 1 * 1024 * 1024"
definition MAX_CQE :: nat where "MAX_CQE = 32"

datatype RDMAStatus = Ok | NoRDMADeviceList | DeviceNotFound | DeviceNotOpened | NoGID
  | CannotOpenDevice | CannotAllocPD | CannotCreateCQ | CannotRegMR | CannotCreateQP
  | CannotQueryPort | InvalidGIDIdx | InvalidIBPort | InvalidArguments | CannotInitQP
  | QPRTRFailed | QPRTSFailed | ReadError | WriteError | PostFailed | RecvFailed

fun decode_rdma_status :: "RDMAStatus \<Rightarrow> string" where
  "decode_rdma_status Ok = ''Ok''"
| "decode_rdma_status NoRDMADeviceList = ''NoRDMADeviceList''"
| "decode_rdma_status DeviceNotFound = ''DeviceNotFound''"
| "decode_rdma_status NoGID = ''NoGID''"
| "decode_rdma_status CannotOpenDevice = ''CannotOpenDevice''"
| "decode_rdma_status CannotAllocPD = ''CannotAllocPD''"
| "decode_rdma_status CannotCreateCQ = ''CannotCreateCQ''"
| "decode_rdma_status CannotRegMR = ''CannotRegMR''"
| "decode_rdma_status CannotCreateQP = ''CannotCreateQP''"
| "decode_rdma_status CannotQueryPort = ''CannotQueryPort''"
| "decode_rdma_status InvalidGIDIdx = ''InvalidGIDIdx''"
| "decode_rdma_status InvalidIBPort = ''InvalidIBPort''"
| "decode_rdma_status InvalidArguments = ''InvalidArguments''"
| "decode_rdma_status CannotInitQP = ''CannotInitQP''"
| "decode_rdma_status QPRTRFailed = ''QPRTRFailed''"
| "decode_rdma_status QPRTSFailed = ''QPRTSFailed''"
| "decode_rdma_status DeviceNotOpened = ''DeviceNotOpened''"
| "decode_rdma_status ReadError = ''ReadError''"
| "decode_rdma_status WriteError = ''WriteError''"
| "decode_rdma_status _ = ''Unknown status''"

section \<open>Connection certificates\<close>

record connection_certificate =
  addr0 :: u64
  rkey0 :: u32
  length0 :: u32
  addr :: u64
  rkey :: u32
  mr_len :: u32
  qp_num :: u32
  lid :: u16
  gid :: bytes

text \<open>The packed structure as bytes in memory, and back.\<close>

definition cert_bytes :: "connection_certificate \<Rightarrow> bytes" where
  "cert_bytes c = le64 (addr0 c) @ le32 (rkey0 c) @ le32 (length0 c) @ le64 (addr c) @
     le32 (rkey c) @ le32 (mr_len c) @ le32 (qp_num c) @ le16 (lid c) @ gid c"

definition cert_of :: "bytes \<Rightarrow> connection_certificate" where
  "cert_of bs = \<lparr>addr0 = un_le64 bs, rkey0 = un_le32 (drop 8 bs), length0 = un_le32 (drop 12 bs),
     addr = un_le64 (drop 16 bs), rkey = un_le32 (drop 24 bs), mr_len = un_le32 (drop 28 bs),
     qp_num = un_le32 (drop 32 bs), lid = un_le16 (drop 36 bs), gid = take 16 (drop 38 bs)\<rparr>"

definition sizeof_certificate :: nat where "sizeof_certificate = 54"

text \<open>The conversion of every integer field between host and network order.\<close>

definition cert_swap :: "connection_certificate \<Rightarrow> connection_certificate" where
  "cert_swap c = \<lparr>addr0 = bswap64 (addr0 c), rkey0 = bswap32 (rkey0 c),
     length0 = bswap32 (length0 c), addr = bswap64 (addr c), rkey = bswap32 (rkey c),
     mr_len = bswap32 (mr_len c), qp_num = bswap32 (qp_num c), lid = bswap16 (lid c),
     gid = gid c\<rparr>"

lemma length_cert_bytes: "length (gid c) = 16 \<Longrightarrow> length (cert_bytes c) = sizeof_certificate"
  by (simp add: cert_bytes_def sizeof_certificate_def)

lemma cert_of_cert_bytes: "length (gid c) = 16 \<Longrightarrow> cert_of (cert_bytes c) = c"
  using un_le64_le64 [of "addr0 c"] un_le64_le64 [of "addr c"]
  by (simp add: cert_of_def cert_bytes_def)

lemma cert_swap_swap [simp]: "cert_swap (cert_swap c) = c"
  by (simp add: cert_swap_def)

lemma gid_cert_swap [simp]: "gid (cert_swap c) = gid c"
  by (simp add: cert_swap_def)

section \<open>Contexts and work requests\<close>

record ibv_mr =
  mr_addr :: u64
  mr_length :: nat
  mr_lkey :: u32
  mr_rkey :: u32

record RDMAContext =
  send_mr :: ibv_mr
  ctx_send_buf :: u64
  ctx_local :: connection_certificate
  ctx_remote :: connection_certificate
  write_mr :: ibv_mr
  ctx_write_buf :: u64
  ctx_dmabuf :: bool
  dmaoff :: u64

definition get_send_buf :: "RDMAContext \<Rightarrow> u64" where
  "get_send_buf c = ctx_send_buf c"

definition get_write_buf :: "RDMAContext \<Rightarrow> u64" where
  "get_write_buf c = ctx_write_buf c + dmaoff c"

text \<open>\<open>register_write_buf\<close> on memory; \<open>mr\<close> is what \<open>ibv_reg_mr\<close> returned, \<open>None\<close> its null pointer.\<close>

definition register_write_buf ::
  "ibv_mr option \<Rightarrow> u64 \<Rightarrow> RDMAContext \<Rightarrow> int \<times> RDMAContext" where
  "register_write_buf mr mem c =
     (case mr of
        None \<Rightarrow> (-1, c)
      | Some m \<Rightarrow>
          (0, c\<lparr>write_mr := m,
                ctx_local := (ctx_local c)\<lparr>addr := mr_addr m, rkey := mr_rkey m,
                                            mr_len := of_nat (mr_length m)\<rparr>,
                ctx_write_buf := mem, ctx_dmabuf := False, dmaoff := 0\<rparr>))"

text \<open>\<open>register_write_buf\<close> on a DMA buffer; \<open>mapped\<close> is the address \<open>mmap\<close> returned.\<close>

definition register_dma_buf ::
  "ibv_mr option \<Rightarrow> u64 \<Rightarrow> u64 \<Rightarrow> RDMAContext \<Rightarrow> int \<times> RDMAContext" where
  "register_dma_buf mr mapped offset c =
     (case mr of
        None \<Rightarrow> (-1, c)
      | Some m \<Rightarrow>
          (0, c\<lparr>write_mr := m,
                ctx_local := (ctx_local c)\<lparr>addr := mr_addr m + offset, rkey := mr_rkey m,
                                            mr_len := of_nat (mr_length m)\<rparr>,
                ctx_write_buf := mapped, ctx_dmabuf := True, dmaoff := offset\<rparr>))"

text \<open>
  \<open>exchange_certificate\<close>: \<open>sent\<close> is the number of bytes \<open>write\<close> accepted and \<open>got\<close> the bytes \<open>read\<close>
  returned. The result holds the bytes put on the wire.
\<close>

definition exchange_certificate ::
  "RDMAContext \<Rightarrow> nat \<Rightarrow> bytes \<Rightarrow> bytes \<times> RDMAStatus \<times> RDMAContext" where
  "exchange_certificate c sent got =
     (let out = cert_bytes (cert_swap (ctx_local c)) in
      if sent \<noteq> sizeof_certificate then (out, WriteError, c)
      else if length got \<noteq> sizeof_certificate then (out, ReadError, c)
      else (out, Ok, c\<lparr>ctx_remote := cert_swap (cert_of got)\<rparr>))"

datatype wr_opcode = WR_SEND | WR_RDMA_READ | WR_RDMA_WRITE | WR_ATOMIC_CMP_AND_SWP

record send_wr =
  sg_addr :: u64
  sg_length :: u32
  sg_lkey :: u32
  opcode :: wr_opcode
  signaled :: bool
  inlined :: bool
  remote_addr :: u64
  wr_rkey :: u32
  compare_add :: u64
  swap :: u64

definition mk_wr :: "u64 \<Rightarrow> u64 \<Rightarrow> u32 \<Rightarrow> wr_opcode \<Rightarrow> bool \<Rightarrow> bool \<Rightarrow> u64 \<Rightarrow> u32 \<Rightarrow> send_wr" where
  "mk_wr a len lk oc sig inl ra rk =
     \<lparr>sg_addr = a, sg_length = ucast len, sg_lkey = lk, opcode = oc, signaled = sig, inlined = inl,
      remote_addr = ra, wr_rkey = rk, compare_add = 0, swap = 0\<rparr>"

definition is_inline :: "u64 \<Rightarrow> bool" where
  "is_inline len \<longleftrightarrow> unat len \<le> MAX_INLINE_SIZE"

text \<open>The optional copy of a message to the start of the gathered range, in the process's memory.\<close>

definition stage_msg :: "(nat \<Rightarrow> byte) \<Rightarrow> bytes option \<Rightarrow> u64 \<Rightarrow> (nat \<Rightarrow> byte)" where
  "stage_msg mem msg a = (case msg of None \<Rightarrow> mem | Some bs \<Rightarrow> wr mem (unat a) bs)"

definition post_send_wr :: "RDMAContext \<Rightarrow> u64 \<Rightarrow> u64 \<Rightarrow> bool \<Rightarrow> send_wr" where
  "post_send_wr c len loff sig =
     mk_wr (ctx_send_buf c + loff) len (mr_lkey (send_mr c)) WR_SEND sig False 0 0"

definition post_read_wr :: "RDMAContext \<Rightarrow> u64 \<Rightarrow> u64 \<Rightarrow> u64 \<Rightarrow> bool \<Rightarrow> send_wr" where
  "post_read_wr c len loff roff sig =
     mk_wr (ctx_write_buf c + dmaoff c + loff) len (mr_lkey (write_mr c)) WR_RDMA_READ sig False
       (addr (ctx_remote c) + roff) (rkey (ctx_remote c))"

text \<open>Local \<open>write_buf\<close> to remote \<open>write_buf\<close>.\<close>

definition post_write_wr :: "RDMAContext \<Rightarrow> u64 \<Rightarrow> u64 \<Rightarrow> u64 \<Rightarrow> bool \<Rightarrow> send_wr" where
  "post_write_wr c len loff roff sig =
     mk_wr (ctx_write_buf c + dmaoff c + loff) len (mr_lkey (write_mr c)) WR_RDMA_WRITE sig
       (is_inline len) (addr (ctx_remote c) + roff) (rkey (ctx_remote c))"

text \<open>Local \<open>write_buf\<close> to remote \<open>send_buf\<close>.\<close>

definition post_write0_wr :: "RDMAContext \<Rightarrow> u64 \<Rightarrow> u64 \<Rightarrow> u64 \<Rightarrow> bool \<Rightarrow> send_wr" where
  "post_write0_wr c len loff roff sig =
     mk_wr (ctx_write_buf c + dmaoff c + loff) len (mr_lkey (write_mr c)) WR_RDMA_WRITE sig
       (is_inline len) (addr0 (ctx_remote c) + roff) (rkey0 (ctx_remote c))"

text \<open>Local \<open>send_buf\<close> to remote \<open>write_buf\<close>; the local key is the one of \<open>write_mr\<close>, as in the code.\<close>

definition post_write1_wr :: "RDMAContext \<Rightarrow> u64 \<Rightarrow> u64 \<Rightarrow> u64 \<Rightarrow> bool \<Rightarrow> send_wr" where
  "post_write1_wr c len loff roff sig =
     mk_wr (ctx_send_buf c + loff) len (mr_lkey (write_mr c)) WR_RDMA_WRITE sig
       (is_inline len) (addr (ctx_remote c) + roff) (rkey (ctx_remote c))"

text \<open>\<open>compare_add\<close> gets the new value and \<open>swap\<close> the old one, as in the code.\<close>

definition post_cas_wr :: "RDMAContext \<Rightarrow> u64 \<Rightarrow> u64 \<Rightarrow> u64 \<Rightarrow> u64 \<Rightarrow> bool \<Rightarrow> send_wr" where
  "post_cas_wr c old_val new_val loff roff sig =
     (mk_wr (ctx_write_buf c + dmaoff c + loff) 8 (mr_lkey (write_mr c)) WR_ATOMIC_CMP_AND_SWP sig
        False (addr (ctx_remote c) + roff) (rkey (ctx_remote c)))
     \<lparr>compare_add := new_val, swap := old_val\<rparr>"

text \<open>The functions themselves: stage the message, hand the request to \<open>ibv_post_send\<close>, return its result.\<close>

definition post_write ::
  "(send_wr \<Rightarrow> int) \<Rightarrow> RDMAContext \<Rightarrow> (nat \<Rightarrow> byte) \<Rightarrow> bytes option \<Rightarrow> u64 \<Rightarrow> u64 \<Rightarrow> u64 \<Rightarrow> bool \<Rightarrow>
   (nat \<Rightarrow> byte) \<times> int" where
  "post_write ibv_post_send c mem msg len loff roff sig =
     (stage_msg mem msg (ctx_write_buf c + dmaoff c + loff),
      ibv_post_send (post_write_wr c len loff roff sig))"

definition post_write0 ::
  "(send_wr \<Rightarrow> int) \<Rightarrow> RDMAContext \<Rightarrow> (nat \<Rightarrow> byte) \<Rightarrow> bytes option \<Rightarrow> u64 \<Rightarrow> u64 \<Rightarrow> u64 \<Rightarrow> bool \<Rightarrow>
   (nat \<Rightarrow> byte) \<times> int" where
  "post_write0 ibv_post_send c mem msg len loff roff sig =
     (stage_msg mem msg (ctx_write_buf c + dmaoff c + loff),
      ibv_post_send (post_write0_wr c len loff roff sig))"

definition post_write1 ::
  "(send_wr \<Rightarrow> int) \<Rightarrow> RDMAContext \<Rightarrow> (nat \<Rightarrow> byte) \<Rightarrow> bytes option \<Rightarrow> u64 \<Rightarrow> u64 \<Rightarrow> u64 \<Rightarrow> bool \<Rightarrow>
   (nat \<Rightarrow> byte) \<times> int" where
  "post_write1 ibv_post_send c mem msg len loff roff sig =
     (stage_msg mem msg (ctx_send_buf c + loff),
      ibv_post_send (post_write1_wr c len loff roff sig))"

definition post_send ::
  "(send_wr \<Rightarrow> int) \<Rightarrow> RDMAContext \<Rightarrow> (nat \<Rightarrow> byte) \<Rightarrow> bytes option \<Rightarrow> u64 \<Rightarrow> u64 \<Rightarrow> bool \<Rightarrow>
   (nat \<Rightarrow> byte) \<times> int" where
  "post_send ibv_post_send c mem msg len loff sig =
     (stage_msg mem msg (ctx_send_buf c + loff), ibv_post_send (post_send_wr c len loff sig))"

text \<open>
  \<open>poll_one_completion\<close>: \<open>polls\<close> is the sequence of values that successive \<open>ibv_poll_cq\<close> calls return;
  the loop ends at the first one that is not zero. \<open>None\<close>: not within the given number of polls.
\<close>

fun poll_one_completion :: "nat \<Rightarrow> (nat \<Rightarrow> int) \<Rightarrow> nat \<Rightarrow> int option" where
  "poll_one_completion 0 polls i = None"
| "poll_one_completion (Suc fuel) polls i =
     (if polls i = 0 then poll_one_completion fuel polls (Suc i) else Some (polls i))"

lemma poll_one_completion_returns:
  assumes "polls n \<noteq> 0" and "i \<le> n" and "n < i + fuel" and "\<And>j. i \<le> j \<Longrightarrow> j < n \<Longrightarrow> polls j = 0"
  shows "poll_one_completion fuel polls i = Some (polls n)"
  using assms
proof (induction fuel arbitrary: i)
  case 0
  then show ?case by simp
next
  case (Suc fuel)
  show ?case
  proof (cases "i = n")
    case True
    with Suc.prems show ?thesis by simp
  next
    case False
    with Suc.prems have "polls i = 0" by simp
    moreover have "poll_one_completion fuel polls (Suc i) = Some (polls n)"
      using Suc.prems False by (intro Suc.IH) auto
    ultimately show ?thesis by simp
  qed
qed

section \<open>Which requests the verbs library accepts\<close>

text \<open>
  The gathered range of a request that is not inlined has to lie in the memory region its local key
  names; for an inlined request the key is not looked at.
\<close>

definition in_mr :: "ibv_mr \<Rightarrow> send_wr \<Rightarrow> bool" where
  "in_mr m w \<longleftrightarrow> sg_lkey w = mr_lkey m \<and> unat (mr_addr m) \<le> unat (sg_addr w) \<and>
     unat (sg_addr w) + unat (sg_length w) \<le> unat (mr_addr m) + mr_length m"

definition local_access_ok :: "RDMAContext \<Rightarrow> send_wr \<Rightarrow> bool" where
  "local_access_ok c w \<longleftrightarrow> inlined w \<or> in_mr (send_mr c) w \<or> in_mr (write_mr c) w"

text \<open>A context whose regions are the buffers it points to, disjoint and with different keys.\<close>

definition ctx_wf :: "RDMAContext \<Rightarrow> bool" where
  "ctx_wf c \<longleftrightarrow> mr_addr (send_mr c) = ctx_send_buf c \<and> mr_addr (write_mr c) = ctx_write_buf c \<and>
     dmaoff c = 0 \<and> mr_lkey (send_mr c) \<noteq> mr_lkey (write_mr c) \<and>
     unat (ctx_send_buf c) + mr_length (send_mr c) < 2 ^ 64 \<and>
     unat (ctx_write_buf c) + mr_length (write_mr c) < 2 ^ 64 \<and>
     mr_length (send_mr c) < 2 ^ 32 \<and> mr_length (write_mr c) < 2 ^ 32 \<and>
     (unat (ctx_send_buf c) + mr_length (send_mr c) \<le> unat (ctx_write_buf c) \<or>
      unat (ctx_write_buf c) + mr_length (write_mr c) \<le> unat (ctx_send_buf c))"

lemma unat_add_small: "unat a + unat b < 2 ^ 64 \<Longrightarrow> unat (a + b :: u64) = unat a + unat b"
  by (simp add: unat_word_ariths)

lemma unat_ucast_32: "unat l < 2 ^ 32 \<Longrightarrow> unat (ucast (l :: u64) :: u32) = unat l"
  by (simp add: unsigned_ucast_eq take_bit_nat_eq_self)

lemma in_mr_write:
  assumes "ctx_wf c" and "unat loff + unat len \<le> mr_length (write_mr c)"
  shows "in_mr (write_mr c) (mk_wr (ctx_write_buf c + dmaoff c + loff) len (mr_lkey (write_mr c)) oc
    sig inl ra rk)"
proof -
  from assms have "unat (ctx_write_buf c) + unat loff < 2 ^ 64" and "unat len < 2 ^ 32"
    and "dmaoff c = 0" and "mr_addr (write_mr c) = ctx_write_buf c"
    by (auto simp: ctx_wf_def)
  with assms(2) show ?thesis
    by (simp add: in_mr_def mk_wr_def unat_add_small unat_ucast_32)
qed

lemma not_in_mr_write1:
  assumes "ctx_wf c" and "unat loff + unat len \<le> mr_length (send_mr c)" and "0 < unat len"
  shows "\<not> in_mr (send_mr c) (post_write1_wr c len loff roff sig)"
    and "\<not> in_mr (write_mr c) (post_write1_wr c len loff roff sig)"
proof -
  from assms have "unat (ctx_send_buf c) + unat loff < 2 ^ 64" and "unat len < 2 ^ 32"
    by (auto simp: ctx_wf_def)
  with assms show "\<not> in_mr (send_mr c) (post_write1_wr c len loff roff sig)"
    and "\<not> in_mr (write_mr c) (post_write1_wr c len loff roff sig)"
    by (auto simp: in_mr_def mk_wr_def post_write1_wr_def ctx_wf_def unat_add_small unat_ucast_32)
qed

section \<open>Devices and queue pairs\<close>

text \<open>The context \<open>make_rdma_context\<close> returns: all bytes zero.\<close>

definition zero_mr :: ibv_mr where
  "zero_mr = \<lparr>mr_addr = 0, mr_length = 0, mr_lkey = 0, mr_rkey = 0\<rparr>"

definition zero_certificate :: connection_certificate where
  "zero_certificate = \<lparr>addr0 = 0, rkey0 = 0, length0 = 0, addr = 0, rkey = 0, mr_len = 0, qp_num = 0,
     lid = 0, gid = replicate 16 0\<rparr>"

definition make_rdma_context :: RDMAContext where
  "make_rdma_context = \<lparr>send_mr = zero_mr, ctx_send_buf = 0, ctx_local = zero_certificate,
     ctx_remote = zero_certificate, write_mr = zero_mr, ctx_write_buf = 0, ctx_dmabuf = False,
     dmaoff = 0\<rparr>"

text \<open>
  \<open>make_rdma\<close>: the device list is \<open>None\<close> for a null pointer; a device is its name and whether
  \<open>ibv_open_device\<close> succeeds on it. The result is the index of the device that is used.
\<close>

fun find_device :: "string \<Rightarrow> (string \<times> bool) list \<Rightarrow> nat \<Rightarrow> nat option" where
  "find_device nm [] i = None"
| "find_device nm ((n, opens) # ds) i =
     (if n = nm \<and> opens then Some i else find_device nm ds (Suc i))"

definition make_rdma :: "string \<Rightarrow> (string \<times> bool) list option \<Rightarrow> nat option" where
  "make_rdma nm devices = (case devices of None \<Rightarrow> None | Some ds \<Rightarrow> find_device nm ds 0)"

text \<open>What the verbs calls of \<open>RDMADevice::open\<close> return, in the order the code makes them.\<close>

record open_calls =
  oc_pd :: bool
  oc_in_cq :: bool
  oc_out_cq :: bool
  oc_send_buf :: u64
  oc_send_mr :: "ibv_mr option"
  oc_qp_num :: "u32 option"
  oc_gid :: "bytes option"
  oc_lid :: "u16 option"

definition RDMADevice_open :: "int \<Rightarrow> open_calls \<Rightarrow> RDMAContext option \<times> RDMAStatus" where
  "RDMADevice_open gid_idx v =
     (if \<not> oc_pd v then (None, CannotAllocPD)
      else if \<not> oc_in_cq v then (None, CannotCreateCQ)
      else if \<not> oc_out_cq v then (None, CannotCreateCQ)
      else case oc_send_mr v of None \<Rightarrow> (None, CannotRegMR)
      | Some mr \<Rightarrow>
        (case oc_qp_num v of None \<Rightarrow> (None, CannotCreateQP)
         | Some qpn \<Rightarrow>
           (let c0 = zero_certificate\<lparr>addr0 := oc_send_buf v, rkey0 := mr_rkey mr,
                       length0 := of_nat SEND_BUF_SIZE\<rparr>;
                finish = (\<lambda>g. case oc_lid v of None \<Rightarrow> (None, CannotQueryPort)
                   | Some l \<Rightarrow> (Some (make_rdma_context\<lparr>send_mr := mr, ctx_send_buf := oc_send_buf v,
                        ctx_local := c0\<lparr>gid := g, qp_num := qpn, lid := l\<rparr>\<rparr>), Ok))
            in if 0 \<le> gid_idx
               then (case oc_gid v of None \<Rightarrow> (None, NoGID) | Some g \<Rightarrow> finish (take 16 g))
               else finish (gid c0))))"

lemma RDMADevice_open_context_iff:
  "fst (RDMADevice_open g v) \<noteq> None \<longleftrightarrow> snd (RDMADevice_open g v) = Ok"
  by (auto simp: RDMADevice_open_def Let_def split: option.splits)

datatype qp_state = QPS_INIT | QPS_RTR | QPS_RTS

record qp_attr =
  qp_state :: qp_state
  port_num :: int
  pkey_index :: nat
  qp_access_flags :: "string set"
  path_mtu :: nat
  dest_qp_num :: u32
  rq_psn :: nat
  max_dest_rd_atomic :: nat
  min_rnr_timer :: nat
  is_global :: bool
  dlid :: u16
  ah_port_num :: int
  dgid :: bytes
  hop_limit :: nat
  sgid_index :: int
  timeout :: nat
  retry_cnt :: nat
  rnr_retry :: nat
  sq_psn :: nat
  max_rd_atomic :: nat

definition zero_attr :: "qp_state \<Rightarrow> qp_attr" where
  "zero_attr s = \<lparr>qp_state = s, port_num = 0, pkey_index = 0, qp_access_flags = {}, path_mtu = 0,
     dest_qp_num = 0, rq_psn = 0, max_dest_rd_atomic = 0, min_rnr_timer = 0, is_global = False,
     dlid = 0, ah_port_num = 0, dgid = replicate 16 0, hop_limit = 0, sgid_index = 0, timeout = 0,
     retry_cnt = 0, rnr_retry = 0, sq_psn = 0, max_rd_atomic = 0\<rparr>"

definition get_default_qp_init_state_attr :: "int \<Rightarrow> qp_attr" where
  "get_default_qp_init_state_attr ib_port = (zero_attr QPS_INIT)\<lparr>port_num := ib_port, pkey_index := 0,
     qp_access_flags := {''LOCAL_WRITE'', ''REMOTE_READ'', ''REMOTE_WRITE''}\<rparr>"

definition get_default_qp_rtr_attr :: "connection_certificate \<Rightarrow> int \<Rightarrow> int \<Rightarrow> qp_attr" where
  "get_default_qp_rtr_attr remote ib_port sgid_idx =
     (let a = (zero_attr QPS_RTR)\<lparr>path_mtu := 256, dest_qp_num := qp_num remote, rq_psn := 0,
                max_dest_rd_atomic := 1, min_rnr_timer := 0x12, is_global := False,
                dlid := lid remote, ah_port_num := ib_port\<rparr>
      in if 0 \<le> sgid_idx
         then a\<lparr>is_global := True, ah_port_num := 1, dgid := gid remote, hop_limit := 1,
                sgid_index := sgid_idx\<rparr>
         else a)"

definition get_default_qp_rts_attr :: qp_attr where
  "get_default_qp_rts_attr = (zero_attr QPS_RTS)\<lparr>timeout := 14, retry_cnt := 7, rnr_retry := 7,
     sq_psn := 0, max_rd_atomic := 1\<rparr>"

definition init_mask :: "string set" where
  "init_mask = {''STATE'', ''PKEY_INDEX'', ''PORT'', ''ACCESS_FLAGS''}"

definition rtr_mask :: "string set" where
  "rtr_mask = {''STATE'', ''AV'', ''PATH_MTU'', ''DEST_QPN'', ''RQ_PSN'', ''MAX_DEST_RD_ATOMIC'',
     ''MIN_RNR_TIMER''}"

definition rts_mask :: "string set" where
  "rts_mask = {''STATE'', ''TIMEOUT'', ''RETRY_CNT'', ''RNR_RETRY'', ''SQ_PSN'', ''MAX_QP_RD_ATOMIC''}"

text \<open>\<open>modify_qp\<close> over the library's \<open>ibv_modify_qp\<close>, whose queue pair is the state \<open>q\<close>.\<close>

definition modify_qp ::
  "('q \<Rightarrow> qp_attr \<Rightarrow> string set \<Rightarrow> int \<times> 'q) \<Rightarrow> 'q \<Rightarrow> qp_attr \<Rightarrow> string set \<Rightarrow> (RDMAStatus \<times> int) \<times> 'q"
  where
  "modify_qp ibv_modify_qp q a msk =
     (case ibv_modify_qp q a msk of (ret, q') \<Rightarrow>
        ((if ret = 0 then Ok else CannotInitQP, ret), q'))"

text \<open>
  \<open>default_connect\<close> after the certificate exchange, whose status is \<open>st\<close>; the result is what the
  callers compare with \<open>-1\<close>.
\<close>

definition default_connect ::
  "('q \<Rightarrow> qp_attr \<Rightarrow> string set \<Rightarrow> int \<times> 'q) \<Rightarrow> RDMAStatus \<Rightarrow> connection_certificate \<Rightarrow> int \<Rightarrow> int \<Rightarrow>
   'q \<Rightarrow> int \<times> 'q" where
  "default_connect ibv_modify_qp st remote ib_port gid_idx q =
     (if st \<noteq> Ok then (-1, q)
      else case modify_qp ibv_modify_qp q (get_default_qp_init_state_attr 1) init_mask of
        ((s1, e1), q1) \<Rightarrow>
          if s1 \<noteq> Ok then (e1, q1)
          else case modify_qp ibv_modify_qp q1 (get_default_qp_rtr_attr remote ib_port gid_idx)
                      rtr_mask of
            ((s2, e2), q2) \<Rightarrow>
              if s2 \<noteq> Ok then (e2, q2)
              else case modify_qp ibv_modify_qp q2 get_default_qp_rts_attr rts_mask of
                ((s3, e3), q3) \<Rightarrow> if s3 \<noteq> Ok then (e3, q3) else (0, q3))"

text \<open>The test of the callers: they give up only on \<open>-1\<close>.\<close>

definition connect_accepted :: "int \<Rightarrow> bool" where
  "connect_accepted ret \<longleftrightarrow> ret \<noteq> -1"

lemma default_connect_zero_iff:
  "fst (default_connect f st remote p g q) = 0 \<longleftrightarrow>
     st = Ok \<and>
     (\<exists>q1 q2 q3. f q (get_default_qp_init_state_attr 1) init_mask = (0, q1) \<and>
        f q1 (get_default_qp_rtr_attr remote p g) rtr_mask = (0, q2) \<and>
        f q2 get_default_qp_rts_attr rts_mask = (0, q3))"
  by (auto simp: default_connect_def modify_qp_def split: prod.splits if_splits)

section \<open>The delivery of RDMA writes\<close>

text \<open>
  The effect of an RDMA write on the remote buffer is the hardware's: \<open>rw len m off xs\<close> is the remote
  buffer \<open>m\<close>, registered with length \<open>len\<close>, after the bytes \<open>xs\<close> were written at offset \<open>off\<close>. What the
  front ends rely on is that a write inside the registered region puts its bytes there and changes
  nothing else.
\<close>

type_synonym rdma_write = "nat \<Rightarrow> buffer \<Rightarrow> nat \<Rightarrow> bytes \<Rightarrow> buffer"

definition rdma_delivers :: "rdma_write \<Rightarrow> bool" where
  "rdma_delivers rw \<longleftrightarrow> (\<forall>len m off xs. off + length xs \<le> len \<longrightarrow> rw len m off xs = wr m off xs)"

lemma rdma_deliversD:
  "rdma_delivers rw \<Longrightarrow> off + length xs \<le> len \<Longrightarrow> rw len m off xs = wr m off xs"
  by (simp add: rdma_delivers_def)

text \<open>A write outside the registered region is refused by the remote side.\<close>

definition checked_write :: rdma_write where
  "checked_write len m off xs = (if off + length xs \<le> len then wr m off xs else m)"

lemma checked_write_delivers [simp]: "rdma_delivers checked_write"
  by (simp add: rdma_delivers_def checked_write_def)

section \<open>Properties\<close>

text \<open>
  C16. When each side receives the bytes the other one wrote, both end with the
  status \<open>Ok\<close> and hold the other side's certificate field by field, through the two conversions to and
  from network order.
\<close>

theorem certificates_exchanged:
  assumes "length (gid (ctx_local a)) = 16" and "length (gid (ctx_local b)) = 16"
  shows "snd (exchange_certificate a sizeof_certificate (fst (exchange_certificate b n x))) =
      (Ok, a\<lparr>ctx_remote := ctx_local b\<rparr>)"
  using assms cert_of_cert_bytes [of "cert_swap (ctx_local b)"] length_cert_bytes [of "cert_swap (ctx_local b)"]
  by (simp add: exchange_certificate_def Let_def)

theorem certificates_exchanged_witness:
  "snd (exchange_certificate make_rdma_context sizeof_certificate
      (fst (exchange_certificate (make_rdma_context\<lparr>ctx_local := zero_certificate\<lparr>qp_num := 7\<rparr>\<rparr>) 54 []))) =
    (Ok, make_rdma_context\<lparr>ctx_remote := zero_certificate\<lparr>qp_num := 7\<rparr>\<rparr>)"
  using certificates_exchanged [of make_rdma_context "make_rdma_context\<lparr>ctx_local := zero_certificate\<lparr>qp_num := 7\<rparr>\<rparr>" 54 "[]"]
  by (simp add: make_rdma_context_def zero_certificate_def)

text \<open>
  \<open>default_connect\<close> returns 0 exactly when the exchange succeeded and the queue
  pair went through all three states; but the callers only test for \<open>-1\<close>, so a failing
  transition, whose positive error number is returned, is taken for a connection.
\<close>

lemma connect_zero_means_ready:
  "(fst (default_connect f st remote p g q) = 0 \<longleftrightarrow>
     st = Ok \<and> (\<exists>q1 q2 q3. f q (get_default_qp_init_state_attr 1) init_mask = (0, q1) \<and>
        f q1 (get_default_qp_rtr_attr remote p g) rtr_mask = (0, q2) \<and>
        f q2 get_default_qp_rts_attr rts_mask = (0, q3))) \<and>
   connect_accepted (fst (default_connect (\<lambda>q a m. (22, q)) Ok remote p g q))"
  by (simp add: default_connect_zero_iff) (simp add: default_connect_def modify_qp_def connect_accepted_def)

text \<open>
  C25. A request whose range lies in the registered write buffer passes the local
  access check, but the clerks' replies name the write buffer's key for an address in the send
  buffer: a reply of more than 128 bytes, which is not inlined, fails the check.
\<close>

theorem replies_use_wrong_key:
  assumes "ctx_wf c" and "unat loff + unat len \<le> mr_length (send_mr c)"
    and "unat loff + unat len \<le> mr_length (write_mr c)" and "MAX_INLINE_SIZE < unat len"
  shows "local_access_ok c (post_write0_wr c len loff roff sig) \<and>
    \<not> local_access_ok c (post_write1_wr c len loff roff sig)"
proof -
  have "local_access_ok c (post_write0_wr c len loff roff sig)"
    using in_mr_write [OF assms(1,3)] by (simp add: local_access_ok_def post_write0_wr_def)
  moreover have "\<not> inlined (post_write1_wr c len loff roff sig)"
    using assms(4) by (simp add: post_write1_wr_def mk_wr_def is_inline_def)
  ultimately show ?thesis
    using not_in_mr_write1 [OF assms(1,2)] assms(4) by (simp add: local_access_ok_def MAX_INLINE_SIZE_def)
qed

definition sample_context :: RDMAContext where
  "sample_context = make_rdma_context\<lparr>send_mr := \<lparr>mr_addr = 4096, mr_length = 4096, mr_lkey = 1, mr_rkey = 1\<rparr>,
     ctx_send_buf := 4096, write_mr := \<lparr>mr_addr = 65536, mr_length = 4096, mr_lkey = 2, mr_rkey = 2\<rparr>,
     ctx_write_buf := 65536\<rparr>"

theorem replies_use_wrong_key_witness:
  "local_access_ok sample_context (post_write0_wr sample_context 200 8 8 True) \<and>
   \<not> local_access_ok sample_context (post_write1_wr sample_context 200 8 8 True)"
  by (rule replies_use_wrong_key) (simp_all add: sample_context_def ctx_wf_def make_rdma_context_def MAX_INLINE_SIZE_def)

end
