(* ===== verification/KV_Store.thy ===== *)
theory KV_Store
  imports Prelude
begin

text \<open>
  \<open>src/database/db.h\<close>: the record descriptors (\<open>Meta\<close>), the abstract database class \<open>DBType\<close> as the
  record of its virtual functions, and its implementation \<open>CuckooDB\<close> over the concurrent hash map of
  \<open>libcuckoo\<close>. Every public operation of that map runs under the locks of both candidate buckets of
  its key, so one operation is one atomic change of the map's contents; the model keeps these
  contents as a partial function. The locale \<open>kv_store\<close> is the contract the front ends rely on.
\<close>

section \<open>Record descriptors\<close>

text \<open>
  The union of \<open>Meta\<close>: a file address (offset and index, in this order) or a memory address, here
  the distance from the start of the registered buffer. Reading the member that was not written
  reinterprets the eight bytes, as the code would.
\<close>

datatype meta_addr = FileAddress u32 u32 | MemAddr nat

record Meta =
  m_addr :: meta_addr
  m_flag :: bool
  m_key_size :: u32
  m_value_size :: u32

fun file_offset :: "meta_addr \<Rightarrow> u32" where
  "file_offset (FileAddress off idx) = off"
| "file_offset (MemAddr a) = of_nat a"

fun memaddr :: "meta_addr \<Rightarrow> nat" where
  "memaddr (FileAddress off idx) = unat off + 2 ^ 32 * unat idx"
| "memaddr (MemAddr a) = a"

definition Meta_empty :: Meta where
  "Meta_empty = \<lparr>m_addr = MemAddr 0, m_flag = False, m_key_size = 0, m_value_size = 0\<rparr>"

definition Meta_file :: "u32 \<Rightarrow> u32 \<Rightarrow> u32 \<Rightarrow> u32 \<Rightarrow> Meta" where
  "Meta_file idx off k v =
     \<lparr>m_addr = FileAddress off idx, m_flag = True, m_key_size = take_bit 31 k, m_value_size = v\<rparr>"

definition Meta_mem :: "nat \<Rightarrow> u32 \<Rightarrow> u32 \<Rightarrow> Meta" where
  "Meta_mem a k v =
     \<lparr>m_addr = MemAddr a, m_flag = False, m_key_size = take_bit 31 k, m_value_size = v\<rparr>"

definition Meta_DataSize :: "Meta \<Rightarrow> u32" where
  "Meta_DataSize m = m_key_size m + m_value_size m"

section \<open>The virtual functions of \<open>DBType\<close>\<close>

text \<open>
  \<open>Get\<close> returns \<open>None\<close> for \<open>false\<close> and \<open>Some v\<close> for \<open>true\<close> with \<open>*val = v\<close>. \<open>PutBatch\<close> gets the buffer
  together with its extent, so that a descriptor that leaves the buffer is a fault of the model.
\<close>

record 'd dbtype =
  db_Put :: "'d \<Rightarrow> bytes \<Rightarrow> bytes \<Rightarrow> (bool \<times> 'd) result"
  db_Get :: "'d \<Rightarrow> bytes \<Rightarrow> bytes option result"
  db_Update :: "'d \<Rightarrow> bytes \<Rightarrow> bytes \<Rightarrow> (bool \<times> 'd) result"
  db_Delete :: "'d \<Rightarrow> bytes \<Rightarrow> (bool \<times> 'd) result"
  db_PutBatch :: "'d \<Rightarrow> bytes list \<Rightarrow> Meta list \<Rightarrow> buffer \<Rightarrow> nat \<Rightarrow> u32 \<Rightarrow> (bool \<times> 'd) result"

text \<open>The value a descriptor of a batch designates, and that it stays inside the batch buffer.\<close>

definition meta_value :: "buffer \<Rightarrow> Meta \<Rightarrow> bytes" where
  "meta_value buf m =
     rd buf (unat (file_offset (m_addr m)) + unat (m_key_size m)) (unat (m_value_size m))"

definition meta_fits :: "nat \<Rightarrow> Meta \<Rightarrow> bool" where
  "meta_fits cap m \<longleftrightarrow>
     unat (file_offset (m_addr m)) + unat (m_key_size m) + unat (m_value_size m) \<le> cap"

text \<open>The contents after a batch: later records of the batch win.\<close>

fun apply_batch :: "buffer \<Rightarrow> bytes list \<Rightarrow> Meta list \<Rightarrow> (bytes \<rightharpoonup> bytes) \<Rightarrow> (bytes \<rightharpoonup> bytes)" where
  "apply_batch buf (k # ks) (m # ms) c = apply_batch buf ks ms (c(k \<mapsto> meta_value buf m))"
| "apply_batch buf _ _ c = c"

lemma apply_batch_append:
  "length ks = length ms \<Longrightarrow>
   apply_batch buf (ks @ ks') (ms @ ms') c = apply_batch buf ks' ms' (apply_batch buf ks ms c)"
  by (induction ks ms arbitrary: c rule: list_induct2) auto

lemma apply_batch_other: "k \<notin> set ks \<Longrightarrow> apply_batch buf ks ms c k = c k"
  by (induction buf ks ms c rule: apply_batch.induct) auto

section \<open>\<open>CuckooDB\<close>\<close>

type_synonym ('k, 'v) cuckoohash_map = "'k \<rightharpoonup> 'v"

definition cuckoo_insert_or_assign ::
  "'k \<Rightarrow> 'v \<Rightarrow> ('k, 'v) cuckoohash_map \<Rightarrow> ('k, 'v) cuckoohash_map" where
  "cuckoo_insert_or_assign k v h = h(k \<mapsto> v)"

text \<open>
  The overload of \<open>find\<close> that returns the value; for a missing key this copy of the library returns a
  default-constructed value (its \<open>throw\<close> is commented out).
\<close>

definition cuckoo_find_default :: "'v \<Rightarrow> ('k, 'v) cuckoohash_map \<Rightarrow> 'k \<Rightarrow> 'v" where
  "cuckoo_find_default d h k = (case h k of Some v \<Rightarrow> v | None \<Rightarrow> d)"

text \<open>The overload that reports whether the key was found.\<close>

definition cuckoo_find_value :: "('k, 'v) cuckoohash_map \<Rightarrow> 'k \<Rightarrow> 'v option" where
  "cuckoo_find_value h k = h k"

definition cuckoo_erase :: "'k \<Rightarrow> ('k, 'v) cuckoohash_map \<Rightarrow> bool \<times> ('k, 'v) cuckoohash_map" where
  "cuckoo_erase k h = (h k \<noteq> None, h(k := None))"

type_synonym CuckooDB = "(bytes, bytes) cuckoohash_map"

definition CuckooDB_new :: CuckooDB where
  "CuckooDB_new = (\<lambda>_. None)"

definition CuckooDB_Put :: "CuckooDB \<Rightarrow> bytes \<Rightarrow> bytes \<Rightarrow> (bool \<times> CuckooDB) result" where
  "CuckooDB_Put d k v = Inr (True, cuckoo_insert_or_assign k v d)"

definition CuckooDB_Get :: "CuckooDB \<Rightarrow> bytes \<Rightarrow> bytes option result" where
  "CuckooDB_Get d k = Inr (Some (cuckoo_find_default [] d k))"

definition CuckooDB_Update :: "CuckooDB \<Rightarrow> bytes \<Rightarrow> bytes \<Rightarrow> (bool \<times> CuckooDB) result" where
  "CuckooDB_Update d k v = Inr (True, cuckoo_insert_or_assign k v d)"

definition CuckooDB_Delete :: "CuckooDB \<Rightarrow> bytes \<Rightarrow> (bool \<times> CuckooDB) result" where
  "CuckooDB_Delete d k = Inr (True, snd (cuckoo_erase k d))"

fun CuckooDB_PutBatch_loop ::
  "CuckooDB \<Rightarrow> bytes list \<Rightarrow> Meta list \<Rightarrow> buffer \<Rightarrow> nat \<Rightarrow> CuckooDB result" where
  "CuckooDB_PutBatch_loop d [] ms buf cap = Inr d"
| "CuckooDB_PutBatch_loop d (k # ks) [] buf cap = Inl Out_of_bounds"
| "CuckooDB_PutBatch_loop d (k # ks) (m # ms) buf cap =
     and_then (check (meta_fits cap m) Out_of_bounds)
       (\<lambda>_. CuckooDB_PutBatch_loop (cuckoo_insert_or_assign k (meta_value buf m) d) ks ms buf cap)"

definition CuckooDB_PutBatch ::
  "CuckooDB \<Rightarrow> bytes list \<Rightarrow> Meta list \<Rightarrow> buffer \<Rightarrow> nat \<Rightarrow> u32 \<Rightarrow> (bool \<times> CuckooDB) result" where
  "CuckooDB_PutBatch d ks ms buf cap len =
     and_then (CuckooDB_PutBatch_loop d ks ms buf cap) (\<lambda>d'. Inr (True, d'))"

definition CuckooDB_vt :: "CuckooDB dbtype" where
  "CuckooDB_vt = \<lparr>db_Put = CuckooDB_Put, db_Get = CuckooDB_Get, db_Update = CuckooDB_Update,
     db_Delete = CuckooDB_Delete, db_PutBatch = CuckooDB_PutBatch\<rparr>"

section \<open>The contract of a database\<close>

text \<open>
  A database has contents, a partial map from keys to values. A missing key may be reported either
  as not found or as an empty value, because the two implementations differ there.
\<close>

locale kv_store =
  fixes vt :: "'d dbtype"
    and inv :: "'d \<Rightarrow> bool"
    and contents :: "'d \<Rightarrow> (bytes \<rightharpoonup> bytes)"
  assumes put: "inv d \<Longrightarrow> \<exists>d'. db_Put vt d k v = Inr (True, d') \<and> inv d' \<and>
      contents d' = (contents d)(k \<mapsto> v)"
    and update: "inv d \<Longrightarrow> \<exists>d'. db_Update vt d k v = Inr (True, d') \<and> inv d' \<and>
      contents d' = (contents d)(k \<mapsto> v)"
    and get_found: "inv d \<Longrightarrow> contents d k = Some v \<Longrightarrow> db_Get vt d k = Inr (Some v)"
    and get_missing: "inv d \<Longrightarrow> contents d k = None \<Longrightarrow>
      db_Get vt d k = Inr None \<or> db_Get vt d k = Inr (Some [])"
    and delete: "inv d \<Longrightarrow> \<exists>d'. db_Delete vt d k = Inr (True, d') \<and> inv d' \<and>
      contents d' = (contents d)(k := None)"
    and put_batch: "inv d \<Longrightarrow> length ks = length ms \<Longrightarrow> (\<And>m. m \<in> set ms \<Longrightarrow> meta_fits cap m) \<Longrightarrow>
      \<exists>d'. db_PutBatch vt d ks ms buf cap len = Inr (True, d') \<and> inv d' \<and>
        contents d' = apply_batch buf ks ms (contents d)"
begin

lemma put_get:
  assumes "inv d" and "db_Put vt d k v = Inr (b, d')"
  shows "db_Get vt d' k = Inr (Some v)"
  using put [OF assms(1), of k v] get_found [of d' k v] assms(2) by auto

lemma put_get_other:
  assumes "inv d" and "db_Put vt d k v = Inr (b, d')" and "k' \<noteq> k" and "contents d k' = Some w"
  shows "db_Get vt d' k' = Inr (Some w)"
  using put [OF assms(1), of k v] get_found [of d' k' w] assms by auto

lemma get_total: "inv d \<Longrightarrow> \<exists>r. db_Get vt d k = Inr r"
  using get_found [of d k] get_missing [of d k] by (cases "contents d k") auto

lemma get_Some: "inv d \<Longrightarrow> db_Get vt d k = Inr (Some v) \<Longrightarrow> v \<noteq> [] \<Longrightarrow> contents d k = Some v"
  using get_found [of d k] get_missing [of d k] by (cases "contents d k") auto

lemma delete_put_batch_order:
  assumes "inv d" and "length ks = length ms" and "\<And>m. m \<in> set ms \<Longrightarrow> meta_fits cap m"
    and "db_Delete vt d k = Inr (b, d1)" and "db_PutBatch vt d1 ks ms buf cap len = Inr (b', d2)"
  shows "contents d2 k = apply_batch buf ks ms ((contents d)(k := None)) k"
  using delete [OF assms(1), of k] put_batch [of d1 ks ms cap buf len] assms by auto

end

lemma CuckooDB_PutBatch_loop_eq:
  "length ks = length ms \<Longrightarrow> (\<And>m. m \<in> set ms \<Longrightarrow> meta_fits cap m) \<Longrightarrow>
   CuckooDB_PutBatch_loop d ks ms buf cap = Inr (apply_batch buf ks ms d)"
  by (induction ks ms arbitrary: d rule: list_induct2) (auto simp: cuckoo_insert_or_assign_def)

interpretation cuckoo: kv_store CuckooDB_vt "\<lambda>_. True" "\<lambda>d. d"
  by unfold_locales
    (auto simp: CuckooDB_vt_def CuckooDB_Put_def CuckooDB_Get_def CuckooDB_Update_def
      CuckooDB_Delete_def CuckooDB_PutBatch_def CuckooDB_PutBatch_loop_eq
      cuckoo_insert_or_assign_def cuckoo_find_default_def cuckoo_erase_def split: option.splits)

end
