(* ===== verification/Rpc.thy ===== *)
theory Rpc
  imports Wire Rdma KV_Store
begin

text \<open>
  The request/reply exchange that the three front ends share. A connection has three buffers: the
  client's registered buffer, the clerk's send buffer and the clerk's registered write buffer. A side
  posts a list of RDMA writes, executed in the order of posting (one reliable queue pair); the last
  one is always the four-byte header that the other side spins on. The \<open>Send*\<close> functions of the
  clients are split at their spin loop: a posting half and a half that runs once the header has
  changed. The pieces that the three client classes repeat verbatim are defined here once.
\<close>

section \<open>Buffers and posted writes\<close>

datatype region = Local_Buf | Send_Buf | Write_Buf

record link =
  local_buf :: buffer
  send_buf :: buffer
  write_buf :: buffer

type_synonym posted = "region \<times> nat \<times> bytes"
type_synonym extents = "region \<Rightarrow> nat"

fun deliver1 :: "rdma_write \<Rightarrow> extents \<Rightarrow> posted \<Rightarrow> link \<Rightarrow> link" where
  "deliver1 rw ext (Local_Buf, off, xs) l = l\<lparr>local_buf := rw (ext Local_Buf) (local_buf l) off xs\<rparr>"
| "deliver1 rw ext (Send_Buf, off, xs) l = l\<lparr>send_buf := rw (ext Send_Buf) (send_buf l) off xs\<rparr>"
| "deliver1 rw ext (Write_Buf, off, xs) l = l\<lparr>write_buf := rw (ext Write_Buf) (write_buf l) off xs\<rparr>"

definition deliver :: "rdma_write \<Rightarrow> extents \<Rightarrow> posted list \<Rightarrow> link \<Rightarrow> link" where
  "deliver rw ext ps l = fold (deliver1 rw ext) ps l"

lemma deliver_Nil [simp]: "deliver rw ext [] l = l"
  by (simp add: deliver_def)

lemma deliver_Cons [simp]: "deliver rw ext (p # ps) l = deliver rw ext ps (deliver1 rw ext p l)"
  by (simp add: deliver_def)

section \<open>The client's half of an exchange\<close>

text \<open>Lengths are kept in 16 bits by the clients: \<open>uint16_t key_len = strlen(key)\<close> and so on.\<close>

definition len16 :: "bytes \<Rightarrow> u16" where
  "len16 xs = of_nat (length xs)"

definition total_len16 :: "u16 \<Rightarrow> u16 \<Rightarrow> u16" where
  "total_len16 k v = of_nat sizeof_Request + k + v"

definition prepare_write :: "nat \<Rightarrow> buffer \<Rightarrow> bytes \<Rightarrow> bytes \<Rightarrow> Operation \<Rightarrow> buffer result" where
  "prepare_write cap m key val p =
     (let kl = len16 key; vl = len16 val; kn = unat kl; vn = unat vl in
      and_then (check (RING_HEADER + sizeof_Request + kn + vn \<le> cap) Out_of_bounds)
        (\<lambda>_. Inr (wr (wr (wr m RING_HEADER (request_bytes (op_code p) (ucast kl) (ucast vl)))
                (RING_HEADER + sizeof_Request) (take kn key))
              (RING_HEADER + sizeof_Request + kn) (take vn val))))"

definition prepare_key :: "nat \<Rightarrow> buffer \<Rightarrow> bytes \<Rightarrow> Operation \<Rightarrow> buffer result" where
  "prepare_key cap m key p =
     and_then (check (RING_HEADER + sizeof_Request + length key \<le> cap) Out_of_bounds)
       (\<lambda>_. Inr (wr (wr m RING_HEADER (request_bytes (op_code p) (of_nat (length key)) 0))
              (RING_HEADER + sizeof_Request) key))"

text \<open>The requests without a key: \<open>CLOSE\<close> and \<open>ALLOC\<close>.\<close>

definition prepare_plain :: "buffer \<Rightarrow> Operation \<Rightarrow> buffer" where
  "prepare_plain m p = wr m RING_HEADER (request_bytes (op_code p) 0 0)"

definition post_body :: "region \<Rightarrow> nat \<Rightarrow> buffer \<Rightarrow> nat \<Rightarrow> posted" where
  "post_body r roff m n = (r, roff, rd m RING_HEADER n)"

definition post_header :: "region \<Rightarrow> buffer \<Rightarrow> posted" where
  "post_header r m = (r, 0, rd m 0 4)"

text \<open>The writes of a request without a value, and of one without a key.\<close>

definition key_posts :: "buffer \<Rightarrow> bytes \<Rightarrow> posted list" where
  "key_posts m key = [post_body Send_Buf RING_HEADER m (unat (total_len16 (len16 key) 0)),
     post_header Send_Buf m]"

definition plain_posts :: "buffer \<Rightarrow> posted list" where
  "plain_posts m = [post_body Send_Buf RING_HEADER m sizeof_Request, post_header Send_Buf m]"

text \<open>
  The spin loop and the reset after it: \<open>None\<close> while the header is not \<open>CLERK_DONE\<close>.
\<close>

definition await_clerk :: "buffer \<Rightarrow> buffer option" where
  "await_clerk m = (if header m = CLERK_DONE then Some (set_header CLIENT_DONE m) else None)"

text \<open>What \<open>SendGet\<close> and \<open>SendDelete\<close> return once the reply is there.\<close>

definition get_reply :: "nat \<Rightarrow> buffer \<Rightarrow> bytes option result" where
  "get_reply cap m =
     (if reply_status m RING_HEADER = status_code OK then
        (let n = unat (reply_val_size m RING_HEADER) in
         and_then (check (RING_HEADER + sizeof_RequestReply + n \<le> cap) Out_of_bounds)
           (\<lambda>_. Inr (Some (rd m (RING_HEADER + sizeof_RequestReply) n))))
      else Inr None)"

definition status_reply :: "buffer \<Rightarrow> bool" where
  "status_reply m \<longleftrightarrow> reply_status m RING_HEADER = status_code OK"

section \<open>The clerk's half\<close>

text \<open>The result of one turn of a clerk's loop.\<close>

datatype outcome = Waiting | Replied "posted list" | Closed | Spinning

definition put_reply :: "buffer \<Rightarrow> RequestStatus \<Rightarrow> bytes \<Rightarrow> nat \<Rightarrow> buffer result" where
  "put_reply m st v cap =
     and_then (check (RING_HEADER + sizeof_RequestReply + length v \<le> cap) Out_of_bounds)
       (\<lambda>_. Inr (wr (wr m RING_HEADER (reply_bytes st (of_nat (length v))))
              (RING_HEADER + sizeof_RequestReply) v))"

definition read_key :: "buffer \<Rightarrow> nat \<Rightarrow> nat \<Rightarrow> bytes result" where
  "read_key m n cap =
     and_then (check (RING_HEADER + sizeof_Request + n \<le> cap) Out_of_bounds)
       (\<lambda>_. Inr (rd m (RING_HEADER + sizeof_Request) n))"

text \<open>The two writes that answer a request.\<close>

definition post_reply :: "buffer \<Rightarrow> posted list" where
  "post_reply m =
     [post_body Local_Buf RING_HEADER m (sizeof_RequestReply + unat (reply_val_size m RING_HEADER)),
      post_header Local_Buf m]"

section \<open>Laws of the exchange\<close>

lemmas rpc_consts = wire_consts SEND_BUF_SIZE_def

lemma len16_small: "length xs < 2 ^ 16 \<Longrightarrow> unat (len16 xs) = length xs"
  by (simp add: len16_def unat_of_nat)

lemma total_len16_small:
  "8 + length key + length val < 2 ^ 16 \<Longrightarrow>
   unat (total_len16 (len16 key) (len16 val)) = 8 + length key + length val"
  by (simp add: total_len16_def len16_def sizeof_Request_def unat_word_ariths unat_of_nat)

text \<open>The client's buffer after preparing a write, read back piece by piece.\<close>

lemma prepare_write_ok:
  assumes "16 + length key + length val \<le> cap" and "8 + length key + length val < 2 ^ 16"
  obtains m' where "prepare_write cap m key val p = Inr m'"
    and "rd m' 8 8 = request_bytes (op_code p) (of_nat (length key)) (of_nat (length val))"
    and "rd m' 16 (length key) = key" and "rd m' (16 + length key) (length val) = val"
    and "header m' = header m"
proof -
  have l: "unat (len16 key) = length key" "unat (len16 val) = length val"
    using assms(2) by (simp_all add: len16_small)
  have u: "ucast (len16 key) = (of_nat (length key) :: u32)"
    "ucast (len16 val) = (of_nat (length val) :: u32)"
    using l by (metis of_nat_unat)+
  let ?m = "wr (wr (wr m 8 (request_bytes (op_code p) (of_nat (length key)) (of_nat (length val))))
      16 key) (16 + length key) val"
  show thesis
  proof (rule that [of ?m])
    show "prepare_write cap m key val p = Inr ?m"
      using assms l u by (simp add: prepare_write_def Let_def wire_consts)
  qed (simp_all add: mem_simps)
qed

lemma prepare_key_ok:
  assumes "16 + length key \<le> cap"
  obtains m' where "prepare_key cap m key p = Inr m'"
    and "rd m' 8 8 = request_bytes (op_code p) (of_nat (length key)) 0"
    and "rd m' 16 (length key) = key" and "header m' = header m"
proof -
  let ?m = "wr (wr m 8 (request_bytes (op_code p) (of_nat (length key)) 0)) 16 key"
  show thesis
  proof (rule that [of ?m])
    show "prepare_key cap m key p = Inr ?m"
      using assms by (simp add: prepare_key_def wire_consts)
  qed (simp_all add: mem_simps)
qed

lemma prepare_plain_ok:
  "rd (prepare_plain m p) 8 8 = request_bytes (op_code p) 0 0" "header (prepare_plain m p) = header m"
  by (simp_all add: prepare_plain_def wire_consts mem_simps)

text \<open>A reply built in the clerk's buffer arrives in the client's buffer.\<close>

lemma put_reply_ok:
  assumes "16 + length v \<le> cap" and "length v < 2 ^ 32"
  obtains m' where "put_reply m st v cap = Inr m'"
    and "rd m' 8 8 = reply_bytes st (of_nat (length v))" and "rd m' 16 (length v) = v"
    and "header m' = header m" and "reply_val_size m' 8 = of_nat (length v)"
proof -
  let ?m = "wr (wr m 8 (reply_bytes st (of_nat (length v)))) 16 v"
  have r: "rd ?m 8 8 = reply_bytes st (of_nat (length v))"
    by (simp add: mem_simps)
  show thesis
  proof (rule that [of ?m])
    show "put_reply m st v cap = Inr ?m"
      using assms by (simp add: put_reply_def wire_consts)
    show "reply_val_size ?m 8 = of_nat (length v)" using r by (rule read_reply_bytes(2))
  qed (simp_all add: mem_simps r)
qed

lemma deliver_reply:
  assumes rw: "rdma_delivers rw" and len: "16 + length v \<le> ext Local_Buf" "length v < 2 ^ 32"
    and m: "rd m 8 8 = reply_bytes st (of_nat (length v))" "rd m 16 (length v) = v"
      "header m = CLERK_DONE"
  obtains lb where "deliver rw ext (post_reply m) l = l\<lparr>local_buf := lb\<rparr>"
    and "header lb = CLERK_DONE" and "rd lb 8 8 = reply_bytes st (of_nat (length v))"
    and "rd lb 16 (length v) = v"
proof -
  have n: "unat (reply_val_size m 8) = length v"
    using read_reply_bytes(2) [OF m(1)] len(2) by (simp add: unat_of_nat)
  have body: "rd m 8 (8 + length v) = reply_bytes st (of_nat (length v)) @ v"
    using rd_append [of m 8 8 "length v"] m by simp
  have hd: "rd m 0 4 = le32 CLERK_DONE"
    using m(3) le32_un_le32 [of "rd m 0 4"] by (simp add: header_def)
  let ?lb = "wr (wr (local_buf l) 8 (reply_bytes st (of_nat (length v)) @ v)) 0 (le32 CLERK_DONE)"
  show thesis
  proof (rule that [of ?lb])
    show "deliver rw ext (post_reply m) l = l\<lparr>local_buf := ?lb\<rparr>"
      using len by (simp add: post_reply_def post_body_def post_header_def wire_consts n body hd
          rdma_deliversD [OF rw])
    show "header ?lb = CLERK_DONE" by simp
    show "rd ?lb 8 8 = reply_bytes st (of_nat (length v))"
      by (simp add: wr_append mem_simps)
    show "rd ?lb 16 (length v) = v"
      by (simp add: wr_append mem_simps)
  qed
qed

lemma get_reply_OK:
  assumes "rd m 8 8 = reply_bytes OK (of_nat (length v))" and "rd m 16 (length v) = v"
    and "16 + length v \<le> cap" and "length v < 2 ^ 32"
  shows "get_reply cap m = Inr (Some v)"
  using read_reply_bytes [OF assms(1)] assms(2-)
  by (simp add: get_reply_def Let_def wire_consts unat_of_nat)

lemma get_reply_not_OK:
  assumes "rd m 8 8 = reply_bytes st w" and "st \<noteq> OK"
  shows "get_reply cap m = Inr None"
  using read_reply_bytes [OF assms(1)] assms(2) by (simp add: get_reply_def wire_consts)

lemma status_reply_iff:
  assumes "rd m 8 8 = reply_bytes st w"
  shows "status_reply m \<longleftrightarrow> st = OK"
  using read_reply_bytes [OF assms(1)] by (simp add: status_reply_def wire_consts)

text \<open>
  The order of the posted writes: until the last one has been executed, the header that the receiver
  spins on keeps its value, whatever prefix of the list the hardware has completed.
\<close>

definition header_of :: "region \<Rightarrow> link \<Rightarrow> u32" where
  "header_of r l = header (case r of Local_Buf \<Rightarrow> local_buf l | Send_Buf \<Rightarrow> send_buf l
     | Write_Buf \<Rightarrow> write_buf l)"

fun spares_header :: "region \<Rightarrow> extents \<Rightarrow> posted \<Rightarrow> bool" where
  "spares_header r ext (r', off, xs) \<longleftrightarrow> off + length xs \<le> ext r' \<and> (r' = r \<longrightarrow> 4 \<le> off)"

lemma header_of_deliver1:
  "rdma_delivers rw \<Longrightarrow> spares_header r ext p \<Longrightarrow> header_of r (deliver1 rw ext p l) = header_of r l"
  by (cases p, cases "fst p") (auto simp: header_of_def rdma_deliversD split: region.splits)

lemma header_of_deliver:
  "rdma_delivers rw \<Longrightarrow> (\<And>p. p \<in> set ps \<Longrightarrow> spares_header r ext p) \<Longrightarrow>
   header_of r (deliver rw ext ps l) = header_of r l"
  by (induction ps arbitrary: l) (auto simp: header_of_deliver1)

lemma header_last:
  assumes "rdma_delivers rw" and "\<And>p. p \<in> set ps \<Longrightarrow> spares_header r ext p" and "n \<le> length ps"
  shows "header_of r (deliver rw ext (take n (ps @ [q])) l) = header_of r l"
proof -
  have "take n (ps @ [q]) = take n ps" using assms(3) by simp
  moreover have "spares_header r ext p" if "p \<in> set (take n ps)" for p
    using that assms(2) set_take_subset by fastforce
  ultimately show ?thesis using header_of_deliver [OF assms(1)] by metis
qed

section \<open>One exchange\<close>

text \<open>
  The client posts, the clerk takes one turn, its reply is delivered and the client leaves its spin
  loop. The result is \<open>None\<close> when the client is left spinning: the clerk has not answered.
\<close>

definition rpc_round ::
  "rdma_write \<Rightarrow> extents \<Rightarrow> (link \<Rightarrow> 's \<Rightarrow> (outcome \<times> link \<times> 's) result) \<Rightarrow> posted list \<Rightarrow>
   link \<Rightarrow> 's \<Rightarrow> (link \<times> 's) option result" where
  "rpc_round rw ext turn posts l s =
     and_then (turn (deliver rw ext posts l) s)
       (\<lambda>(r, l', s'). case r of
          Replied ps \<Rightarrow>
            (let l2 = deliver rw ext ps l' in
             Inr (map_option (\<lambda>lb. (l2\<lparr>local_buf := lb\<rparr>, s')) (await_clerk (local_buf l2))))
        | _ \<Rightarrow> Inr None)"

lemma rpc_round_reply:
  assumes rw: "rdma_delivers rw" and len: "16 + length v \<le> ext Local_Buf" "length v < 2 ^ 32"
    and turn: "turn (deliver rw ext posts l) s = Inr (Replied (post_reply sb), l', s')"
    and sb: "rd sb 8 8 = reply_bytes st (of_nat (length v))" "rd sb 16 (length v) = v"
      "header sb = CLERK_DONE"
  obtains lb where "rpc_round rw ext turn posts l s = Inr (Some (l'\<lparr>local_buf := lb\<rparr>, s'))"
    and "header lb = CLIENT_DONE" and "rd lb 8 8 = reply_bytes st (of_nat (length v))"
    and "rd lb 16 (length v) = v"
proof -
  obtain lb where d: "deliver rw ext (post_reply sb) l' = l'\<lparr>local_buf := lb\<rparr>"
    and lb: "header lb = CLERK_DONE" "rd lb 8 8 = reply_bytes st (of_nat (length v))"
      "rd lb 16 (length v) = v"
    using deliver_reply [where ext = ext and v = v and l = l', OF rw len sb] by blast
  show thesis
  proof (rule that [of "set_header CLIENT_DONE lb"])
    show "rpc_round rw ext turn posts l s =
        Inr (Some (l'\<lparr>local_buf := set_header CLIENT_DONE lb\<rparr>, s'))"
      using turn d lb(1) by (simp add: rpc_round_def await_clerk_def)
  qed (simp_all add: mem_simps lb)
qed

text \<open>A request posted to a clerk's buffer, as the clerk finds it.\<close>

lemma request_body_split:
  "rd m 8 (8 + a + b) = rd m 8 8 @ rd m 16 a @ rd m (16 + a) b"
proof -
  have "rd m 8 (8 + (a + b)) = rd m 8 8 @ rd m 16 (a + b)"
    using rd_append [of m 8 8 "a + b"] by simp
  then show ?thesis by (simp add: rd_append add.assoc)
qed

lemma header_bytes: "header m = w \<Longrightarrow> rd m 0 4 = le32 w"
  using le32_un_le32 [of "rd m 0 4"] by (simp add: header_def)

text \<open>
  The bytes of a request in a receiving buffer \<open>sb\<close> into which the body of length \<open>n\<close> and then the
  header were written from \<open>m\<close>.
\<close>

definition received :: "buffer \<Rightarrow> buffer \<Rightarrow> nat \<Rightarrow> buffer" where
  "received sb m n = wr (wr sb 8 (rd m 8 n)) 0 (rd m 0 4)"

lemma header_received: "header m = CLIENT_DONE \<Longrightarrow> header (received sb m n) = CLIENT_DONE"
  by (simp add: received_def header_bytes)

lemma rd_received: "8 \<le> off \<Longrightarrow> off + k \<le> 8 + n \<Longrightarrow> rd (received sb m n) off k = rd m off k"
  by (simp add: received_def rd_wr_disjoint rd_wr_inside)

lemma received_request:
  assumes m: "rd m 8 8 = request_bytes (op_code p) (of_nat kn) w" "8 + kn \<le> n" and kn: "kn < 2 ^ 24"
  shows "read_request (set_header CLERK_DONE (received sb m n)) 8 =
      \<lparr>op = op_code p, key_size = of_nat kn, val_size = w\<rparr>"
    and "read_key (set_header CLERK_DONE (received sb m n)) (unat (of_nat kn :: u32)) SEND_BUF_SIZE =
      (if 16 + kn \<le> SEND_BUF_SIZE then Inr (rd m 16 kn) else Inl Out_of_bounds)"
proof -
  have u: "unat (of_nat kn :: u32) = kn" using kn by (simp add: unat_of_nat)
  have "rd (set_header CLERK_DONE (received sb m n)) 8 8 = rd m 8 8"
    using m by (simp add: mem_simps rd_received)
  then show "read_request (set_header CLERK_DONE (received sb m n)) 8 =
      \<lparr>op = op_code p, key_size = of_nat kn, val_size = w\<rparr>"
    using m kn u by (intro read_request_bytes) simp_all
  show "read_key (set_header CLERK_DONE (received sb m n)) (unat (of_nat kn :: u32)) SEND_BUF_SIZE =
      (if 16 + kn \<le> SEND_BUF_SIZE then Inr (rd m 16 kn) else Inl Out_of_bounds)"
    unfolding u using m by (simp add: read_key_def wire_consts mem_simps rd_received check_def)
qed

text \<open>Replies without a value.\<close>

lemma put_reply_empty:
  obtains m' where "put_reply m st [] SEND_BUF_SIZE = Inr m'" and "rd m' 8 8 = reply_bytes st 0"
    and "header m' = header m"
  using put_reply_ok [of "[]" SEND_BUF_SIZE m st] by (auto simp: SEND_BUF_SIZE_def)

text \<open>A request that carries only a key, as it reaches the clerk.\<close>

lemma key_delivered:
  assumes rw: "rdma_delivers rw" and idle: "header (local_buf l) = CLIENT_DONE"
    and ext: "ext Send_Buf = SEND_BUF_SIZE" and len: "16 + length key \<le> ext Local_Buf"
      "16 + length key \<le> SEND_BUF_SIZE" "8 + length key < 2 ^ 16"
  obtains m where "prepare_key (ext Local_Buf) (local_buf l) key p = Inr m"
    and "rd m 8 8 = request_bytes (op_code p) (of_nat (length key)) 0" and "rd m 16 (length key) = key"
    and "header m = CLIENT_DONE"
    and "deliver rw ext (key_posts m key) (l\<lparr>local_buf := m\<rparr>) =
      l\<lparr>local_buf := m, send_buf := received (send_buf l) m (8 + length key)\<rparr>"
proof -
  obtain m where prep: "prepare_key (ext Local_Buf) (local_buf l) key p = Inr m"
    and m: "rd m 8 8 = request_bytes (op_code p) (of_nat (length key)) 0" "rd m 16 (length key) = key"
      "header m = header (local_buf l)"
    using prepare_key_ok [OF len(1)] by metis
  have hm: "header m = CLIENT_DONE" using m(3) idle by simp
  have total: "unat (total_len16 (len16 key) 0) = 8 + length key"
    using total_len16_small [of key "[]"] len(3) by (simp add: len16_def)
  have "deliver rw ext (key_posts m key) (l\<lparr>local_buf := m\<rparr>) =
      l\<lparr>local_buf := m, send_buf := received (send_buf l) m (8 + length key)\<rparr>"
    using len ext by (simp add: key_posts_def post_body_def post_header_def received_def wire_consts
        rdma_deliversD [OF rw] total SEND_BUF_SIZE_def)
  with prep m(1,2) hm show thesis by (rule that)
qed

text \<open>The exchange of such a request, up to the reply the clerk chooses.\<close>

lemma key_round:
  fixes s s' :: 's and turn :: "link \<Rightarrow> 's \<Rightarrow> (outcome \<times> link \<times> 's) result"
  assumes rw: "rdma_delivers rw" and idle: "header (local_buf l) = CLIENT_DONE"
    and ext: "ext Send_Buf = SEND_BUF_SIZE" and len: "16 + length key \<le> ext Local_Buf"
      "16 + length key \<le> SEND_BUF_SIZE" "8 + length key < 2 ^ 16"
    and vl: "16 + length v \<le> ext Local_Buf" "length v < 2 ^ 32"
    and turn: "\<And>m l1. rd m 8 8 = request_bytes (op_code p) (of_nat (length key)) 0 \<Longrightarrow>
      rd m 16 (length key) = key \<Longrightarrow> header m = CLIENT_DONE \<Longrightarrow>
      send_buf l1 = received (send_buf l) m (8 + length key) \<Longrightarrow> write_buf l1 = write_buf l \<Longrightarrow>
      \<exists>sb'. turn l1 s = Inr (Replied (post_reply sb'), l1\<lparr>send_buf := sb'\<rparr>, s') \<and>
        rd sb' 8 8 = reply_bytes st (of_nat (length v)) \<and> rd sb' 16 (length v) = v \<and>
        header sb' = CLERK_DONE"
  shows "\<exists>m l'. prepare_key (ext Local_Buf) (local_buf l) key p = Inr m \<and>
    rpc_round rw ext turn (key_posts m key) (l\<lparr>local_buf := m\<rparr>) s = Inr (Some (l', s')) \<and>
    header (local_buf l') = CLIENT_DONE \<and> write_buf l' = write_buf l \<and>
    rd (local_buf l') 8 8 = reply_bytes st (of_nat (length v)) \<and> rd (local_buf l') 16 (length v) = v"
proof -
  obtain m where prep: "prepare_key (ext Local_Buf) (local_buf l) key p = Inr m"
    and m: "rd m 8 8 = request_bytes (op_code p) (of_nat (length key)) 0" "rd m 16 (length key) = key"
      "header m = CLIENT_DONE"
    and l1: "deliver rw ext (key_posts m key) (l\<lparr>local_buf := m\<rparr>) =
      l\<lparr>local_buf := m, send_buf := received (send_buf l) m (8 + length key)\<rparr>"
    using rw idle ext len by (rule key_delivered)
  define l1 where "l1 = deliver rw ext (key_posts m key) (l\<lparr>local_buf := m\<rparr>)"
  have l1_eq: "l1 = l\<lparr>local_buf := m, send_buf := received (send_buf l) m (8 + length key)\<rparr>"
    by (simp add: l1_def l1)
  obtain sb' where t: "turn l1 s = Inr (Replied (post_reply sb'), l1\<lparr>send_buf := sb'\<rparr>, s')"
    and sb': "rd sb' 8 8 = reply_bytes st (of_nat (length v))" "rd sb' 16 (length v) = v"
      "header sb' = CLERK_DONE"
    using turn [OF m, of l1] by (auto simp: l1_eq)
  obtain lb where "rpc_round rw ext turn (key_posts m key) (l\<lparr>local_buf := m\<rparr>) s =
      Inr (Some ((l1\<lparr>send_buf := sb'\<rparr>)\<lparr>local_buf := lb\<rparr>, s'))" and "header lb = CLIENT_DONE"
      "rd lb 8 8 = reply_bytes st (of_nat (length v))" "rd lb 16 (length v) = v"
    using rpc_round_reply [where ext = ext and turn = turn and posts = "key_posts m key"
        and l = "l\<lparr>local_buf := m\<rparr>" and v = v, OF rw vl t [unfolded l1_def] sb'] unfolding l1_def by metis
  with prep l1_eq show ?thesis by auto
qed

lemma plain_is_key:
  "16 \<le> cap \<Longrightarrow> prepare_key cap m [] p = Inr (prepare_plain m p)" "plain_posts m = key_posts m []"
  by (simp_all add: prepare_key_def prepare_plain_def plain_posts_def key_posts_def wire_consts
      total_len16_def len16_def)

end
