(* ===== verification/PMem_Front.thy ===== *)
theory PMem_Front
  imports Rpc
begin

text \<open>
  \<open>src/frontend/pmem\<close>: the front end that persists requests in a per-connection region of persistent
  memory. The client writes the request to the clerk's send buffer and the whole record into the
  region, which it uses as a ring; the clerk executes every request on the database at once.
\<close>

section \<open>Client\<close>

definition PMEM_BUFSIZE :: nat where "PMEM_BUFSIZE = 16 * 1024 * 1024"

record PMemClient =
  pmem_buf_head :: u64


text \<open>The extents of the buffers of a connection.\<close>

fun pmem_ext :: extents where
  "pmem_ext Local_Buf = MAX_REQUEST + RING_HEADER"
| "pmem_ext Send_Buf = SEND_BUF_SIZE"
| "pmem_ext Write_Buf = PMEM_BUFSIZE"

text \<open>The end of \<open>PMemClient::Connect\<close>: the header of the client's buffer is initialised.\<close>

definition PMemClient_Connect :: "buffer \<Rightarrow> buffer" where
  "PMemClient_Connect m = set_header CLIENT_DONE m"

definition PMemClient_SendWrite_post ::
  "PMemClient \<Rightarrow> buffer \<Rightarrow> bytes \<Rightarrow> bytes \<Rightarrow> Operation \<Rightarrow>
   (PMemClient \<times> buffer \<times> posted list) result" where
  "PMemClient_SendWrite_post c m key val p =
     (let total = total_len16 (len16 key) (len16 val);
          head = (if unat (pmem_buf_head c + ucast total) \<ge> PMEM_BUFSIZE then 0 else pmem_buf_head c)
      in and_then (prepare_write (pmem_ext Local_Buf) m key val p)
        (\<lambda>m'. Inr (c\<lparr>pmem_buf_head := head + ucast total\<rparr>, m',
            [post_body Send_Buf RING_HEADER m' (unat total),
             post_body Write_Buf (unat head) m' (unat total),
             post_header Send_Buf m'])))"

definition PMemClient_SendGet_post :: "buffer \<Rightarrow> bytes \<Rightarrow> (buffer \<times> posted list) result" where
  "PMemClient_SendGet_post m key =
     and_then (prepare_key (pmem_ext Local_Buf) m key GET)
       (\<lambda>m'. Inr (m', key_posts m' key))"

definition PMemClient_SendDelete_post :: "buffer \<Rightarrow> bytes \<Rightarrow> (buffer \<times> posted list) result" where
  "PMemClient_SendDelete_post m key =
     and_then (prepare_key (pmem_ext Local_Buf) m key DELETE)
       (\<lambda>m'. Inr (m', key_posts m' key))"

text \<open>The writes of \<open>SendClose\<close>; a two-sided send follows, which the clerk receives before it ends.\<close>

definition PMemClient_SendClose_post :: "buffer \<Rightarrow> buffer \<times> posted list" where
  "PMemClient_SendClose_post m =
     (let m' = prepare_plain m CLOSE in
      (m', plain_posts m'))"

section \<open>Clerk\<close>

text \<open>
  One turn of \<open>PMemClerk::Run\<close>: \<open>Waiting\<close> while the spin condition holds. The \<open>default\<close> branch of the
  \<open>switch\<close> exits the process.
\<close>

definition PMemClerk_Run ::
  "'d dbtype \<Rightarrow> buffer \<Rightarrow> 'd \<Rightarrow> (outcome \<times> buffer \<times> 'd) result" where
  "PMemClerk_Run vt m d =
     (if header m \<noteq> CLIENT_DONE then Inr (Waiting, m, d)
      else
       (let m1 = set_header CLERK_DONE m;
            r = read_request m1 RING_HEADER;
            kn = unat (key_size r);
            vn = unat (val_size r);
            reply = (\<lambda>st v d'. and_then (put_reply m1 st v SEND_BUF_SIZE)
                       (\<lambda>m2. Inr (Replied (post_reply m2), m2, d')));
            put = and_then (read_key m1 kn SEND_BUF_SIZE)
              (\<lambda>key. and_then (check (RING_HEADER + sizeof_Request + kn + vn \<le> SEND_BUF_SIZE)
                                Out_of_bounds)
                (\<lambda>_. and_then (db_Put vt d key (rd m1 (RING_HEADER + sizeof_Request + kn) vn))
                  (\<lambda>(ok, d'). reply (if ok then OK else ERROR) [] d')))
        in case op_of (op r) of
             Some UPDATE \<Rightarrow> put
           | Some PUT \<Rightarrow> put
           | Some GET \<Rightarrow> and_then (read_key m1 kn SEND_BUF_SIZE)
               (\<lambda>key. and_then (db_Get vt d key)
                 (\<lambda>v. case v of Some value \<Rightarrow> reply OK value d | None \<Rightarrow> reply NOTFOUND [] d))
           | Some DELETE \<Rightarrow> and_then (read_key m1 kn SEND_BUF_SIZE)
               (\<lambda>key. and_then (db_Delete vt d key)
                 (\<lambda>(ok, d'). reply (if ok then OK else NOTFOUND) [] d'))
           | Some CLOSE \<Rightarrow> Inr (Closed, m1, d)
           | _ \<Rightarrow> Inl Exit_failure))"

definition pmem_turn :: "'d dbtype \<Rightarrow> link \<Rightarrow> 'd \<Rightarrow> (outcome \<times> link \<times> 'd) result" where
  "pmem_turn vt l d = and_then (PMemClerk_Run vt (send_buf l) d)
     (\<lambda>(r, m, d'). Inr (r, l\<lparr>send_buf := m\<rparr>, d'))"

section \<open>The client's calls\<close>

text \<open>
  Each call is its posting half, the clerk's turn and the half after the spin loop; \<open>None\<close> stands for
  a client that keeps spinning.
\<close>

definition PMemClient_SendWrite ::
  "rdma_write \<Rightarrow> 'd dbtype \<Rightarrow> PMemClient \<Rightarrow> link \<Rightarrow> 'd \<Rightarrow> bytes \<Rightarrow> bytes \<Rightarrow> Operation \<Rightarrow>
   (PMemClient \<times> link \<times> 'd) option result" where
  "PMemClient_SendWrite rw vt c l d key val p =
     and_then (PMemClient_SendWrite_post c (local_buf l) key val p)
       (\<lambda>(c', m, posts). and_then (rpc_round rw pmem_ext (pmem_turn vt) posts (l\<lparr>local_buf := m\<rparr>) d)
         (\<lambda>x. Inr (map_option (\<lambda>(l', d'). (c', l', d')) x)))"

definition PMemClient_SendGet ::
  "rdma_write \<Rightarrow> 'd dbtype \<Rightarrow> link \<Rightarrow> 'd \<Rightarrow> bytes \<Rightarrow> (bytes option \<times> link \<times> 'd) option result" where
  "PMemClient_SendGet rw vt l d key =
     and_then (PMemClient_SendGet_post (local_buf l) key)
       (\<lambda>(m, posts). and_then (rpc_round rw pmem_ext (pmem_turn vt) posts (l\<lparr>local_buf := m\<rparr>) d)
         (\<lambda>x. case x of
            None \<Rightarrow> Inr None
          | Some (l', d') \<Rightarrow> and_then (get_reply (pmem_ext Local_Buf) (local_buf l'))
              (\<lambda>v. Inr (Some (v, l', d')))))"

definition PMemClient_SendDelete ::
  "rdma_write \<Rightarrow> 'd dbtype \<Rightarrow> link \<Rightarrow> 'd \<Rightarrow> bytes \<Rightarrow> (bool \<times> link \<times> 'd) option result" where
  "PMemClient_SendDelete rw vt l d key =
     and_then (PMemClient_SendDelete_post (local_buf l) key)
       (\<lambda>(m, posts). and_then (rpc_round rw pmem_ext (pmem_turn vt) posts (l\<lparr>local_buf := m\<rparr>) d)
         (\<lambda>x. Inr (map_option (\<lambda>(l', d'). (status_reply (local_buf l'), l', d')) x)))"

text \<open>A connection between two calls: the client's header holds its own mark.\<close>

definition pmem_idle :: "link \<Rightarrow> bool" where
  "pmem_idle l \<longleftrightarrow> header (local_buf l) = CLIENT_DONE"

section \<open>Correctness\<close>

lemmas pmem_clerk_defs = pmem_turn_def PMemClerk_Run_def

context kv_store
begin

lemma pmem_turn_put:
  assumes d: "inv d" and p: "p = PUT \<or> p = UPDATE"
    and m: "rd m 8 8 = request_bytes (op_code p) (of_nat kn) (of_nat vn)" "header m = CLIENT_DONE"
    and fits: "16 + kn + vn \<le> SEND_BUF_SIZE"
    and l: "send_buf l = received sb m (8 + kn + vn)"
  obtains sb' d' where
    "pmem_turn vt l d = Inr (Replied (post_reply sb'), l\<lparr>send_buf := sb'\<rparr>, d')"
    and "inv d'" and "contents d' = (contents d)(rd m 16 kn \<mapsto> rd m (16 + kn) vn)"
    and "rd sb' 8 8 = reply_bytes OK 0" and "header sb' = CLERK_DONE"
proof -
  let ?m1 = "set_header CLERK_DONE (received sb m (8 + kn + vn))"
  have small: "kn < 2 ^ 24" "vn < 2 ^ 32" using fits by (simp_all add: SEND_BUF_SIZE_def)
  note req = received_request [OF m(1) _ small(1), of "8 + kn + vn" sb]
  have v: "rd ?m1 (16 + kn) vn = rd m (16 + kn) vn"
    by (simp add: mem_simps rd_received)
  obtain d' where put: "db_Put vt d (rd m 16 kn) (rd m (16 + kn) vn) = Inr (True, d')"
    and d': "inv d'" "contents d' = (contents d)(rd m 16 kn \<mapsto> rd m (16 + kn) vn)"
    using put [OF d] by blast
  obtain sb' where reply: "put_reply ?m1 OK [] SEND_BUF_SIZE = Inr sb'"
    and sb': "rd sb' 8 8 = reply_bytes OK 0" "header sb' = header ?m1"
    by (rule put_reply_empty)
  have "pmem_turn vt l d = Inr (Replied (post_reply sb'), l\<lparr>send_buf := sb'\<rparr>, d')"
    using p req fits small put reply v m(2)
    by (auto simp: pmem_clerk_defs l header_received Let_def wire_consts unat_of_nat)
  with d' sb' show thesis using that by simp
qed

lemma pmem_turn_get:
  assumes d: "inv d" and m: "rd m 8 8 = request_bytes (op_code GET) (of_nat kn) 0"
      "header m = CLIENT_DONE"
    and fits: "16 + kn \<le> SEND_BUF_SIZE" and l: "send_buf l = received sb m (8 + kn)"
    and v: "contents d (rd m 16 kn) = Some v" "16 + length v \<le> SEND_BUF_SIZE"
  obtains sb' where
    "pmem_turn vt l d = Inr (Replied (post_reply sb'), l\<lparr>send_buf := sb'\<rparr>, d)"
    and "rd sb' 8 8 = reply_bytes OK (of_nat (length v))" and "rd sb' 16 (length v) = v"
    and "header sb' = CLERK_DONE"
proof -
  let ?m1 = "set_header CLERK_DONE (received sb m (8 + kn))"
  have small: "kn < 2 ^ 24" "length v < 2 ^ 32" using fits v(2) by (simp_all add: SEND_BUF_SIZE_def)
  note req = received_request [OF m(1) _ small(1), of "8 + kn" sb]
  obtain sb' where reply: "put_reply ?m1 OK v SEND_BUF_SIZE = Inr sb'"
    and sb': "rd sb' 8 8 = reply_bytes OK (of_nat (length v))" "rd sb' 16 (length v) = v"
      "header sb' = header ?m1"
    using put_reply_ok [OF v(2) small(2), of ?m1 OK] by blast
  have "pmem_turn vt l d = Inr (Replied (post_reply sb'), l\<lparr>send_buf := sb'\<rparr>, d)"
    using req fits reply m(2) get_found [OF d v(1)]
    by (simp add: pmem_clerk_defs l header_received Let_def wire_consts del: op_code.simps)
  with sb' show thesis using that by simp
qed

text \<open>
  A write through the whole stack: the database holds the pair, the record is in the persistent
  region inside its bounds, and the connection is idle again.
\<close>

lemma pmem_send_write:
  assumes rw: "rdma_delivers rw" and d: "inv d" and p: "p = PUT \<or> p = UPDATE"
    and idle: "pmem_idle l" and fits: "length key + length val + 8 \<le> MAX_REQUEST"
    and head: "unat (pmem_buf_head c) < PMEM_BUFSIZE"
  shows "\<exists>c' l' d' pos. PMemClient_SendWrite rw vt c l d key val p = Inr (Some (c', l', d')) \<and>
    inv d' \<and> contents d' = (contents d)(key \<mapsto> val) \<and> pmem_idle l' \<and>
    unat (pmem_buf_head c') = pos + 8 + length key + length val \<and>
    unat (pmem_buf_head c') < PMEM_BUFSIZE \<and>
    (pos = unat (pmem_buf_head c) \<or> pos = 0) \<and>
    write_buf l' = wr (write_buf l) pos
      (request_bytes (op_code p) (of_nat (length key)) (of_nat (length val)) @ key @ val)"
proof -
  define kn vn where "kn = length key" and "vn = length val"
  have len: "16 + length key + length val \<le> pmem_ext Local_Buf" "8 + length key + length val < 2 ^ 16"
    using fits by (simp_all add: wire_consts)
  obtain m where prep: "prepare_write (pmem_ext Local_Buf) (local_buf l) key val p = Inr m"
    and m: "rd m 8 8 = request_bytes (op_code p) (of_nat kn) (of_nat vn)" "rd m 16 kn = key"
      "rd m (16 + kn) vn = val" "header m = header (local_buf l)"
    using prepare_write_ok [OF len] unfolding kn_def vn_def by metis
  have hm: "header m = CLIENT_DONE" using m(4) idle by (simp add: pmem_idle_def)
  define total where "total = total_len16 (len16 key) (len16 val)"
  have total: "unat total = 8 + kn + vn"
    using len(2) unfolding total_def kn_def vn_def by (rule total_len16_small)
  define head' :: u64 where
    "head' = (if unat (pmem_buf_head c + ucast total) \<ge> PMEM_BUFSIZE then 0 else pmem_buf_head c)"
  have ut: "unat (ucast total :: u64) = 8 + kn + vn"
    using total len(2) by (simp add: unsigned_ucast_eq take_bit_nat_eq_self kn_def vn_def)
  have sum: "unat (pmem_buf_head c + ucast total) = unat (pmem_buf_head c) + (8 + kn + vn)"
    using head ut len(2) by (simp add: unat_word_ariths PMEM_BUFSIZE_def kn_def vn_def)
  have head'_bound: "unat head' + (8 + kn + vn) < PMEM_BUFSIZE"
    using sum fits by (auto simp: head'_def wire_consts PMEM_BUFSIZE_def kn_def vn_def split: if_splits)
  have head'_sum: "unat (head' + ucast total) = unat head' + (8 + kn + vn)"
    using head'_bound ut by (simp add: unat_word_ariths PMEM_BUFSIZE_def)
  have body: "rd m 8 (8 + kn + vn) = request_bytes (op_code p) (of_nat kn) (of_nat vn) @ key @ val"
    using m by (simp add: request_body_split)
  define posts where "posts = [post_body Send_Buf RING_HEADER m (unat total),
      post_body Write_Buf (unat head') m (unat total), post_header Send_Buf m]"
  have post: "PMemClient_SendWrite_post c (local_buf l) key val p =
      Inr (c\<lparr>pmem_buf_head := head' + ucast total\<rparr>, m, posts)"
    using prep unfolding PMemClient_SendWrite_post_def posts_def head'_def total_def by (simp add: Let_def)
  define l1 where "l1 = deliver rw pmem_ext posts (l\<lparr>local_buf := m\<rparr>)"
  have l1: "l1 = l\<lparr>local_buf := m, send_buf := received (send_buf l) m (8 + kn + vn),
      write_buf := wr (write_buf l) (unat head') (rd m 8 (8 + kn + vn))\<rparr>"
    using fits head'_bound
    by (simp add: l1_def posts_def post_body_def post_header_def total received_def wire_consts
        rdma_deliversD [OF rw] SEND_BUF_SIZE_def kn_def vn_def)
  have s1: "send_buf l1 = received (send_buf l) m (8 + kn + vn)" by (simp add: l1)
  have sb_fits: "16 + kn + vn \<le> SEND_BUF_SIZE"
    using fits by (simp add: SEND_BUF_SIZE_def wire_consts kn_def vn_def)
  obtain sb' d' where turn: "pmem_turn vt l1 d = Inr (Replied (post_reply sb'), l1\<lparr>send_buf := sb'\<rparr>, d')"
    and d': "inv d'" "contents d' = (contents d)(key \<mapsto> val)"
    and sb': "rd sb' 8 8 = reply_bytes OK 0" "header sb' = CLERK_DONE"
    using pmem_turn_put [OF d p m(1) hm sb_fits s1] unfolding m(2,3) by blast
  obtain lb where "rpc_round rw pmem_ext (pmem_turn vt) posts (l\<lparr>local_buf := m\<rparr>) d =
      Inr (Some ((l1\<lparr>send_buf := sb'\<rparr>)\<lparr>local_buf := lb\<rparr>, d'))" and "header lb = CLIENT_DONE"
    using rpc_round_reply [OF rw, of "[]" pmem_ext "pmem_turn vt" posts "l\<lparr>local_buf := m\<rparr>" d sb'
        "l1\<lparr>send_buf := sb'\<rparr>" d' OK] turn sb' by (auto simp: l1_def wire_consts)
  then show ?thesis
    using post d' l1 head'_sum head'_bound body
    by (auto simp: PMemClient_SendWrite_def pmem_idle_def kn_def vn_def head'_def)
qed

lemma pmem_send_get:
  assumes rw: "rdma_delivers rw" and d: "inv d" and idle: "pmem_idle l"
    and fits: "length key + 8 \<le> MAX_REQUEST"
    and v: "contents d key = Some v" "length v + 8 \<le> MAX_REQUEST"
  shows "\<exists>l'. PMemClient_SendGet rw vt l d key = Inr (Some (Some v, l', d)) \<and> pmem_idle l' \<and>
    write_buf l' = write_buf l"
proof -
  have sb_fits: "16 + length key \<le> SEND_BUF_SIZE" "16 + length v \<le> SEND_BUF_SIZE"
    using fits v(2) by (simp_all add: SEND_BUF_SIZE_def wire_consts)
  have "\<exists>sb'. pmem_turn vt l1 d = Inr (Replied (post_reply sb'), l1\<lparr>send_buf := sb'\<rparr>, d) \<and>
      rd sb' 8 8 = reply_bytes OK (of_nat (length v)) \<and> rd sb' 16 (length v) = v \<and>
      header sb' = CLERK_DONE"
    if "rd m 8 8 = request_bytes (op_code GET) (of_nat (length key)) 0" "rd m 16 (length key) = key"
      "header m = CLIENT_DONE" "send_buf l1 = received (send_buf l) m (8 + length key)" for m l1
    using pmem_turn_get [OF d that(1,3) sb_fits(1) that(4) _ sb_fits(2)] v(1) that(2) by metis
  note * = key_round [where turn = "pmem_turn vt" and s = d and s' = d and p = GET and st = OK
      and ext = pmem_ext, OF rw idle [unfolded pmem_idle_def] _ _ _ _ _ _ this]
  have vl: "16 + length v \<le> pmem_ext Local_Buf" "length v < 2 ^ 32"
    using v(2) by (simp_all add: wire_consts)
  show ?thesis
    using * get_reply_OK [OF _ _ vl] vl fits sb_fits
    by (fastforce simp: PMemClient_SendGet_def PMemClient_SendGet_post_def pmem_idle_def wire_consts)
qed

lemma pmem_turn_delete:
  assumes d: "inv d" and m: "rd m 8 8 = request_bytes (op_code DELETE) (of_nat kn) 0"
      "header m = CLIENT_DONE"
    and fits: "16 + kn \<le> SEND_BUF_SIZE" and l: "send_buf l = received sb m (8 + kn)"
    and del: "db_Delete vt d (rd m 16 kn) = Inr (True, d')"
  obtains sb' where
    "pmem_turn vt l d = Inr (Replied (post_reply sb'), l\<lparr>send_buf := sb'\<rparr>, d')"
    and "rd sb' 8 8 = reply_bytes OK 0" and "header sb' = CLERK_DONE"
proof -
  let ?m1 = "set_header CLERK_DONE (received sb m (8 + kn))"
  have small: "kn < 2 ^ 24" using fits by (simp add: SEND_BUF_SIZE_def)
  note req = received_request [OF m(1) _ small, of "8 + kn" sb]
  obtain sb' where reply: "put_reply ?m1 OK [] SEND_BUF_SIZE = Inr sb'"
    and sb': "rd sb' 8 8 = reply_bytes OK 0" "header sb' = header ?m1"
    by (rule put_reply_empty)
  have "pmem_turn vt l d = Inr (Replied (post_reply sb'), l\<lparr>send_buf := sb'\<rparr>, d')"
    using req fits reply m(2) del
    by (simp add: pmem_clerk_defs l header_received Let_def wire_consts del: op_code.simps)
  with sb' show thesis using that by simp
qed

lemma pmem_send_delete:
  assumes rw: "rdma_delivers rw" and d: "inv d" and idle: "pmem_idle l"
    and fits: "length key + 8 \<le> MAX_REQUEST"
  shows "\<exists>l' d'. PMemClient_SendDelete rw vt l d key = Inr (Some (True, l', d')) \<and> pmem_idle l' \<and>
    inv d' \<and> contents d' = (contents d)(key := None)"
proof -
  have sb_fits: "16 + length key \<le> SEND_BUF_SIZE"
    using fits by (simp_all add: SEND_BUF_SIZE_def wire_consts)
  obtain d' where del: "db_Delete vt d key = Inr (True, d')"
    and d': "inv d'" "contents d' = (contents d)(key := None)"
    using delete [OF d] by blast
  have "\<exists>sb'. pmem_turn vt l1 d = Inr (Replied (post_reply sb'), l1\<lparr>send_buf := sb'\<rparr>, d') \<and>
      rd sb' 8 8 = reply_bytes OK (of_nat (length [])) \<and> rd sb' 16 (length []) = ([] :: bytes) \<and>
      header sb' = CLERK_DONE"
    if "rd m 8 8 = request_bytes (op_code DELETE) (of_nat (length key)) 0" "rd m 16 (length key) = key"
      "header m = CLIENT_DONE" "send_buf l1 = received (send_buf l) m (8 + length key)" for m l1
    using pmem_turn_delete [OF d that(1,3) sb_fits that(4), of d'] del that(2) by auto
  note * = key_round [where turn = "pmem_turn vt" and s = d and s' = d' and p = DELETE
      and st = OK and v = "[]" and ext = pmem_ext,
      OF rw idle [unfolded pmem_idle_def] _ _ _ _ _ _ this]
  show ?thesis
    using * d' status_reply_iff [where st = OK] fits sb_fits
    by (fastforce simp: PMemClient_SendDelete_def PMemClient_SendDelete_post_def pmem_idle_def wire_consts)
qed

end

section \<open>Properties\<close>

definition fresh_link :: link where
  "fresh_link = \<lparr>local_buf = PMemClient_Connect (\<lambda>_. 0), send_buf = set_header CLERK_DONE (\<lambda>_. 0), write_buf = (\<lambda>_. 0)\<rparr>"

lemma fresh_link_idle: "pmem_idle fresh_link"
  by (simp add: pmem_idle_def fresh_link_def PMemClient_Connect_def)





text \<open>
  C17. A delete removes the key from the database before the client's call returns, and
  reports success.
\<close>

theorem pmem_delete_removes:
  assumes "rdma_delivers rw" and "pmem_idle l" and "length key + 8 \<le> MAX_REQUEST"
  shows "\<exists>l'. PMemClient_SendDelete rw CuckooDB_vt l d key = Inr (Some (True, l', d(key := None))) \<and> pmem_idle l'"
  using cuckoo.pmem_send_delete [OF assms(1) TrueI assms(2,3), of d] by auto

theorem pmem_delete_removes_witness:
  "\<exists>l'. PMemClient_SendDelete checked_write CuckooDB_vt fresh_link [[1] \<mapsto> [2]] [1] = Inr (Some (True, l', CuckooDB_new))"
  using pmem_delete_removes [of checked_write fresh_link "[1]" "[[1] \<mapsto> [2]]"] fresh_link_idle
  by (auto simp: wire_consts CuckooDB_new_def)

text \<open>
  The clerk serves the six operations except \<open>ALLOC\<close>: a request with any other code ends the server process,
  and so it does for every connection.
\<close>

lemma pmem_unknown_request_exits:
  assumes "header m = CLIENT_DONE" and "op_of (op (read_request (set_header CLERK_DONE m) RING_HEADER)) \<in> {None, Some ALLOC}"
  shows "PMemClerk_Run vt m d = Inl Exit_failure"
  using assms by (auto simp: PMemClerk_Run_def Let_def)

end
