(* ===== verification/Atomic_Bitset.thy ===== *)
theory Atomic_Bitset
  imports Prelude
begin

text \<open>
  \<open>src/frontend/pmr/atomicbitset.h\<close>: the bit set from which the server hands out the chunks of the
  persistent memory region. The words of the vector are the model's state; \<open>get\<close>, \<open>set\<close> and
  \<open>clear\<close> are the atomic accesses (one \<open>load\<close>, \<open>fetch_or\<close>, \<open>fetch_and\<close> each) and \<open>blindset\<close> the
  scan that retries for ever while every bit is set. The second half lets any number of threads
  run \<open>blindset\<close> and \<open>clear\<close> interleaved at the granularity of the atomic accesses.
\<close>

section \<open>The data structure\<close>

record AtomicBitset =
  bs_size :: nat
  bs_data :: "u64 list"

definition kBitsPerBlock :: nat where "kBitsPerBlock = 64"

definition blockIndex :: "nat \<Rightarrow> nat" where "blockIndex i = i div kBitsPerBlock"

definition bitOffset :: "nat \<Rightarrow> nat" where "bitOffset i = i mod kBitsPerBlock"

definition AtomicBitset_new :: "nat \<Rightarrow> AtomicBitset" where
  "AtomicBitset_new n =
     \<lparr>bs_size = n, bs_data = replicate ((n + kBitsPerBlock - 1) div kBitsPerBlock) 0\<rparr>"

definition bs_mask :: "nat \<Rightarrow> u64" where "bs_mask i = push_bit (bitOffset i) 1"

definition bs_get :: "AtomicBitset \<Rightarrow> nat \<Rightarrow> bool result" where
  "bs_get b i = and_then (check (i < bs_size b) Assert_failed)
     (\<lambda>_. Inr (bs_data b ! blockIndex i AND bs_mask i \<noteq> 0))"

definition bs_set :: "AtomicBitset \<Rightarrow> nat \<Rightarrow> (bool \<times> AtomicBitset) result" where
  "bs_set b i = and_then (check (i < bs_size b) Assert_failed)
     (\<lambda>_. let old = bs_data b ! blockIndex i in
        Inr (old AND bs_mask i \<noteq> 0,
             b\<lparr>bs_data := (bs_data b)[blockIndex i := old OR bs_mask i]\<rparr>))"

definition bs_clear :: "AtomicBitset \<Rightarrow> nat \<Rightarrow> (bool \<times> AtomicBitset) result" where
  "bs_clear b i = and_then (check (i < bs_size b) Assert_failed)
     (\<lambda>_. let old = bs_data b ! blockIndex i in
        Inr (old AND bs_mask i \<noteq> 0,
             b\<lparr>bs_data := (bs_data b)[blockIndex i := old AND NOT (bs_mask i)]\<rparr>))"

lemma bs_set_size: "bs_set b i = Inr (x, b') \<Longrightarrow> bs_size b' = bs_size b"
  by (cases "i < bs_size b") (auto simp: bs_set_def Let_def)

text \<open>One pass of the \<open>for\<close> loop of \<open>blindset\<close> from index \<open>i\<close>; \<open>None\<close> when the pass found nothing.\<close>

function blindset_pass :: "AtomicBitset \<Rightarrow> nat \<Rightarrow> (nat \<times> AtomicBitset) option result" where
  "blindset_pass b i =
     (if i < bs_size b then
        (case bs_get b i of
           Inl e \<Rightarrow> Inl e
         | Inr True \<Rightarrow> blindset_pass b (Suc i)
         | Inr False \<Rightarrow>
             (case bs_set b i of
                Inl e \<Rightarrow> Inl e
              | Inr (False, b') \<Rightarrow> Inr (Some (i, b'))
              | Inr (True, b') \<Rightarrow> blindset_pass b' (Suc i)))
      else Inr None)"
  by pat_completeness auto
termination
  by (relation "measure (\<lambda>(b, i). bs_size b - i)") (auto dest: bs_set_size)

declare blindset_pass.simps [simp del]

partial_function (option) blindset ::
  "AtomicBitset \<Rightarrow> (nat \<times> AtomicBitset) result option" where
  "blindset b =
     (case blindset_pass b 0 of
        Inl e \<Rightarrow> Some (Inl e)
      | Inr (Some r) \<Rightarrow> Some (Inr r)
      | Inr None \<Rightarrow> blindset b)"

section \<open>The set it represents\<close>

definition bs_inv :: "AtomicBitset \<Rightarrow> bool" where
  "bs_inv b \<longleftrightarrow> length (bs_data b) = (bs_size b + kBitsPerBlock - 1) div kBitsPerBlock"

definition bs_bits :: "AtomicBitset \<Rightarrow> nat set" where
  "bs_bits b = {i. i < bs_size b \<and> bit (bs_data b ! blockIndex i) (bitOffset i)}"

lemma bitOffset_less: "bitOffset i < 64"
  by (simp add: bitOffset_def kBitsPerBlock_def)

lemma block_cong: "blockIndex i = blockIndex j \<Longrightarrow> bitOffset i = bitOffset j \<Longrightarrow> i = j"
  by (metis bitOffset_def blockIndex_def mult_div_mod_eq)

lemma blockIndex_less:
  "bs_inv b \<Longrightarrow> i < bs_size b \<Longrightarrow> blockIndex i < length (bs_data b)"
  by (simp add: bs_inv_def blockIndex_def kBitsPerBlock_def div_less_iff_less_mult)

lemma bit_mask_iff_offset: "bit (bs_mask i) n \<longleftrightarrow> n = bitOffset i"
  using bitOffset_less [of i] by (auto simp: bs_mask_def bit_simps)

lemma and_mask_nonzero: "w AND bs_mask i \<noteq> 0 \<longleftrightarrow> bit w (bitOffset i)"
proof
  assume "w AND bs_mask i \<noteq> 0"
  then obtain n where "bit (w AND bs_mask i) n" by (metis bit_word_eqI bit_0_eq bot_apply bot_bool_def)
  then show "bit w (bitOffset i)" by (auto simp: bit_and_iff bit_mask_iff_offset)
next
  assume "bit w (bitOffset i)"
  then have "bit (w AND bs_mask i) (bitOffset i)" by (simp add: bit_and_iff bit_mask_iff_offset)
  then show "w AND bs_mask i \<noteq> 0" by auto
qed

lemma bs_get_eq: "i < bs_size b \<Longrightarrow> bs_get b i = Inr (i \<in> bs_bits b)"
  by (simp add: bs_get_def and_mask_nonzero bs_bits_def)

lemma bs_set_eq:
  assumes "bs_inv b" and "i < bs_size b"
  shows "\<exists>b'. bs_set b i = Inr (i \<in> bs_bits b, b') \<and> bs_bits b' = insert i (bs_bits b) \<and>
    bs_inv b' \<and> bs_size b' = bs_size b"
proof -
  let ?b' = "b\<lparr>bs_data := (bs_data b)[blockIndex i := bs_data b ! blockIndex i OR bs_mask i]\<rparr>"
  have "bs_bits ?b' = insert i (bs_bits b)"
  proof (rule set_eqI)
    fix j
    show "j \<in> bs_bits ?b' \<longleftrightarrow> j \<in> insert i (bs_bits b)"
      using assms blockIndex_less [OF assms] block_cong [of i j] bitOffset_less [of j]
      by (cases "blockIndex i = blockIndex j")
        (auto simp: bs_bits_def nth_list_update bit_or_iff bit_mask_iff_offset)
  qed
  with assms show ?thesis
    by (auto simp: bs_set_def and_mask_nonzero bs_bits_def bs_inv_def Let_def)
qed

lemma bs_clear_eq:
  assumes "bs_inv b" and "i < bs_size b"
  shows "\<exists>b'. bs_clear b i = Inr (i \<in> bs_bits b, b') \<and> bs_bits b' = bs_bits b - {i} \<and>
    bs_inv b' \<and> bs_size b' = bs_size b"
proof -
  let ?b' = "b\<lparr>bs_data := (bs_data b)[blockIndex i := bs_data b ! blockIndex i AND NOT (bs_mask i)]\<rparr>"
  have "bs_bits ?b' = bs_bits b - {i}"
  proof (rule set_eqI)
    fix j
    show "j \<in> bs_bits ?b' \<longleftrightarrow> j \<in> bs_bits b - {i}"
      using assms blockIndex_less [OF assms] block_cong [of i j] bitOffset_less [of j]
      by (cases "blockIndex i = blockIndex j")
        (auto simp: bs_bits_def nth_list_update bit_and_iff bit_not_iff bit_mask_iff_offset)
  qed
  with assms show ?thesis
    by (auto simp: bs_clear_def and_mask_nonzero bs_bits_def bs_inv_def Let_def)
qed

lemma bs_new_inv: "bs_inv (AtomicBitset_new n)"
  by (simp add: bs_inv_def AtomicBitset_new_def)

lemma bs_new_bits: "bs_bits (AtomicBitset_new n) = {}"
proof -
  have "blockIndex i < (n + kBitsPerBlock - 1) div kBitsPerBlock" if "i < n" for i
    using blockIndex_less [OF bs_new_inv, of i n] that by (simp add: AtomicBitset_new_def)
  then show ?thesis by (auto simp: bs_bits_def AtomicBitset_new_def)
qed

lemma bs_bits_bound: "bs_bits b \<subseteq> {..<bs_size b}"
  by (auto simp: bs_bits_def)

section \<open>Allocation\<close>

lemma blindset_pass_full:
  assumes "{i..<bs_size b} \<subseteq> bs_bits b"
  shows "blindset_pass b i = Inr None"
  using assms
proof (induction b i rule: blindset_pass.induct)
  case (1 b i)
  show ?case
  proof (cases "i < bs_size b")
    case True
    with "1.prems" have get: "bs_get b i = Inr True" by (auto simp: bs_get_eq)
    from "1.prems" have "{Suc i..<bs_size b} \<subseteq> bs_bits b" by auto
    with "1.IH"(1) [OF True get] get True show ?thesis
      by (simp add: blindset_pass.simps [of b i])
  next
    case False
    then show ?thesis by (simp add: blindset_pass.simps)
  qed
qed

lemma blindset_pass_found:
  assumes "bs_inv b" and "j < bs_size b" and "i \<le> j" and "j \<notin> bs_bits b"
    and "{i..<j} \<subseteq> bs_bits b"
  shows "\<exists>b'. blindset_pass b i = Inr (Some (j, b')) \<and> bs_set b j = Inr (False, b')"
  using assms
proof (induction b i rule: blindset_pass.induct)
  case (1 b i)
  show ?case
  proof (cases "i = j")
    case True
    with "1.prems" have "bs_get b i = Inr False" by (simp add: bs_get_eq)
    with True "1.prems" bs_set_eq [of b j] show ?thesis
      by (auto simp: blindset_pass.simps [of b j])
  next
    case False
    with "1.prems" have less: "i < bs_size b" and get: "bs_get b i = Inr True"
      by (auto simp: bs_get_eq)
    have "\<exists>b'. blindset_pass b (Suc i) = Inr (Some (j, b')) \<and> bs_set b j = Inr (False, b')"
      using "1.prems" False by (intro "1.IH"(1) [OF less get]) auto
    with less get show ?thesis by (simp add: blindset_pass.simps [of b i])
  qed
qed

lemma first_clear_bit:
  assumes "bs_bits b \<noteq> {..<bs_size b}"
  obtains j where "j < bs_size b" and "j \<notin> bs_bits b" and "{0..<j} \<subseteq> bs_bits b"
proof -
  let ?P = "\<lambda>j. j < bs_size b \<and> j \<notin> bs_bits b"
  have "\<exists>j. ?P j" using assms bs_bits_bound [of b] by auto
  define m where "m = (LEAST j. ?P j)"
  from \<open>\<exists>j. ?P j\<close> have m: "?P m" unfolding m_def by (rule LeastI_ex)
  have "k \<in> bs_bits b" if k: "k < m" for k
  proof -
    from k have "\<not> ?P k" unfolding m_def by (rule not_less_Least)
    moreover from k m have "k < bs_size b" by simp
    ultimately show ?thesis by blast
  qed
  then have "{0..<m} \<subseteq> bs_bits b" by auto
  with m show thesis using that by blast
qed

lemma blindset_returns:
  assumes "bs_inv b" and "bs_bits b \<noteq> {..<bs_size b}"
  shows "\<exists>j b'. blindset b = Some (Inr (j, b')) \<and> j < bs_size b \<and> j \<notin> bs_bits b \<and>
    {..<j} \<subseteq> bs_bits b \<and> bs_bits b' = insert j (bs_bits b) \<and> bs_inv b' \<and> bs_size b' = bs_size b"
proof -
  obtain j where j: "j < bs_size b" "j \<notin> bs_bits b" "{0..<j} \<subseteq> bs_bits b"
    using assms(2) by (rule first_clear_bit)
  obtain b' where pass: "blindset_pass b 0 = Inr (Some (j, b'))" and set: "bs_set b j = Inr (False, b')"
    using blindset_pass_found [OF assms(1) j(1) _ j(2,3)] by auto
  have "blindset b = Some (Inr (j, b'))" by (simp add: blindset.simps pass)
  with j set bs_set_eq [OF assms(1) j(1)] show ?thesis
    by (auto simp: atLeast0LessThan)
qed

lemma blindset_result_pass:
  "blindset b = Some r \<Longrightarrow> blindset_pass b 0 \<noteq> Inr None"
  by (rule blindset.raw_induct [where P = "\<lambda>b r. blindset_pass b 0 \<noteq> Inr None"]) auto

lemma blindset_spins:
  assumes "bs_bits b = {..<bs_size b}"
  shows "blindset b = None"
proof (rule ccontr)
  assume "blindset b \<noteq> None"
  then obtain r where "blindset b = Some r" by auto
  then have "blindset_pass b 0 \<noteq> Inr None" by (rule blindset_result_pass)
  moreover have "blindset_pass b 0 = Inr None"
    using assms by (intro blindset_pass_full) (simp add: atLeast0LessThan)
  ultimately show False by contradiction
qed

section \<open>The interface the chunk allocator relies on\<close>

text \<open>
  The contract of the bit set towards its client, the chunk allocator of the server: an abstract
  set of taken slots below a capacity, an allocation that returns a slot that was not taken, and
  a release. The client's facts are proved once in the locale and reach the model through the
  interpretation below.
\<close>

locale slot_pool =
  fixes inv :: "'p \<Rightarrow> bool"
    and taken :: "'p \<Rightarrow> nat set"
    and capacity :: "'p \<Rightarrow> nat"
    and alloc :: "'p \<Rightarrow> (nat \<times> 'p) result option"
    and release :: "'p \<Rightarrow> nat \<Rightarrow> (bool \<times> 'p) result"
  assumes taken_bound: "inv p \<Longrightarrow> taken p \<subseteq> {..<capacity p}"
    and alloc_returns: "inv p \<Longrightarrow> taken p \<noteq> {..<capacity p} \<Longrightarrow>
      \<exists>i p'. alloc p = Some (Inr (i, p')) \<and> i < capacity p \<and> i \<notin> taken p \<and>
        taken p' = insert i (taken p) \<and> inv p' \<and> capacity p' = capacity p"
    and alloc_blocks: "inv p \<Longrightarrow> taken p = {..<capacity p} \<Longrightarrow> alloc p = None"
    and release_eq: "inv p \<Longrightarrow> i < capacity p \<Longrightarrow>
      \<exists>p'. release p i = Inr (i \<in> taken p, p') \<and> taken p' = taken p - {i} \<and> inv p' \<and>
        capacity p' = capacity p"
begin

lemma alloc_SomeD:
  assumes "inv p" and "alloc p = Some r"
  shows "\<exists>i p'. r = Inr (i, p') \<and> i < capacity p \<and> i \<notin> taken p \<and>
    taken p' = insert i (taken p) \<and> inv p' \<and> capacity p' = capacity p"
  using alloc_returns [OF assms(1)] alloc_blocks [OF assms(1)] assms(2) by fastforce

lemma alloc_fresh:
  assumes "inv p" and "alloc p = Some (Inr (i, p'))"
  shows "i < capacity p \<and> i \<notin> taken p \<and> taken p' = insert i (taken p) \<and> inv p' \<and>
    capacity p' = capacity p"
  using alloc_SomeD [OF assms] by auto

lemma alloc_release:
  assumes "inv p" and "alloc p = Some (Inr (i, p'))"
  shows "\<exists>q. release p' i = Inr (True, q) \<and> taken q = taken p \<and> inv q \<and> capacity q = capacity p"
  using alloc_fresh [OF assms] release_eq [of p' i] by fastforce

lemma release_taken:
  assumes "inv p" and "i \<in> taken p"
  shows "\<exists>q. release p i = Inr (True, q) \<and> taken q = taken p - {i} \<and> inv q \<and> capacity q = capacity p"
  using release_eq [OF assms(1), of i] taken_bound [OF assms(1)] assms(2) by fastforce

end

interpretation chunk_bits: slot_pool bs_inv bs_bits bs_size blindset bs_clear
proof unfold_locales
  fix p i
  show "bs_inv p \<Longrightarrow> bs_bits p \<subseteq> {..<bs_size p}" by (rule bs_bits_bound)
  show "bs_inv p \<Longrightarrow> bs_bits p = {..<bs_size p} \<Longrightarrow> blindset p = None" by (rule blindset_spins)
  show "bs_inv p \<Longrightarrow> bs_bits p \<noteq> {..<bs_size p} \<Longrightarrow>
      \<exists>i p'. blindset p = Some (Inr (i, p')) \<and> i < bs_size p \<and> i \<notin> bs_bits p \<and>
        bs_bits p' = insert i (bs_bits p) \<and> bs_inv p' \<and> bs_size p' = bs_size p"
    using blindset_returns [of p] by blast
  show "bs_inv p \<Longrightarrow> i < bs_size p \<Longrightarrow>
      \<exists>p'. bs_clear p i = Inr (i \<in> bs_bits p, p') \<and> bs_bits p' = bs_bits p - {i} \<and> bs_inv p' \<and>
        bs_size p' = bs_size p"
    by (rule bs_clear_eq)
qed

section \<open>Concurrent allocation\<close>

text \<open>
  A thread is idle, about to read bit \<open>i\<close> of the scan, about to \<open>fetch_or\<close> bit \<open>i\<close> after reading it
  clear, or the owner of slot \<open>i\<close>. The read is \<open>memory_order_relaxed\<close>, so it may return a stale
  value: both outcomes are possible whatever the bit holds. The read-modify-writes are atomic.
\<close>

datatype alloc_pc = Idle | Reading nat | Setting nat | Owner nat

record alloc_sys =
  as_bits :: AtomicBitset
  as_pc :: "nat \<Rightarrow> alloc_pc"

inductive alloc_step :: "alloc_sys \<Rightarrow> alloc_sys \<Rightarrow> bool" where
  call: "as_pc s t = Idle \<Longrightarrow> alloc_step s (s\<lparr>as_pc := (as_pc s)(t := Reading 0)\<rparr>)"
| retry: "as_pc s t = Reading i \<Longrightarrow> \<not> i < bs_size (as_bits s) \<Longrightarrow>
    alloc_step s (s\<lparr>as_pc := (as_pc s)(t := Reading 0)\<rparr>)"
| read_set: "as_pc s t = Reading i \<Longrightarrow> i < bs_size (as_bits s) \<Longrightarrow>
    alloc_step s (s\<lparr>as_pc := (as_pc s)(t := Reading (Suc i))\<rparr>)"
| read_clear: "as_pc s t = Reading i \<Longrightarrow> i < bs_size (as_bits s) \<Longrightarrow>
    alloc_step s (s\<lparr>as_pc := (as_pc s)(t := Setting i)\<rparr>)"
| lost: "as_pc s t = Setting i \<Longrightarrow> bs_set (as_bits s) i = Inr (True, b) \<Longrightarrow>
    alloc_step s (s\<lparr>as_bits := b, as_pc := (as_pc s)(t := Reading (Suc i))\<rparr>)"
| won: "as_pc s t = Setting i \<Longrightarrow> bs_set (as_bits s) i = Inr (False, b) \<Longrightarrow>
    alloc_step s (s\<lparr>as_bits := b, as_pc := (as_pc s)(t := Owner i)\<rparr>)"
| free: "as_pc s t = Owner i \<Longrightarrow> bs_clear (as_bits s) i = Inr (x, b) \<Longrightarrow>
    alloc_step s (s\<lparr>as_bits := b, as_pc := (as_pc s)(t := Idle)\<rparr>)"

inductive alloc_reach :: "nat \<Rightarrow> alloc_sys \<Rightarrow> bool" for n where
  init: "alloc_reach n \<lparr>as_bits = AtomicBitset_new n, as_pc = (\<lambda>_. Idle)\<rparr>"
| step: "alloc_reach n s \<Longrightarrow> alloc_step s s' \<Longrightarrow> alloc_reach n s'"

text \<open>
  The set bits are exactly the owned slots, a slot has one owner, and a thread about to set a bit
  is inside the set's bounds (so no assertion can fail).
\<close>

definition alloc_inv :: "nat \<Rightarrow> alloc_sys \<Rightarrow> bool" where
  "alloc_inv n s \<longleftrightarrow> bs_inv (as_bits s) \<and> bs_size (as_bits s) = n \<and>
     (\<forall>i. i \<in> bs_bits (as_bits s) \<longleftrightarrow> (\<exists>t. as_pc s t = Owner i)) \<and>
     (\<forall>t u i. as_pc s t = Owner i \<longrightarrow> as_pc s u = Owner i \<longrightarrow> t = u) \<and>
     (\<forall>t i. as_pc s t = Setting i \<longrightarrow> i < n)"

lemma alloc_invD:
  assumes "alloc_inv n s"
  shows "bs_inv (as_bits s)" and "bs_size (as_bits s) = n"
    and "\<And>i. i \<in> bs_bits (as_bits s) \<longleftrightarrow> (\<exists>t. as_pc s t = Owner i)"
    and "\<And>t u i. as_pc s t = Owner i \<Longrightarrow> as_pc s u = Owner i \<Longrightarrow> t = u"
    and "\<And>t i. as_pc s t = Setting i \<Longrightarrow> i < n"
  using assms by (auto simp: alloc_inv_def)

lemma ex_owner_upd:
  "(\<exists>u. (f(t := x)) u = y) \<longleftrightarrow> x = y \<or> (\<exists>u. u \<noteq> t \<and> f u = y)"
  by auto

text \<open>Steps that only move one thread between non-owning positions keep the invariant.\<close>

lemma alloc_inv_move:
  assumes "alloc_inv n s" and "\<And>i. as_pc s t \<noteq> Owner i" and "\<And>i. pc \<noteq> Owner i"
    and "\<And>i. pc = Setting i \<Longrightarrow> i < n"
  shows "alloc_inv n (s\<lparr>as_pc := (as_pc s)(t := pc)\<rparr>)"
  unfolding alloc_inv_def
proof (intro conjI allI impI)
  note I = alloc_invD [OF assms(1)]
  let ?s = "s\<lparr>as_pc := (as_pc s)(t := pc)\<rparr>"
  show "bs_inv (as_bits ?s)" "bs_size (as_bits ?s) = n" using I by simp_all
  fix i u v
  show "i \<in> bs_bits (as_bits ?s) \<longleftrightarrow> (\<exists>t. as_pc ?s t = Owner i)"
    using I(3) [of i] assms(2) [of i] assms(3) [of i] by (simp add: ex_owner_upd del: fun_upd_apply) metis
  show "as_pc ?s u = Owner i \<Longrightarrow> as_pc ?s v = Owner i \<Longrightarrow> u = v"
    using I(4) assms(3) by (auto split: if_splits)
  show "as_pc ?s u = Setting i \<Longrightarrow> i < n"
    using I(5) assms(4) by (auto split: if_splits)
qed

lemma alloc_inv_won:
  assumes inv: "alloc_inv n s" and pc: "as_pc s t = Setting i"
    and set: "bs_set (as_bits s) i = Inr (False, b)"
  shows "alloc_inv n (s\<lparr>as_bits := b, as_pc := (as_pc s)(t := Owner i)\<rparr>)"
  unfolding alloc_inv_def
proof (intro conjI allI impI)
  note I = alloc_invD [OF inv]
  let ?s = "s\<lparr>as_bits := b, as_pc := (as_pc s)(t := Owner i)\<rparr>"
  have b: "bs_inv b" "bs_size b = n" "bs_bits b = insert i (bs_bits (as_bits s))"
    and new: "i \<notin> bs_bits (as_bits s)"
    using bs_set_eq [OF I(1), of i] I(2) I(5) [OF pc] set by auto
  show "bs_inv (as_bits ?s)" "bs_size (as_bits ?s) = n" using b by simp_all
  fix j u v
  show "j \<in> bs_bits (as_bits ?s) \<longleftrightarrow> (\<exists>t. as_pc ?s t = Owner j)"
    using I(3) [of j] b(3) pc
    by (simp add: ex_owner_upd del: fun_upd_apply) (metis alloc_pc.distinct(11))
  show "as_pc ?s u = Owner j \<Longrightarrow> as_pc ?s v = Owner j \<Longrightarrow> u = v"
    using I(3) [of j] I(4) new by (auto split: if_splits)
  show "as_pc ?s u = Setting j \<Longrightarrow> j < n"
    using I(5) by (auto split: if_splits)
qed

lemma alloc_inv_free:
  assumes inv: "alloc_inv n s" and pc: "as_pc s t = Owner i"
    and clear: "bs_clear (as_bits s) i = Inr (x, b)"
  shows "alloc_inv n (s\<lparr>as_bits := b, as_pc := (as_pc s)(t := Idle)\<rparr>)"
  unfolding alloc_inv_def
proof (intro conjI allI impI)
  note I = alloc_invD [OF inv]
  let ?s = "s\<lparr>as_bits := b, as_pc := (as_pc s)(t := Idle)\<rparr>"
  have "i < n" using I(2) I(3) [of i] pc bs_bits_bound [of "as_bits s"] by auto
  then have b: "bs_inv b" "bs_size b = n" "bs_bits b = bs_bits (as_bits s) - {i}"
    using bs_clear_eq [OF I(1), of i] I(2) clear by auto
  show "bs_inv (as_bits ?s)" "bs_size (as_bits ?s) = n" using b by simp_all
  fix j u v
  show "j \<in> bs_bits (as_bits ?s) \<longleftrightarrow> (\<exists>t. as_pc ?s t = Owner j)"
    using I(3) [of j] I(4) b(3) pc
    by (simp add: ex_owner_upd del: fun_upd_apply) (metis alloc_pc.inject(3))
  show "as_pc ?s u = Owner j \<Longrightarrow> as_pc ?s v = Owner j \<Longrightarrow> u = v"
    using I(4) by (auto split: if_splits)
  show "as_pc ?s u = Setting j \<Longrightarrow> j < n"
    using I(5) by (auto split: if_splits)
qed

lemma alloc_inv_lost:
  assumes inv: "alloc_inv n s" and pc: "as_pc s t = Setting i"
    and set: "bs_set (as_bits s) i = Inr (True, b)"
  shows "alloc_inv n (s\<lparr>as_bits := b, as_pc := (as_pc s)(t := Reading (Suc i))\<rparr>)"
proof -
  note I = alloc_invD [OF inv]
  have "bs_inv b" "bs_size b = n" "bs_bits b = bs_bits (as_bits s)"
    using bs_set_eq [OF I(1), of i] I(2) I(5) [OF pc] set by auto
  with inv have "alloc_inv n (s\<lparr>as_bits := b\<rparr>)" by (simp add: alloc_inv_def)
  then have "alloc_inv n ((s\<lparr>as_bits := b\<rparr>)\<lparr>as_pc := (as_pc (s\<lparr>as_bits := b\<rparr>))(t := Reading (Suc i))\<rparr>)"
    using pc by (intro alloc_inv_move) auto
  then show ?thesis by simp
qed

lemma alloc_step_inv:
  assumes "alloc_step s s'" and "alloc_inv n s"
  shows "alloc_inv n s'"
  using assms
proof (induction rule: alloc_step.induct)
  case (won s t i b)
  then show ?case by (blast intro: alloc_inv_won)
next
  case (free s t i x b)
  then show ?case by (blast intro: alloc_inv_free)
next
  case (lost s t i b)
  then show ?case by (blast intro: alloc_inv_lost)
next
  case (call s t)
  then show ?case by (intro alloc_inv_move) auto
next
  case (retry s t i)
  then show ?case by (intro alloc_inv_move) auto
next
  case (read_set s t i)
  then show ?case by (intro alloc_inv_move) auto
next
  case (read_clear s t i)
  then show ?case by (intro alloc_inv_move) (auto simp: alloc_inv_def)
qed

lemma alloc_reach_inv: "alloc_reach n s \<Longrightarrow> alloc_inv n s"
proof (induction rule: alloc_reach.induct)
  case init
  then show ?case
    by (auto simp: alloc_inv_def bs_new_inv bs_new_bits) (simp add: AtomicBitset_new_def)
next
  case (step s s')
  then show ?case by (blast intro: alloc_step_inv)
qed

section \<open>Properties\<close>

text \<open>
  C14. Alone on the set, \<open>blindset\<close> returns exactly when some bit is clear; it then
  returns the lowest clear bit and sets that bit only. With every bit set it never returns.
\<close>

theorem blindset_lowest_or_spins:
  assumes "bs_inv b"
  shows "if bs_bits b = {..<bs_size b} then blindset b = None
    else \<exists>j b'. blindset b = Some (Inr (j, b')) \<and> j < bs_size b \<and> j \<notin> bs_bits b \<and> {..<j} \<subseteq> bs_bits b \<and>
      bs_bits b' = insert j (bs_bits b)"
  using chunk_bits.alloc_blocks [OF assms] blindset_returns [OF assms] by auto

theorem blindset_lowest_or_spins_witness:
  "\<exists>j b'. blindset (AtomicBitset_new 2) = Some (Inr (j, b')) \<and> j < 2 \<and> bs_bits b' = {j}"
proof -
  have "bs_bits (AtomicBitset_new 2) \<noteq> {..<bs_size (AtomicBitset_new 2)}"
  proof -
    have "0 \<in> {..<bs_size (AtomicBitset_new 2)}" by (simp add: AtomicBitset_new_def)
    then show ?thesis using bs_new_bits [of 2] by blast
  qed
  with blindset_lowest_or_spins [OF bs_new_inv [of 2]] bs_new_bits [of 2] show ?thesis
    by (auto simp: AtomicBitset_new_def)
qed

text \<open>
  C7. With any number of threads allocating and freeing, under any interleaving and with
  relaxed reads that may be stale, a slot never has two owners and the set bits are exactly the owned
  slots; the bounds assertion of \<open>set\<close> holds at every call.
\<close>

theorem bitset_one_owner:
  assumes "alloc_reach n s"
  shows "(\<forall>t u i. as_pc s t = Owner i \<and> as_pc s u = Owner i \<longrightarrow> t = u) \<and>
    bs_bits (as_bits s) = {i. \<exists>t. as_pc s t = Owner i} \<and>
    (\<forall>t i. as_pc s t = Setting i \<longrightarrow> (\<exists>r. bs_set (as_bits s) i = Inr r))"
proof -
  note I = alloc_invD [OF alloc_reach_inv [OF assms]]
  have "\<exists>r. bs_set (as_bits s) i = Inr r" if "as_pc s t = Setting i" for t i
    using bs_set_eq [OF I(1), of i] I(2) I(5) [OF that] by auto
  with I(3,4) show ?thesis by auto
qed

lemma one_owner_state: "\<exists>s. alloc_reach 2 s \<and> as_pc s 0 = Owner 0"
proof -
  define s0 where "s0 = \<lparr>as_bits = AtomicBitset_new 2, as_pc = (\<lambda>_. Idle)\<rparr>"
  define s1 where "s1 = s0\<lparr>as_pc := (as_pc s0)(0 := Reading 0)\<rparr>"
  define s2 where "s2 = s1\<lparr>as_pc := (as_pc s1)(0 := Setting 0)\<rparr>"
  obtain b where b: "bs_set (AtomicBitset_new 2) 0 = Inr (False, b)"
    using bs_set_eq [OF bs_new_inv, of 0 2] bs_new_bits [of 2] by (auto simp: AtomicBitset_new_def)
  have "alloc_reach 2 s0" unfolding s0_def by (rule alloc_reach.init)
  moreover have "alloc_step s0 s1" unfolding s1_def by (rule call) (simp add: s0_def)
  moreover have "alloc_step s1 s2"
    unfolding s2_def by (rule read_clear) (simp_all add: s1_def s0_def AtomicBitset_new_def)
  moreover have "alloc_step s2 (s2\<lparr>as_bits := b, as_pc := (as_pc s2)(0 := Owner 0)\<rparr>)"
    by (rule won) (use b in \<open>simp_all add: s2_def s1_def s0_def\<close>)
  ultimately have "alloc_reach 2 (s2\<lparr>as_bits := b, as_pc := (as_pc s2)(0 := Owner 0)\<rparr>)"
    by (blast intro: alloc_reach.step)
  then show ?thesis by (intro exI [of _ "s2\<lparr>as_bits := b, as_pc := (as_pc s2)(0 := Owner 0)\<rparr>"]) simp
qed

theorem bitset_one_owner_witness:
  "\<exists>s. alloc_reach 2 s \<and> as_pc s 0 = Owner 0 \<and> 0 \<in> bs_bits (as_bits s)"
  using one_owner_state bitset_one_owner by blast

end
