(* ===== verification/PMR_Front.thy ===== *)
theory PMR_Front
  imports Rpc Atomic_Bitset
begin

text \<open>
  \<open>src/frontend/pmr\<close>: the front end that gathers writes in a shared device buffer. The buffer is cut
  into chunks; every client owns one chunk at a time and appends its records to it with RDMA writes.
  The clerk keeps, for the records of the current chunk, their keys and descriptors, and publishes
  them in the server's hash map, where any clerk finds them. When a chunk is full the client asks for
  another one (\<open>ALLOC\<close>): the clerk moves the batch to the database, removes its keys from the hash map
  and queues a copy of the chunk for the log writer, which frees the chunk once the copy is on disk.
\<close>

section \<open>State\<close>

definition MAX_DMABUF_SIZE :: nat where "MAX_DMABUF_SIZE = 8 * 1024 * 1024"

definition UINT32_MAX :: u32 where "UINT32_MAX = 0xffffffff"

record PMRClient =
  chunk_offset :: u32
  buf_head :: u32

definition PMRClient_new :: PMRClient where
  "PMRClient_new = \<lparr>chunk_offset = UINT32_MAX, buf_head = UINT32_MAX\<rparr>"

record PMRClerk =
  clk_chunk_offset :: u32
  clk_buf_head :: u32
  key_batch :: "bytes list"
  metas :: "Meta list"

definition PMRClerk_new :: PMRClerk where
  "PMRClerk_new = \<lparr>clk_chunk_offset = UINT32_MAX, clk_buf_head = UINT32_MAX, key_batch = [], metas = []\<rparr>"

text \<open>The constructor also marks the clerk's send buffer as answered.\<close>

definition PMRClerk_init_buf :: "buffer \<Rightarrow> buffer" where
  "PMRClerk_init_buf m = set_header CLERK_DONE m"

text \<open>An entry of \<open>global_queue\<close>: the copied chunk, the number of valid bytes and the chunk index.\<close>

type_synonym queue_item = "buffer \<times> u32 \<times> nat"

record 'd PMRServer =
  srv_db :: 'd
  srv_map :: "(bytes, Meta) cuckoohash_map"
  srv_bitmap :: AtomicBitset
  global_queue :: "queue_item list"

definition PMRServer_new :: "'d \<Rightarrow> 'd PMRServer" where
  "PMRServer_new d = \<lparr>srv_db = d, srv_map = (\<lambda>_. None),
     srv_bitmap = AtomicBitset_new (MAX_DMABUF_SIZE div MAX_ASYNC_SIZE), global_queue = []\<rparr>"

fun pmr_ext :: extents where
  "pmr_ext Local_Buf = MAX_REQUEST"
| "pmr_ext Send_Buf = SEND_BUF_SIZE"
| "pmr_ext Write_Buf = MAX_DMABUF_SIZE"

section \<open>Server\<close>

text \<open>\<open>None\<close> stands for a call that spins because every chunk is taken.\<close>

definition AllocChunk :: "'d PMRServer \<Rightarrow> (nat \<times> 'd PMRServer) result option" where
  "AllocChunk s = map_option (\<lambda>r. and_then r (\<lambda>(slot, b). Inr (slot, s\<lparr>srv_bitmap := b\<rparr>)))
     (blindset (srv_bitmap s))"

definition FreeChunk :: "'d PMRServer \<Rightarrow> nat \<Rightarrow> 'd PMRServer result" where
  "FreeChunk s chunkid =
     and_then (check (chunkid < MAX_DMABUF_SIZE div MAX_ASYNC_SIZE) Assert_failed)
       (\<lambda>_. and_then (bs_get (srv_bitmap s) chunkid)
         (\<lambda>b. and_then (check b Assert_failed)
           (\<lambda>_. and_then (bs_clear (srv_bitmap s) chunkid)
             (\<lambda>(_, bm). Inr (s\<lparr>srv_bitmap := bm\<rparr>)))))"

text \<open>The loop of \<open>PeekUsage\<close>; the function returns its result divided by \<open>MAX_DMABUF_SIZE\<close>.\<close>

fun PeekUsage_loop :: "AtomicBitset \<Rightarrow> nat list \<Rightarrow> u32 \<Rightarrow> u32 result" where
  "PeekUsage_loop b [] usage = Inr usage"
| "PeekUsage_loop b (i # is) usage =
     and_then (bs_get b i)
       (\<lambda>x. PeekUsage_loop b is (usage + of_nat MAX_ASYNC_SIZE * (if x then 1 else 0)))"

definition PeekUsage :: "'d PMRServer \<Rightarrow> u32 result" where
  "PeekUsage s = PeekUsage_loop (srv_bitmap s) [0..<MAX_DMABUF_SIZE div MAX_ASYNC_SIZE] 0"

section \<open>Clerk\<close>

text \<open>
  The branches of the \<open>switch\<close> in \<open>PMRClerk::Run\<close>. Each gets the message buffer \<open>m\<close> after the header
  was marked, the device buffer \<open>wb\<close>, the clerk and the server; it returns the message buffer with
  the reply in it. A read of the device buffer outside its extent is a fault.
\<close>

definition PMRClerk_put ::
  "buffer \<Rightarrow> PMRClerk \<Rightarrow> 'd PMRServer \<Rightarrow> (buffer \<times> PMRClerk \<times> 'd PMRServer) result" where
  "PMRClerk_put m clk s =
     (let r = read_request m RING_HEADER in
      and_then (read_key m (unat (key_size r)) SEND_BUF_SIZE)
        (\<lambda>key.
          let idx = Meta_file 0 (clk_buf_head clk + of_nat sizeof_Request) (key_size r) (val_size r);
              mem_idx = Meta_mem (unat (clk_chunk_offset clk) + unat (clk_buf_head clk) + sizeof_Request)
                          (key_size r) (val_size r);
              clk' = clk\<lparr>key_batch := key_batch clk @ [key], metas := metas clk @ [idx],
                        clk_buf_head := clk_buf_head clk + Request_Length r\<rparr>;
              s' = s\<lparr>srv_map := cuckoo_insert_or_assign key mem_idx (srv_map s)\<rparr>
          in and_then (put_reply m OK [] SEND_BUF_SIZE) (\<lambda>m'. Inr (m', clk', s'))))"

definition PMRClerk_get ::
  "'d dbtype \<Rightarrow> buffer \<Rightarrow> buffer \<Rightarrow> 'd PMRServer \<Rightarrow> buffer result" where
  "PMRClerk_get vt m wb s =
     (let kn = unat (key_size (read_request m RING_HEADER)) in
      and_then (read_key m kn SEND_BUF_SIZE)
        (\<lambda>key. case cuckoo_find_value (srv_map s) key of
           Some mem_idx \<Rightarrow>
             (let a = memaddr (m_addr mem_idx) + kn; n = unat (m_value_size mem_idx) in
              and_then (check (a + n \<le> MAX_DMABUF_SIZE) Out_of_bounds)
                (\<lambda>_. put_reply m OK (rd wb a n) SEND_BUF_SIZE))
         | None \<Rightarrow> and_then (db_Get vt (srv_db s) key)
             (\<lambda>v. case v of Some value \<Rightarrow> put_reply m OK value SEND_BUF_SIZE
                  | None \<Rightarrow> put_reply m NOTFOUND [] SEND_BUF_SIZE)))"

definition PMRClerk_delete ::
  "'d dbtype \<Rightarrow> buffer \<Rightarrow> 'd PMRServer \<Rightarrow> (buffer \<times> 'd PMRServer) result" where
  "PMRClerk_delete vt m s =
     and_then (read_key m (unat (key_size (read_request m RING_HEADER))) SEND_BUF_SIZE)
       (\<lambda>key. and_then (db_Delete vt (srv_db s) key)
         (\<lambda>(ok, d'). and_then (put_reply m (if ok then OK else NOTFOUND) [] SEND_BUF_SIZE)
           (\<lambda>m'. Inr (m', s\<lparr>srv_db := d'\<rparr>))))"

text \<open>
  The flush that \<open>ALLOC\<close> and \<open>CLOSE\<close> share up to the last argument of \<open>PutBatch\<close>: copy the chunk
  (\<open>COPY2DRAM\<close>), move the batch to the database, erase its keys and queue the copy.
\<close>

definition copy_chunk :: "buffer \<Rightarrow> nat \<Rightarrow> buffer" where
  "copy_chunk wb off = wr (\<lambda>_. 0) 0 (rd wb off MAX_ASYNC_SIZE)"

definition erase_keys :: "bytes list \<Rightarrow> (bytes, Meta) cuckoohash_map \<Rightarrow> (bytes, Meta) cuckoohash_map" where
  "erase_keys ks h = fold (\<lambda>k h. snd (cuckoo_erase k h)) ks h"

definition flush_batch ::
  "'d dbtype \<Rightarrow> buffer \<Rightarrow> PMRClerk \<Rightarrow> u32 \<Rightarrow> 'd PMRServer \<Rightarrow> 'd PMRServer result" where
  "flush_batch vt wb clk len s =
     (let off = unat (clk_chunk_offset clk); tmp_buf = copy_chunk wb off in
      and_then (check (off + MAX_ASYNC_SIZE \<le> MAX_DMABUF_SIZE) Out_of_bounds)
        (\<lambda>_. and_then (db_PutBatch vt (srv_db s) (key_batch clk) (metas clk) tmp_buf MAX_ASYNC_SIZE len)
          (\<lambda>(_, d'). Inr (s\<lparr>srv_db := d', srv_map := erase_keys (key_batch clk) (srv_map s),
             global_queue := global_queue s @ [(tmp_buf, clk_buf_head clk, off div MAX_ASYNC_SIZE)]\<rparr>))))"

text \<open>\<open>None\<close>: the clerk spins in \<open>AllocChunk\<close>; its flush has taken effect by then.\<close>

definition PMRClerk_alloc ::
  "'d dbtype \<Rightarrow> buffer \<Rightarrow> buffer \<Rightarrow> PMRClerk \<Rightarrow> 'd PMRServer \<Rightarrow>
   ((buffer \<times> PMRClerk \<times> 'd PMRServer) option \<times> PMRClerk \<times> 'd PMRServer) result" where
  "PMRClerk_alloc vt m wb clk s =
     and_then (if clk_chunk_offset clk < UINT32_MAX
               then and_then (flush_batch vt wb clk (clk_buf_head clk) s)
                      (\<lambda>s1. Inr (clk\<lparr>key_batch := [], metas := []\<rparr>, s1))
               else Inr (clk, s))
       (\<lambda>(clk1, s1). case AllocChunk s1 of
          None \<Rightarrow> Inr (None, clk1, s1)
        | Some r \<Rightarrow> and_then r
            (\<lambda>(slot, s2).
              let off = of_nat (MAX_ASYNC_SIZE * slot) :: u32 in
              and_then (put_reply m OK (le32 off) SEND_BUF_SIZE)
                (\<lambda>m'. Inr (Some (m', clk1\<lparr>clk_chunk_offset := off, clk_buf_head := 0\<rparr>, s2), clk1, s1))))"

definition PMRClerk_close ::
  "'d dbtype \<Rightarrow> buffer \<Rightarrow> PMRClerk \<Rightarrow> 'd PMRServer \<Rightarrow> 'd PMRServer result" where
  "PMRClerk_close vt wb clk s =
     (if 0 < clk_buf_head clk then flush_batch vt wb clk (of_nat MAX_ASYNC_SIZE) s else Inr s)"

text \<open>One turn of the loop of \<open>PMRClerk::Run\<close>.\<close>

definition PMRClerk_Run ::
  "'d dbtype \<Rightarrow> buffer \<Rightarrow> buffer \<Rightarrow> PMRClerk \<Rightarrow> 'd PMRServer \<Rightarrow>
   (outcome \<times> buffer \<times> PMRClerk \<times> 'd PMRServer) result" where
  "PMRClerk_Run vt sb wb clk s =
     (if header sb \<noteq> CLIENT_DONE then Inr (Waiting, sb, clk, s)
      else
       (let m = set_header CLERK_DONE sb in
        case op_of (op (read_request m RING_HEADER)) of
          Some UPDATE \<Rightarrow> and_then (PMRClerk_put m clk s)
            (\<lambda>(m', clk', s'). Inr (Replied (post_reply m'), m', clk', s'))
        | Some PUT \<Rightarrow> and_then (PMRClerk_put m clk s)
            (\<lambda>(m', clk', s'). Inr (Replied (post_reply m'), m', clk', s'))
        | Some GET \<Rightarrow> and_then (PMRClerk_get vt m wb s)
            (\<lambda>m'. Inr (Replied (post_reply m'), m', clk, s))
        | Some DELETE \<Rightarrow> and_then (PMRClerk_delete vt m s)
            (\<lambda>(m', s'). Inr (Replied (post_reply m'), m', clk, s'))
        | Some ALLOC \<Rightarrow> and_then (PMRClerk_alloc vt m wb clk s)
            (\<lambda>(r, clk1, s1). case r of
               None \<Rightarrow> Inr (Spinning, m, clk1, s1)
             | Some (m', clk', s') \<Rightarrow> Inr (Replied (post_reply m'), m', clk', s'))
        | Some CLOSE \<Rightarrow> and_then (PMRClerk_close vt wb clk s) (\<lambda>s'. Inr (Closed, m, clk, s'))
        | None \<Rightarrow> Inl Exit_failure))"

definition pmr_turn ::
  "'d dbtype \<Rightarrow> link \<Rightarrow> PMRClerk \<times> 'd PMRServer \<Rightarrow>
   (outcome \<times> link \<times> PMRClerk \<times> 'd PMRServer) result" where
  "pmr_turn vt l = (\<lambda>(clk, s). and_then (PMRClerk_Run vt (send_buf l) (write_buf l) clk s)
     (\<lambda>(r, m, clk', s'). Inr (r, l\<lparr>send_buf := m\<rparr>, clk', s')))"

section \<open>Client\<close>

type_synonym 'd pmr_state = "link \<times> PMRClerk \<times> 'd PMRServer"

definition pmr_round ::
  "rdma_write \<Rightarrow> 'd dbtype \<Rightarrow> posted list \<Rightarrow> 'd pmr_state \<Rightarrow> 'd pmr_state option result" where
  "pmr_round rw vt posts = (\<lambda>(l, x). rpc_round rw pmr_ext (pmr_turn vt) posts l x)"

definition PMRClient_SendAlloc ::
  "rdma_write \<Rightarrow> 'd dbtype \<Rightarrow> PMRClient \<Rightarrow> 'd pmr_state \<Rightarrow> (PMRClient \<times> 'd pmr_state) option result" where
  "PMRClient_SendAlloc rw vt c = (\<lambda>(l, x).
     let m = prepare_plain (local_buf l) ALLOC in
     and_then (pmr_round rw vt (plain_posts m) (l\<lparr>local_buf := m\<rparr>, x))
       (\<lambda>y. Inr (map_option (\<lambda>(l', x').
          (if reply_status (local_buf l') RING_HEADER = status_code OK
           then c\<lparr>chunk_offset := un_le32 (rd (local_buf l') (RING_HEADER + sizeof_RequestReply) 4),
                  buf_head := 0\<rparr>
           else c, l', x')) y)))"

text \<open>\<open>PMRClient::Connect\<close> after the queue pairs are connected.\<close>

definition PMRClient_Connect ::
  "rdma_write \<Rightarrow> 'd dbtype \<Rightarrow> PMRClient \<Rightarrow> 'd pmr_state \<Rightarrow> (PMRClient \<times> 'd pmr_state) option result" where
  "PMRClient_Connect rw vt c = (\<lambda>(l, x).
     PMRClient_SendAlloc rw vt c (l\<lparr>local_buf := set_header CLIENT_DONE (local_buf l)\<rparr>, x))"

definition PMRClient_SendWrite_post ::
  "PMRClient \<Rightarrow> buffer \<Rightarrow> bytes \<Rightarrow> bytes \<Rightarrow> Operation \<Rightarrow>
   (PMRClient \<times> buffer \<times> posted list) result" where
  "PMRClient_SendWrite_post c m key val p =
     (let total = total_len16 (len16 key) (len16 val) in
      and_then (prepare_write (pmr_ext Local_Buf) m key val p)
        (\<lambda>m'. Inr (c\<lparr>buf_head := buf_head c + ucast total\<rparr>, m',
            [post_body Send_Buf RING_HEADER m' (unat (total_len16 (len16 key) 0)),
             post_body Write_Buf (unat (chunk_offset c + buf_head c)) m' (unat total),
             post_header Send_Buf m'])))"

text \<open>The second half of \<open>SendWrite\<close>, with the chunk that is current when it starts.\<close>

definition PMRClient_write_record ::
  "rdma_write \<Rightarrow> 'd dbtype \<Rightarrow> bytes \<Rightarrow> bytes \<Rightarrow> Operation \<Rightarrow> PMRClient \<Rightarrow> 'd pmr_state \<Rightarrow>
   (PMRClient \<times> 'd pmr_state) option result" where
  "PMRClient_write_record rw vt key val p c = (\<lambda>(l, x).
     and_then (PMRClient_SendWrite_post c (local_buf l) key val p)
       (\<lambda>(c', m, posts). and_then (pmr_round rw vt posts (l\<lparr>local_buf := m\<rparr>, x))
         (\<lambda>y. Inr (map_option (\<lambda>st. (c', st)) y))))"

definition PMRClient_SendWrite ::
  "rdma_write \<Rightarrow> 'd dbtype \<Rightarrow> PMRClient \<Rightarrow> 'd pmr_state \<Rightarrow> bytes \<Rightarrow> bytes \<Rightarrow> Operation \<Rightarrow>
   (PMRClient \<times> 'd pmr_state) option result" where
  "PMRClient_SendWrite rw vt c st key val p =
     (if MAX_ASYNC_SIZE \<le> unat (buf_head c + ucast (total_len16 (len16 key) (len16 val)))
      then and_then (PMRClient_SendAlloc rw vt c st)
        (\<lambda>y. case y of None \<Rightarrow> Inr None
             | Some (c', st') \<Rightarrow> PMRClient_write_record rw vt key val p c' st')
      else PMRClient_write_record rw vt key val p c st)"

definition PMRClient_SendGet ::
  "rdma_write \<Rightarrow> 'd dbtype \<Rightarrow> 'd pmr_state \<Rightarrow> bytes \<Rightarrow> (bytes option \<times> 'd pmr_state) option result" where
  "PMRClient_SendGet rw vt = (\<lambda>(l, x) key.
     and_then (prepare_key (pmr_ext Local_Buf) (local_buf l) key GET)
       (\<lambda>m. and_then (pmr_round rw vt (key_posts m key) (l\<lparr>local_buf := m\<rparr>, x))
         (\<lambda>y. case y of
            None \<Rightarrow> Inr None
          | Some (l', x') \<Rightarrow> and_then (get_reply (pmr_ext Local_Buf) (local_buf l'))
              (\<lambda>v. Inr (Some (v, l', x'))))))"

definition PMRClient_SendDelete ::
  "rdma_write \<Rightarrow> 'd dbtype \<Rightarrow> 'd pmr_state \<Rightarrow> bytes \<Rightarrow> (bool \<times> 'd pmr_state) option result" where
  "PMRClient_SendDelete rw vt = (\<lambda>(l, x) key.
     and_then (prepare_key (pmr_ext Local_Buf) (local_buf l) key DELETE)
       (\<lambda>m. and_then (pmr_round rw vt (key_posts m key) (l\<lparr>local_buf := m\<rparr>, x))
         (\<lambda>y. Inr (map_option (\<lambda>(l', x'). (status_reply (local_buf l'), l', x')) y))))"

text \<open>
  The writes of \<open>SendClose\<close> and the clerk's last turn. The client does not wait for a reply; the
  two-sided send that follows is received by the clerk before it ends.
\<close>

definition PMRClient_SendClose ::
  "rdma_write \<Rightarrow> 'd dbtype \<Rightarrow> 'd pmr_state \<Rightarrow> (outcome \<times> 'd pmr_state) result" where
  "PMRClient_SendClose rw vt = (\<lambda>(l, x).
     let m = prepare_plain (local_buf l) CLOSE in
     pmr_turn vt (deliver rw pmr_ext (plain_posts m) (l\<lparr>local_buf := m\<rparr>)) x)"

end
