(* ===== verification/PMR_Calls.thy ===== *)
theory PMR_Calls
  imports PMR_Front
begin

text \<open>
  What the client calls of the device-buffer front end do, from the posted writes to the reply: the
  effect of each call on the client, the clerk, the server and the device buffer.
\<close>

section \<open>The clerk's turn\<close>

definition push_record :: "PMRClerk \<Rightarrow> bytes \<Rightarrow> nat \<Rightarrow> PMRClerk" where
  "push_record clk key vn = clk\<lparr>key_batch := key_batch clk @ [key],
     metas := metas clk @ [Meta_file 0 (clk_buf_head clk + 8) (of_nat (length key)) (of_nat vn)],
     clk_buf_head := clk_buf_head clk + of_nat (8 + length key + vn)\<rparr>"

definition mem_record :: "PMRClerk \<Rightarrow> bytes \<Rightarrow> nat \<Rightarrow> Meta" where
  "mem_record clk key vn = Meta_mem (unat (clk_chunk_offset clk) + unat (clk_buf_head clk) + 8)
     (of_nat (length key)) (of_nat vn)"

definition publish :: "PMRClerk \<Rightarrow> bytes \<Rightarrow> nat \<Rightarrow> 'd PMRServer \<Rightarrow> 'd PMRServer" where
  "publish clk key vn s = s\<lparr>srv_map := (srv_map s)(key \<mapsto> mem_record clk key vn)\<rparr>"

lemma pmr_turn_put:
  assumes p: "p = PUT \<or> p = UPDATE"
    and m: "rd m 8 8 = request_bytes (op_code p) (of_nat kn) (of_nat vn)" "header m = CLIENT_DONE"
    and fits: "16 + kn \<le> SEND_BUF_SIZE" and l: "send_buf l = received sb m (8 + kn)"
    and key: "rd m 16 kn = key"
  shows "\<exists>sb'. pmr_turn vt l (clk, s) = Inr (Replied (post_reply sb'), l\<lparr>send_buf := sb'\<rparr>,
      push_record clk key vn, publish clk key vn s) \<and>
    rd sb' 8 8 = reply_bytes OK 0 \<and> header sb' = CLERK_DONE"
proof -
  let ?m1 = "set_header CLERK_DONE (received sb m (8 + kn))"
  have small: "kn < 2 ^ 24" using fits by (simp add: SEND_BUF_SIZE_def)
  note req = received_request [OF m(1) _ small, of "8 + kn" sb]
  have kl: "length key = kn" using key by auto
  obtain sb' where reply: "put_reply ?m1 OK [] SEND_BUF_SIZE = Inr sb'"
    and sb': "rd sb' 8 8 = reply_bytes OK 0" "header sb' = header ?m1"
    by (rule put_reply_empty)
  have "pmr_turn vt l (clk, s) = Inr (Replied (post_reply sb'), l\<lparr>send_buf := sb'\<rparr>,
      push_record clk key vn, publish clk key vn s)"
    using p req fits reply m(2) key kl
    by (auto simp: pmr_turn_def PMRClerk_Run_def PMRClerk_put_def l header_received Let_def wire_consts
        push_record_def publish_def mem_record_def Request_Length_def cuckoo_insert_or_assign_def
        algebra_simps simp del: op_code.simps)
  with sb' show ?thesis by (intro exI [of _ sb']) simp
qed

lemma pmr_write_record:
  assumes rw: "rdma_delivers rw" and p: "p = PUT \<or> p = UPDATE"
    and idle: "header (local_buf l) = CLIENT_DONE"
    and fits: "length key + length val + 16 \<le> MAX_REQUEST"
    and room: "unat (chunk_offset c) + unat (buf_head c) + (8 + length key + length val) \<le> MAX_DMABUF_SIZE"
  shows "\<exists>l'. PMRClient_write_record rw vt key val p c (l, clk, s) =
      Inr (Some (c\<lparr>buf_head := buf_head c + of_nat (8 + length key + length val)\<rparr>, l',
        push_record clk key (length val), publish clk key (length val) s)) \<and>
    header (local_buf l') = CLIENT_DONE \<and>
    write_buf l' = wr (write_buf l) (unat (chunk_offset c) + unat (buf_head c))
      (request_bytes (op_code p) (of_nat (length key)) (of_nat (length val)) @ key @ val)"
proof -
  define kn vn where "kn = length key" and "vn = length val"
  have len: "16 + length key + length val \<le> pmr_ext Local_Buf" "8 + length key + length val < 2 ^ 16"
    using fits by (simp_all add: wire_consts)
  obtain m where prep: "prepare_write (pmr_ext Local_Buf) (local_buf l) key val p = Inr m"
    and m: "rd m 8 8 = request_bytes (op_code p) (of_nat kn) (of_nat vn)" "rd m 16 kn = key"
      "rd m (16 + kn) vn = val" "header m = header (local_buf l)"
    using prepare_write_ok [OF len] unfolding kn_def vn_def by metis
  have hm: "header m = CLIENT_DONE" using m(4) idle by simp
  define total where "total = total_len16 (len16 key) (len16 val)"
  have total: "unat total = 8 + kn + vn"
    using len(2) unfolding total_def kn_def vn_def by (rule total_len16_small)
  have meta: "unat (total_len16 (len16 key) 0) = 8 + kn"
    using total_len16_small [of key "[]"] len(2) by (simp add: kn_def len16_def)
  have uc: "(ucast total :: u32) = of_nat (8 + kn + vn)" using total by (metis of_nat_unat)
  define off where "off = unat (chunk_offset c) + unat (buf_head c)"
  have off: "unat (chunk_offset c + buf_head c) = off"
    using room by (simp add: unat_word_ariths MAX_DMABUF_SIZE_def off_def)
  have body: "rd m 8 (8 + kn + vn) = request_bytes (op_code p) (of_nat kn) (of_nat vn) @ key @ val"
    using m by (simp add: request_body_split)
  define posts where "posts = [post_body Send_Buf RING_HEADER m (8 + kn),
      post_body Write_Buf off m (8 + kn + vn), post_header Send_Buf m]"
  have post: "PMRClient_SendWrite_post c (local_buf l) key val p =
      Inr (c\<lparr>buf_head := buf_head c + of_nat (8 + kn + vn)\<rparr>, m, posts)"
    using prep off meta total uc
    unfolding PMRClient_SendWrite_post_def posts_def total_def by (simp add: Let_def)
  define l1 where "l1 = deliver rw pmr_ext posts (l\<lparr>local_buf := m\<rparr>)"
  have l1: "l1 = l\<lparr>local_buf := m, send_buf := received (send_buf l) m (8 + kn),
      write_buf := wr (write_buf l) off (rd m 8 (8 + kn + vn))\<rparr>"
    using fits room
    by (simp add: l1_def posts_def post_body_def post_header_def received_def wire_consts off_def
        rdma_deliversD [OF rw] SEND_BUF_SIZE_def kn_def vn_def)
  have s1: "send_buf l1 = received (send_buf l) m (8 + kn)" by (simp add: l1)
  have sb_fits: "16 + kn \<le> SEND_BUF_SIZE"
    using fits by (simp add: SEND_BUF_SIZE_def wire_consts kn_def)
  obtain sb' where turn: "pmr_turn vt l1 (clk, s) = Inr (Replied (post_reply sb'), l1\<lparr>send_buf := sb'\<rparr>,
      push_record clk key vn, publish clk key vn s)"
    and sb': "rd sb' 8 8 = reply_bytes OK 0" "header sb' = CLERK_DONE"
    using pmr_turn_put [OF p m(1) hm sb_fits s1 m(2)] by blast
  obtain lb where "rpc_round rw pmr_ext (pmr_turn vt) posts (l\<lparr>local_buf := m\<rparr>) (clk, s) =
      Inr (Some ((l1\<lparr>send_buf := sb'\<rparr>)\<lparr>local_buf := lb\<rparr>, push_record clk key vn, publish clk key vn s))"
    and "header lb = CLIENT_DONE"
    using rpc_round_reply [OF rw, of "[]" pmr_ext "pmr_turn vt" posts "l\<lparr>local_buf := m\<rparr>" "(clk, s)" sb'
        "l1\<lparr>send_buf := sb'\<rparr>" "(push_record clk key vn, publish clk key vn s)" OK] turn sb' by (auto simp: l1_def wire_consts)
  then show ?thesis
    using post l1 body by (auto simp: PMRClient_write_record_def pmr_round_def kn_def vn_def off_def)
qed

section \<open>Requests that carry a key\<close>

lemma pmr_key_round:
  assumes rw: "rdma_delivers rw" and idle: "header (local_buf l) = CLIENT_DONE"
    and fits: "length key + 16 \<le> MAX_REQUEST" and vl: "length v + 16 \<le> MAX_REQUEST"
    and turn: "\<And>m. rd m 8 8 = request_bytes (op_code p) (of_nat (length key)) 0 \<Longrightarrow>
      rd m 16 (length key) = key \<Longrightarrow> header m = CLIENT_DONE \<Longrightarrow>
      \<exists>sb'. PMRClerk_Run vt (received (send_buf l) m (8 + length key)) (write_buf l) clk s =
          Inr (Replied (post_reply sb'), sb', x) \<and>
        rd sb' 8 8 = reply_bytes st (of_nat (length v)) \<and> rd sb' 16 (length v) = v \<and>
        header sb' = CLERK_DONE"
  shows "\<exists>m l'. prepare_key (pmr_ext Local_Buf) (local_buf l) key p = Inr m \<and>
    pmr_round rw vt (key_posts m key) (l\<lparr>local_buf := m\<rparr>, clk, s) = Inr (Some (l', x)) \<and>
    header (local_buf l') = CLIENT_DONE \<and> write_buf l' = write_buf l \<and>
    rd (local_buf l') 8 8 = reply_bytes st (of_nat (length v)) \<and> rd (local_buf l') 16 (length v) = v"
  unfolding pmr_round_def prod.case
proof (rule key_round [OF rw idle])
  fix m and l1 :: link assume m: "rd m 8 8 = request_bytes (op_code p) (of_nat (length key)) 0"
    "rd m 16 (length key) = key" "header m = CLIENT_DONE"
    and l1: "send_buf l1 = received (send_buf l) m (8 + length key)" "write_buf l1 = write_buf l"
  from turn [OF m] l1 show "\<exists>sb'. pmr_turn vt l1 (clk, s) =
      Inr (Replied (post_reply sb'), l1\<lparr>send_buf := sb'\<rparr>, x) \<and>
      rd sb' 8 8 = reply_bytes st (of_nat (length v)) \<and> rd sb' 16 (length v) = v \<and> header sb' = CLERK_DONE"
    by (cases x) (auto simp: pmr_turn_def)
qed (use fits vl in \<open>simp_all add: wire_consts SEND_BUF_SIZE_def\<close>)

section \<open>Reading a key\<close>

text \<open>The value a clerk answers with, once map and database have been looked up.\<close>

definition pmr_lookup :: "'d dbtype \<Rightarrow> buffer \<Rightarrow> 'd PMRServer \<Rightarrow> bytes \<Rightarrow> bytes option result" where
  "pmr_lookup vt wb s key =
     (case srv_map s key of
        Some mem_idx \<Rightarrow>
          (let a = memaddr (m_addr mem_idx) + length key; n = unat (m_value_size mem_idx) in
           and_then (check (a + n \<le> MAX_DMABUF_SIZE) Out_of_bounds) (\<lambda>_. Inr (Some (rd wb a n))))
      | None \<Rightarrow> db_Get vt (srv_db s) key)"

lemma pmr_send_get:
  assumes rw: "rdma_delivers rw" and idle: "header (local_buf l) = CLIENT_DONE"
    and fits: "length key + 16 \<le> MAX_REQUEST"
    and look: "pmr_lookup vt (write_buf l) s key = Inr r"
    and small: "\<And>v. r = Some v \<Longrightarrow> length v + 16 \<le> MAX_REQUEST"
  shows "\<exists>l'. PMRClient_SendGet rw vt (l, clk, s) key = Inr (Some (r, l', clk, s)) \<and>
    header (local_buf l') = CLIENT_DONE \<and> write_buf l' = write_buf l"
proof -
  define v st where "v = (case r of Some v \<Rightarrow> v | None \<Rightarrow> [])" and
    "st = (case r of Some v \<Rightarrow> OK | None \<Rightarrow> NOTFOUND)"
  have vl: "length v + 16 \<le> MAX_REQUEST"
    using small by (cases r) (auto simp: v_def wire_consts)
  have "\<exists>sb'. PMRClerk_Run vt (received (send_buf l) m (8 + length key)) (write_buf l) clk s =
          Inr (Replied (post_reply sb'), sb', clk, s) \<and>
        rd sb' 8 8 = reply_bytes st (of_nat (length v)) \<and> rd sb' 16 (length v) = v \<and>
        header sb' = CLERK_DONE"
    if m: "rd m 8 8 = request_bytes (op_code GET) (of_nat (length key)) 0" "rd m 16 (length key) = key"
      "header m = CLIENT_DONE" for m
  proof -
    let ?m1 = "set_header CLERK_DONE (received (send_buf l) m (8 + length key))"
    have s: "length key < 2 ^ 24" "16 + length key \<le> SEND_BUF_SIZE" "16 + length v \<le> SEND_BUF_SIZE"
      "length v < 2 ^ 32" using fits vl by (simp_all add: wire_consts SEND_BUF_SIZE_def)
    note req = received_request [OF m(1) _ s(1), of "8 + length key" "send_buf l"]
    obtain sb' where reply: "put_reply ?m1 st v SEND_BUF_SIZE = Inr sb'"
      and sb': "rd sb' 8 8 = reply_bytes st (of_nat (length v))" "rd sb' 16 (length v) = v"
        "header sb' = header ?m1"
      using put_reply_ok [OF s(3,4), of ?m1 st] by blast
    have kn: "unat (of_nat (length key) :: u32) = length key" using s(1) by (simp add: unat_of_nat)
    have "PMRClerk_get vt ?m1 (write_buf l) s = Inr sb'"
      using req s look reply m(2) kn
      by (auto simp: PMRClerk_get_def pmr_lookup_def cuckoo_find_value_def Let_def wire_consts v_def st_def
          split: option.splits)
    then show ?thesis
      using req(1) sb' m(3) by (auto simp: PMRClerk_Run_def header_received Let_def wire_consts
          simp del: op_code.simps)
  qed
  note * = pmr_key_round [OF rw idle fits vl this]
  then obtain m l' where "prepare_key (pmr_ext Local_Buf) (local_buf l) key GET = Inr m"
    and "pmr_round rw vt (key_posts m key) (l\<lparr>local_buf := m\<rparr>, clk, s) = Inr (Some (l', clk, s))"
    and l': "header (local_buf l') = CLIENT_DONE" "write_buf l' = write_buf l"
      "rd (local_buf l') 8 8 = reply_bytes st (of_nat (length v))" "rd (local_buf l') 16 (length v) = v"
    by blast
  moreover have "get_reply (pmr_ext Local_Buf) (local_buf l') = Inr r"
    using get_reply_OK [of "local_buf l'" v "pmr_ext Local_Buf"] get_reply_not_OK [OF l'(3)] l' vl
    by (cases r) (simp_all add: v_def st_def wire_consts)
  ultimately show ?thesis by (auto simp: PMRClient_SendGet_def)
qed

section \<open>Deleting a key\<close>

lemma pmr_send_delete:
  assumes rw: "rdma_delivers rw" and idle: "header (local_buf l) = CLIENT_DONE"
    and fits: "length key + 16 \<le> MAX_REQUEST"
    and del: "db_Delete vt (srv_db s) key = Inr (b, d')"
  shows "\<exists>l'. PMRClient_SendDelete rw vt (l, clk, s) key = Inr (Some (b, l', clk, s\<lparr>srv_db := d'\<rparr>)) \<and>
    header (local_buf l') = CLIENT_DONE \<and> write_buf l' = write_buf l"
proof -
  define st where "st = (if b then OK else NOTFOUND)"
  have "\<exists>sb'. PMRClerk_Run vt (received (send_buf l) m (8 + length key)) (write_buf l) clk s =
          Inr (Replied (post_reply sb'), sb', clk, s\<lparr>srv_db := d'\<rparr>) \<and>
        rd sb' 8 8 = reply_bytes st (of_nat (length ([] :: bytes))) \<and>
        rd sb' 16 (length ([] :: bytes)) = [] \<and> header sb' = CLERK_DONE"
    if m: "rd m 8 8 = request_bytes (op_code DELETE) (of_nat (length key)) 0"
      "rd m 16 (length key) = key" "header m = CLIENT_DONE" for m
  proof -
    let ?m1 = "set_header CLERK_DONE (received (send_buf l) m (8 + length key))"
    have s: "length key < 2 ^ 24" "16 + length key \<le> SEND_BUF_SIZE"
      using fits by (simp_all add: wire_consts SEND_BUF_SIZE_def)
    note req = received_request [OF m(1) _ s(1), of "8 + length key" "send_buf l"]
    obtain sb' where reply: "put_reply ?m1 st [] SEND_BUF_SIZE = Inr sb'"
      and sb': "rd sb' 8 8 = reply_bytes st 0" "header sb' = header ?m1"
      by (rule put_reply_empty)
    have "PMRClerk_delete vt ?m1 s = Inr (sb', s\<lparr>srv_db := d'\<rparr>)"
      using req s del reply m(2) by (simp add: PMRClerk_delete_def Let_def wire_consts st_def)
    then show ?thesis
      using req(1) sb' m(3) by (auto simp: PMRClerk_Run_def header_received Let_def wire_consts
          simp del: op_code.simps)
  qed
  moreover have "length ([] :: bytes) + 16 \<le> MAX_REQUEST" by (simp add: wire_consts)
  ultimately have "\<exists>m l'. prepare_key (pmr_ext Local_Buf) (local_buf l) key DELETE = Inr m \<and>
    pmr_round rw vt (key_posts m key) (l\<lparr>local_buf := m\<rparr>, clk, s) =
      Inr (Some (l', clk, s\<lparr>srv_db := d'\<rparr>)) \<and>
    header (local_buf l') = CLIENT_DONE \<and> write_buf l' = write_buf l \<and>
    rd (local_buf l') 8 8 = reply_bytes st (of_nat (length ([] :: bytes))) \<and>
    rd (local_buf l') 16 (length ([] :: bytes)) = []"
    by (intro pmr_key_round [OF rw idle fits]) blast+
  then obtain m l' where "prepare_key (pmr_ext Local_Buf) (local_buf l) key DELETE = Inr m"
    and "pmr_round rw vt (key_posts m key) (l\<lparr>local_buf := m\<rparr>, clk, s) =
      Inr (Some (l', clk, s\<lparr>srv_db := d'\<rparr>))"
    and l': "header (local_buf l') = CLIENT_DONE" "write_buf l' = write_buf l"
      "rd (local_buf l') 8 8 = reply_bytes st 0"
    by (metis list.size(3) semiring_1_class.of_nat_0)
  moreover have "status_reply (local_buf l') \<longleftrightarrow> b"
    using status_reply_iff [OF l'(3)] by (simp add: st_def)
  ultimately show ?thesis by (auto simp: PMRClient_SendDelete_def)
qed

section \<open>Taking a new chunk\<close>

definition flushed :: "'d \<Rightarrow> buffer \<Rightarrow> PMRClerk \<Rightarrow> 'd PMRServer \<Rightarrow> 'd PMRServer" where
  "flushed d' wb clk s = s\<lparr>srv_db := d', srv_map := erase_keys (key_batch clk) (srv_map s),
     global_queue := global_queue s @ [(copy_chunk wb (unat (clk_chunk_offset clk)), clk_buf_head clk,
        unat (clk_chunk_offset clk) div MAX_ASYNC_SIZE)]\<rparr>"

definition fresh_chunk :: "nat \<Rightarrow> PMRClerk \<Rightarrow> PMRClerk" where
  "fresh_chunk slot clk = \<lparr>clk_chunk_offset = of_nat (MAX_ASYNC_SIZE * slot), clk_buf_head = 0,
     key_batch = [], metas = []\<rparr>"

lemma pmr_send_alloc:
  assumes rw: "rdma_delivers rw" and idle: "header (local_buf l) = CLIENT_DONE"
    and flush: "clk_chunk_offset clk < UINT32_MAX \<Longrightarrow> flush_batch vt (write_buf l) clk (clk_buf_head clk) s = Inr s1"
    and first: "\<not> clk_chunk_offset clk < UINT32_MAX \<Longrightarrow> s1 = s \<and> key_batch clk = [] \<and> metas clk = []"
    and alloc: "blindset (srv_bitmap s1) = Some (Inr (slot, bm))"
  shows "\<exists>l'. PMRClient_SendAlloc rw vt c (l, clk, s) =
      Inr (Some (c\<lparr>chunk_offset := of_nat (MAX_ASYNC_SIZE * slot), buf_head := 0\<rparr>, l',
        fresh_chunk slot clk, s1\<lparr>srv_bitmap := bm\<rparr>)) \<and>
    header (local_buf l') = CLIENT_DONE \<and> write_buf l' = write_buf l"
proof -
  define off :: u32 where "off = of_nat (MAX_ASYNC_SIZE * slot)"
  have "\<exists>sb'. PMRClerk_Run vt (received (send_buf l) m (8 + length ([] :: bytes))) (write_buf l) clk s =
          Inr (Replied (post_reply sb'), sb', fresh_chunk slot clk, s1\<lparr>srv_bitmap := bm\<rparr>) \<and>
        rd sb' 8 8 = reply_bytes OK (of_nat (length (le32 off))) \<and>
        rd sb' 16 (length (le32 off)) = le32 off \<and> header sb' = CLERK_DONE"
    if m: "rd m 8 8 = request_bytes (op_code ALLOC) (of_nat (length ([] :: bytes))) 0"
      "header m = CLIENT_DONE" for m
  proof -
    let ?m1 = "set_header CLERK_DONE (received (send_buf l) m 8)"
    note req = received_request [where p = ALLOC and kn = 0 and n = 8 and w = 0 and m = m and sb = "send_buf l"]
    have r: "read_request ?m1 8 = \<lparr>op = op_code ALLOC, key_size = 0, val_size = 0\<rparr>"
      using req(1) m(1) by simp
    obtain sb' where reply: "put_reply ?m1 OK (le32 off) SEND_BUF_SIZE = Inr sb'"
      and sb': "rd sb' 8 8 = reply_bytes OK (of_nat (length (le32 off)))"
        "rd sb' 16 (length (le32 off)) = le32 off" "header sb' = header ?m1"
      using put_reply_ok [of "le32 off" SEND_BUF_SIZE ?m1 OK] by (auto simp: SEND_BUF_SIZE_def)
    have "\<exists>clk1. PMRClerk_alloc vt ?m1 (write_buf l) clk s =
        Inr (Some (sb', fresh_chunk slot clk, s1\<lparr>srv_bitmap := bm\<rparr>), clk1, s1)"
      using flush first alloc reply
      by (cases "clk_chunk_offset clk < UINT32_MAX"; cases clk)
        (auto simp: PMRClerk_alloc_def AllocChunk_def Let_def off_def fresh_chunk_def)
    then show ?thesis
      using r sb' m(2) by (auto simp: PMRClerk_Run_def header_received Let_def wire_consts
          simp del: op_code.simps)
  qed
  moreover have "length ([] :: bytes) + 16 \<le> MAX_REQUEST" "length (le32 off) + 16 \<le> MAX_REQUEST"
    by (simp_all add: wire_consts)
  ultimately have *: "\<exists>m l'. prepare_key (pmr_ext Local_Buf) (local_buf l) [] ALLOC = Inr m \<and>
    pmr_round rw vt (key_posts m []) (l\<lparr>local_buf := m\<rparr>, clk, s) =
      Inr (Some (l', fresh_chunk slot clk, s1\<lparr>srv_bitmap := bm\<rparr>)) \<and>
    header (local_buf l') = CLIENT_DONE \<and> write_buf l' = write_buf l \<and>
    rd (local_buf l') 8 8 = reply_bytes OK (of_nat (length (le32 off))) \<and>
    rd (local_buf l') 16 (length (le32 off)) = le32 off"
    by (intro pmr_key_round [OF rw idle]) blast+
  have "prepare_key (pmr_ext Local_Buf) (local_buf l) [] ALLOC = Inr (prepare_plain (local_buf l) ALLOC)"
    by (rule plain_is_key) (simp add: wire_consts)
  with * obtain l' where
    "pmr_round rw vt (plain_posts (prepare_plain (local_buf l) ALLOC))
       (l\<lparr>local_buf := prepare_plain (local_buf l) ALLOC\<rparr>, clk, s) =
      Inr (Some (l', fresh_chunk slot clk, s1\<lparr>srv_bitmap := bm\<rparr>))"
    and l': "header (local_buf l') = CLIENT_DONE" "write_buf l' = write_buf l"
      "rd (local_buf l') 8 8 = reply_bytes OK 4" "rd (local_buf l') 16 4 = le32 off"
    unfolding plain_is_key(2) length_le32 of_nat_numeral by (metis sum.inject(2))
  moreover have "reply_status (local_buf l') RING_HEADER = status_code OK"
    using read_reply_bytes [OF l'(3)] by (simp add: wire_consts)
  ultimately show ?thesis
    by (auto simp: PMRClient_SendAlloc_def wire_consts off_def)
qed

text \<open>The two calls whose clerk does not answer: an allocation with no chunk left, and \<open>CLOSE\<close>.\<close>

lemma plain_delivered:
  assumes rw: "rdma_delivers rw" and idle: "header (local_buf l) = CLIENT_DONE"
  obtains m where "prepare_plain (local_buf l) p = m"
    and "deliver rw pmr_ext (plain_posts m) (l\<lparr>local_buf := m\<rparr>) =
      l\<lparr>local_buf := m, send_buf := received (send_buf l) m 8\<rparr>"
    and "header (received (send_buf l) m 8) = CLIENT_DONE"
    and "read_request (set_header CLERK_DONE (received (send_buf l) m 8)) 8 =
      \<lparr>op = op_code p, key_size = 0, val_size = 0\<rparr>"
proof -
  obtain m where m: "prepare_key (pmr_ext Local_Buf) (local_buf l) [] p = Inr m"
    "rd m 8 8 = request_bytes (op_code p) (of_nat (length ([] :: bytes))) 0" "header m = CLIENT_DONE"
    "deliver rw pmr_ext (key_posts m []) (l\<lparr>local_buf := m\<rparr>) =
      l\<lparr>local_buf := m, send_buf := received (send_buf l) m (8 + length ([] :: bytes))\<rparr>"
    by (rule key_delivered [where ext = pmr_ext and key = "[]" and p = p, OF rw idle])
      (auto simp: wire_consts SEND_BUF_SIZE_def)
  have "prepare_key (pmr_ext Local_Buf) (local_buf l) [] p = Inr (prepare_plain (local_buf l) p)"
    by (rule plain_is_key) (simp add: wire_consts)
  with m(1) have "prepare_plain (local_buf l) p = m" by simp
  moreover have "read_request (set_header CLERK_DONE (received (send_buf l) m 8)) 8 =
      \<lparr>op = op_code p, key_size = 0, val_size = 0\<rparr>"
    using received_request(1) [where m = m and kn = 0 and n = 8 and w = 0 and p = p] m(2) by simp
  ultimately show thesis
    using m header_received [OF m(3)] that by (simp add: plain_is_key(2))
qed

lemma pmr_send_alloc_blocked:
  assumes rw: "rdma_delivers rw" and idle: "header (local_buf l) = CLIENT_DONE"
    and flush: "clk_chunk_offset clk < UINT32_MAX \<Longrightarrow> flush_batch vt (write_buf l) clk (clk_buf_head clk) s = Inr s1"
    and first: "\<not> clk_chunk_offset clk < UINT32_MAX \<Longrightarrow> s1 = s"
    and full: "blindset (srv_bitmap s1) = None"
  shows "PMRClient_SendAlloc rw vt c (l, clk, s) = Inr None"
proof -
  obtain m where m: "prepare_plain (local_buf l) ALLOC = m"
    "deliver rw pmr_ext (plain_posts m) (l\<lparr>local_buf := m\<rparr>) =
      l\<lparr>local_buf := m, send_buf := received (send_buf l) m 8\<rparr>"
    "header (received (send_buf l) m 8) = CLIENT_DONE"
    "read_request (set_header CLERK_DONE (received (send_buf l) m 8)) 8 =
      \<lparr>op = op_code ALLOC, key_size = 0, val_size = 0\<rparr>"
    using rw idle by (rule plain_delivered)
  let ?m1 = "set_header CLERK_DONE (received (send_buf l) m 8)"
  obtain clk1 where "PMRClerk_alloc vt ?m1 (write_buf l) clk s = Inr (None, clk1, s1)"
    using flush first full by (cases "clk_chunk_offset clk < UINT32_MAX")
      (auto simp: PMRClerk_alloc_def AllocChunk_def)
  then have "PMRClerk_Run vt (received (send_buf l) m 8) (write_buf l) clk s = Inr (Spinning, ?m1, clk1, s1)"
    using m(3,4) by (simp add: PMRClerk_Run_def Let_def wire_consts del: op_code.simps)
  then show ?thesis
    using m(1,2) by (auto simp: PMRClient_SendAlloc_def pmr_round_def rpc_round_def pmr_turn_def Let_def)
qed

lemma pmr_send_close:
  assumes rw: "rdma_delivers rw" and idle: "header (local_buf l) = CLIENT_DONE"
    and close: "PMRClerk_close vt (write_buf l) clk s = Inr s'"
  shows "\<exists>l'. PMRClient_SendClose rw vt (l, clk, s) = Inr (Closed, l', clk, s') \<and> write_buf l' = write_buf l"
proof -
  obtain m where m: "prepare_plain (local_buf l) CLOSE = m"
    "deliver rw pmr_ext (plain_posts m) (l\<lparr>local_buf := m\<rparr>) =
      l\<lparr>local_buf := m, send_buf := received (send_buf l) m 8\<rparr>"
    "header (received (send_buf l) m 8) = CLIENT_DONE"
    "read_request (set_header CLERK_DONE (received (send_buf l) m 8)) 8 =
      \<lparr>op = op_code CLOSE, key_size = 0, val_size = 0\<rparr>"
    using rw idle by (rule plain_delivered)
  have "PMRClerk_Run vt (received (send_buf l) m 8) (write_buf l) clk s =
      Inr (Closed, set_header CLERK_DONE (received (send_buf l) m 8), clk, s')"
    using m(3,4) close by (simp add: PMRClerk_Run_def Let_def wire_consts del: op_code.simps)
  then show ?thesis
    using m(1,2) by (auto simp: PMRClient_SendClose_def pmr_turn_def Let_def)
qed

end
