(* ===== verification/Uring.thy ===== *)
theory Uring
  imports PMR_Front
begin

text \<open>
  \<open>src/frontend/pmr/uring.h\<close> and the log writer \<open>UringRun\<close> of \<open>pmr.cc\<close>. The kernel side of the ring is
  kept as two lists: entries that were prepared and entries that were submitted and have not been
  reaped. The writer's loop is cut at the points where other threads act: taking an item from the
  queue, submitting, and reaping one completion, which may be any of the submitted entries.
\<close>

type_synonym sqe = "buffer \<times> nat \<times> nat \<times> nat"

record IOuring =
  prepared :: "sqe list"
  submitted :: "sqe list"
  inflight :: int
  offset :: nat
  qd :: int

definition IOuring_new :: "int \<Rightarrow> IOuring" where
  "IOuring_new queue_size =
     \<lparr>prepared = [], submitted = [], inflight = 0, offset = 0, qd = queue_size\<rparr>"

definition IOuring_Write :: "IOuring \<Rightarrow> buffer \<Rightarrow> nat \<Rightarrow> nat \<Rightarrow> IOuring" where
  "IOuring_Write r buf n data = r\<lparr>prepared := prepared r @ [(buf, n, offset r, data)],
     inflight := inflight r + 1, offset := offset r + n\<rparr>"

definition IOuring_Submit :: "IOuring \<Rightarrow> IOuring" where
  "IOuring_Submit r = r\<lparr>submitted := submitted r @ prepared r, prepared := []\<rparr>"

definition IOuring_Seen :: "IOuring \<Rightarrow> sqe \<Rightarrow> IOuring" where
  "IOuring_Seen r e = r\<lparr>submitted := remove1 e (submitted r), inflight := inflight r - 1\<rparr>"

definition IOuring_Full :: "IOuring \<Rightarrow> bool" where
  "IOuring_Full r \<longleftrightarrow> qd r \<le> inflight r"

definition IOuring_Empty :: "IOuring \<Rightarrow> bool" where
  "IOuring_Empty r \<longleftrightarrow> inflight r = 0"

text \<open>
  The steps of \<open>UringRun\<close> on the ring and the server. The queue hands out some item it holds: between
  items of different producers it promises no order.
\<close>

inductive uring_step :: "IOuring \<times> 'd PMRServer \<Rightarrow> IOuring \<times> 'd PMRServer \<Rightarrow> bool" where
  dequeue: "\<not> IOuring_Full r \<Longrightarrow> global_queue s = xs @ (buf, n, cid) # ys \<Longrightarrow>
    uring_step (r, s) (IOuring_Write r buf (unat n) cid, s\<lparr>global_queue := xs @ ys\<rparr>)"
| submit: "\<not> IOuring_Empty r \<Longrightarrow> uring_step (r, s) (IOuring_Submit r, s)"
| reap: "(buf, n, off, cid) \<in> set (submitted r) \<Longrightarrow> FreeChunk s cid = Inr s' \<Longrightarrow>
    uring_step (r, s) (IOuring_Seen r (buf, n, off, cid), s')"

text \<open>The bookkeeping of the ring agrees with its entries.\<close>

fun sqe_start :: "sqe \<Rightarrow> nat" where "sqe_start (buf, n, off, cid) = off"
fun sqe_end :: "sqe \<Rightarrow> nat" where "sqe_end (buf, n, off, cid) = off + n"
fun sqe_chunk :: "sqe \<Rightarrow> nat" where "sqe_chunk (buf, n, off, cid) = cid"

definition in_ring :: "IOuring \<Rightarrow> sqe list" where
  "in_ring r = submitted r @ prepared r"

definition ring_inv :: "IOuring \<Rightarrow> bool" where
  "ring_inv r \<longleftrightarrow> inflight r = int (length (in_ring r)) \<and> inflight r \<le> qd r \<and>
     (\<forall>e \<in> set (in_ring r). sqe_end e \<le> offset r)"

lemma ring_inv_new: "0 \<le> q \<Longrightarrow> ring_inv (IOuring_new q)"
  by (simp add: ring_inv_def IOuring_new_def in_ring_def)

lemmas ring_defs = in_ring_def IOuring_Write_def IOuring_Submit_def IOuring_Seen_def

lemma in_ring_step:
  "in_ring (IOuring_Write r buf n cid) = in_ring r @ [(buf, n, offset r, cid)]"
  "in_ring (IOuring_Submit r) = in_ring r"
  "e \<in> set (submitted r) \<Longrightarrow> in_ring (IOuring_Seen r e) = remove1 e (in_ring r)"
  by (simp_all add: ring_defs remove1_append)

lemma ring_fields [simp]:
  "offset (IOuring_Write r buf n cid) = offset r + n" "qd (IOuring_Write r buf n cid) = qd r"
  "inflight (IOuring_Write r buf n cid) = inflight r + 1"
  "offset (IOuring_Submit r) = offset r" "qd (IOuring_Submit r) = qd r"
  "inflight (IOuring_Submit r) = inflight r"
  "offset (IOuring_Seen r e) = offset r" "qd (IOuring_Seen r e) = qd r"
  "inflight (IOuring_Seen r e) = inflight r - 1"
  by (simp_all add: ring_defs)

lemma ring_inv_step: "uring_step x y \<Longrightarrow> ring_inv (fst x) \<Longrightarrow> ring_inv (fst y)"
proof (induction rule: uring_step.induct)
  case (dequeue r s xs buf n cid ys)
  then show ?case by (auto simp: ring_inv_def in_ring_step IOuring_Full_def intro: trans_le_add1)
next
  case (submit r s)
  then show ?case by (simp add: ring_inv_def in_ring_step)
next
  case (reap buf n off cid r s s')
  let ?e = "(buf, n, off, cid)"
  have "?e \<in> set (in_ring r)" using reap by (simp add: in_ring_def)
  then have "0 < length (in_ring r)" by (cases "in_ring r") auto
  with reap \<open>?e \<in> set (in_ring r)\<close> show ?case
    by (auto simp: ring_inv_def in_ring_step length_remove1 of_nat_diff Suc_le_eq dest!: set_mp [OF set_remove1_subset])
qed

text \<open>The file ranges of the entries in flight are in the order of preparation and never overlap.\<close>

definition ranges_disjoint :: "sqe list \<Rightarrow> bool" where
  "ranges_disjoint es \<longleftrightarrow> sorted_wrt (\<lambda>e e'. sqe_end e \<le> sqe_start e') es"

lemma ranges_disjoint_remove1: "ranges_disjoint es \<Longrightarrow> ranges_disjoint (remove1 e es)"
  unfolding ranges_disjoint_def by (induction es) (auto dest: set_mp [OF set_remove1_subset])

definition log_inv :: "IOuring \<Rightarrow> bool" where
  "log_inv r \<longleftrightarrow> ring_inv r \<and> ranges_disjoint (in_ring r)"

lemma log_inv_new: "0 \<le> q \<Longrightarrow> log_inv (IOuring_new q)"
  by (simp add: log_inv_def ring_inv_new) (simp add: ranges_disjoint_def IOuring_new_def in_ring_def)

lemma log_inv_step:
  assumes "uring_step x y" and "log_inv (fst x)"
  shows "log_inv (fst y)"
proof -
  have "ring_inv (fst y)"
    using assms(2) ring_inv_step [OF assms(1)] by (simp add: log_inv_def)
  moreover from assms have "ranges_disjoint (in_ring (fst y))"
  proof (induction rule: uring_step.induct)
    case (dequeue r s xs buf n cid ys)
    then show ?case by (simp add: in_ring_step log_inv_def ring_inv_def ranges_disjoint_def sorted_wrt_append)
  next
    case (submit r s)
    then show ?case by (simp add: log_inv_def in_ring_step)
  next
    case (reap buf n off cid r s s')
    then show ?case by (simp add: in_ring_step log_inv_def ranges_disjoint_remove1)
  qed
  ultimately show ?thesis by (simp add: log_inv_def)
qed

end
