(* ===== verification/PMR_System.thy ===== *)
theory PMR_System
  imports PMR_Calls Uring
begin

text \<open>
  The device-buffer front end as a whole: any number of connected clients with their clerks, the
  server they share, the device buffer and the log writer. A step is one client call (with the
  clerk's turn it causes) or one step of the log writer. The first part states what holds in every
  reachable state; the second part relates the calls to a single key-value map.
\<close>

section \<open>Batches\<close>

definition mem_of :: "PMRClerk \<Rightarrow> Meta \<Rightarrow> Meta" where
  "mem_of clk m = Meta_mem (unat (clk_chunk_offset clk) + unat (file_offset (m_addr m)))
     (m_key_size m) (m_value_size m)"

text \<open>The descriptors a clerk has published for its current batch: the last one of a key counts.\<close>

definition batch_map :: "PMRClerk \<Rightarrow> (bytes, Meta) cuckoohash_map" where
  "batch_map clk = map_of (rev (zip (key_batch clk) (map (mem_of clk) (metas clk))))"

definition mem_value :: "buffer \<Rightarrow> Meta \<Rightarrow> bytes" where
  "mem_value wb m = rd wb (memaddr (m_addr m) + unat (m_key_size m)) (unat (m_value_size m))"

fun record_wf :: "u32 \<Rightarrow> bytes \<times> Meta \<Rightarrow> bool" where
  "record_wf head (k, m) \<longleftrightarrow> sizeof_Request \<le> unat (file_offset (m_addr m)) \<and>
     unat (file_offset (m_addr m)) + length k + unat (m_value_size m) \<le> unat head \<and>
     unat (m_key_size m) = length k \<and> unat (m_value_size m) + 16 \<le> MAX_REQUEST"

definition chunk_slot :: "PMRClerk \<Rightarrow> nat" where
  "chunk_slot clk = unat (clk_chunk_offset clk) div MAX_ASYNC_SIZE"

definition clerk_wf :: "PMRClerk \<Rightarrow> bool" where
  "clerk_wf clk \<longleftrightarrow> unat (clk_chunk_offset clk) = MAX_ASYNC_SIZE * chunk_slot clk \<and>
     chunk_slot clk < MAX_DMABUF_SIZE div MAX_ASYNC_SIZE \<and> unat (clk_buf_head clk) < MAX_ASYNC_SIZE \<and>
     length (key_batch clk) = length (metas clk) \<and>
     (\<forall>r \<in> set (zip (key_batch clk) (metas clk)). record_wf (clk_buf_head clk) r)"

lemmas chunk_consts = MAX_DMABUF_SIZE_def MAX_ASYNC_SIZE_def

lemma take_bit_31: "unat k < 2 ^ 31 \<Longrightarrow> take_bit 31 k = (k :: u32)"
proof (rule bit_word_eqI)
  fix n assume k: "unat k < 2 ^ 31" and "n < LENGTH(32)"
  then show "bit (take_bit 31 k) n = bit k n"
    using small_word_bits [OF k, of n] by (cases "n < 31") (auto simp: bit_simps)
qed

lemma clerk_wf_end: "clerk_wf clk \<Longrightarrow> unat (clk_chunk_offset clk) + MAX_ASYNC_SIZE \<le> MAX_DMABUF_SIZE"
  by (simp add: clerk_wf_def chunk_consts)

lemma batch_map_SomeD:
  assumes "clerk_wf clk" and "batch_map clk k = Some m"
  shows "unat (m_key_size m) = length k" and "unat (clk_chunk_offset clk) \<le> memaddr (m_addr m)"
    and "unat (m_value_size m) + 16 \<le> MAX_REQUEST"
    and "memaddr (m_addr m) + length k + unat (m_value_size m) \<le>
      unat (clk_chunk_offset clk) + unat (clk_buf_head clk)"
proof -
  have "(k, m) \<in> set (zip (key_batch clk) (map (mem_of clk) (metas clk)))"
    using assms(2) by (auto simp: batch_map_def dest: map_of_SomeD)
  then obtain m0 where m0: "(k, m0) \<in> set (zip (key_batch clk) (metas clk))" "m = mem_of clk m0"
    by (auto simp: zip_map2)
  then have wf: "record_wf (clk_buf_head clk) (k, m0)" using assms(1) by (auto simp: clerk_wf_def)
  have "unat (m_key_size m0) < 2 ^ 31"
    using wf assms(1) by (auto simp: clerk_wf_def MAX_ASYNC_SIZE_def)
  then have k: "m_key_size m = m_key_size m0" by (simp add: m0(2) mem_of_def Meta_mem_def take_bit_31)
  show "unat (m_key_size m) = length k" using k wf by simp
  show "unat (m_value_size m) + 16 \<le> MAX_REQUEST"
    using wf by (simp add: m0(2) mem_of_def Meta_mem_def)
  show "unat (clk_chunk_offset clk) \<le> memaddr (m_addr m)" by (simp add: m0(2) mem_of_def Meta_mem_def)
  show "memaddr (m_addr m) + length k + unat (m_value_size m) \<le>
      unat (clk_chunk_offset clk) + unat (clk_buf_head clk)"
    using wf by (simp add: m0(2) mem_of_def Meta_mem_def)
qed

lemma batch_map_dom: "length (key_batch clk) = length (metas clk) \<Longrightarrow> dom (batch_map clk) = set (key_batch clk)"
  unfolding batch_map_def dom_map_of_conv_image_fst set_rev
  by (metis length_map map_fst_zip set_map)

lemma push_record_wf:
  assumes wf: "clerk_wf clk" and room: "unat (clk_buf_head clk) + (8 + length key + vn) < MAX_ASYNC_SIZE"
    and small: "vn + 16 \<le> MAX_REQUEST"
  shows "clerk_wf (push_record clk key vn)" and "chunk_slot (push_record clk key vn) = chunk_slot clk"
    and "unat (clk_buf_head (push_record clk key vn)) = unat (clk_buf_head clk) + (8 + length key + vn)"
    and "batch_map (push_record clk key vn) = (batch_map clk)(key \<mapsto> mem_record clk key vn)"
proof -
  let ?clk = "push_record clk key vn"
  have u: "unat (of_nat (length key) :: u32) = length key" "unat (of_nat vn :: u32) = vn"
    "unat (clk_buf_head clk + 8) = unat (clk_buf_head clk) + 8"
    "take_bit 31 (of_nat (length key) :: u32) = of_nat (length key)"
    using room by (simp_all add: MAX_ASYNC_SIZE_def unat_of_nat unat_word_ariths take_bit_31)
  show slot: "chunk_slot ?clk = chunk_slot clk" by (simp add: chunk_slot_def push_record_def)
  show head: "unat (clk_buf_head ?clk) = unat (clk_buf_head clk) + (8 + length key + vn)"
    using room by (simp add: push_record_def MAX_ASYNC_SIZE_def unat_of_nat unat_word_ariths)
  have "record_wf (clk_buf_head ?clk) r" if "r \<in> set (zip (key_batch clk) (metas clk))" for r
  proof -
    have "record_wf (clk_buf_head clk) r" using that wf by (simp add: clerk_wf_def)
    with head show ?thesis by (cases r) simp
  qed
  moreover have "record_wf (clk_buf_head ?clk)
      (key, Meta_file 0 (clk_buf_head clk + 8) (of_nat (length key)) (of_nat vn))"
    using head u small by (simp add: Meta_file_def sizeof_Request_def)
  ultimately show "clerk_wf ?clk"
    using wf room head slot by (auto simp: clerk_wf_def push_record_def)
  have "mem_of ?clk = mem_of clk" by (simp add: mem_of_def push_record_def fun_eq_iff)
  then show "batch_map ?clk = (batch_map clk)(key \<mapsto> mem_record clk key vn)"
    using wf u unfolding batch_map_def
    by (simp add: clerk_wf_def push_record_def mem_of_def mem_record_def Meta_file_def Meta_mem_def
        add.assoc)
qed

lemma fresh_chunk_wf:
  assumes "slot < MAX_DMABUF_SIZE div MAX_ASYNC_SIZE"
  shows "clerk_wf (fresh_chunk slot clk)" and "chunk_slot (fresh_chunk slot clk) = slot"
    and "batch_map (fresh_chunk slot clk) = (\<lambda>_. None)"
  using assms by (simp_all add: clerk_wf_def fresh_chunk_def chunk_slot_def chunk_consts batch_map_def
      unat_of_nat unat_word_ariths)

section \<open>Flushing a batch\<close>

lemma copy_chunk_value:
  assumes "record_wf head (k, m)" and "unat head \<le> MAX_ASYNC_SIZE"
  shows "meta_value (copy_chunk wb off) m =
    rd wb (off + unat (file_offset (m_addr m)) + length k) (unat (m_value_size m))"
proof -
  let ?o = "unat (file_offset (m_addr m)) + length k" and ?n = "unat (m_value_size m)"
  have "?o + ?n \<le> MAX_ASYNC_SIZE" using assms by simp
  then have "rd (copy_chunk wb off) ?o ?n = rd wb (off + ?o) ?n"
    by (simp add: copy_chunk_def rd_wr_inside le_diff_conv2)
  with assms(1) show ?thesis by (simp add: meta_value_def add.assoc)
qed

lemma apply_batch_map_of:
  assumes "length ks = length ms"
    and "\<And>k m. (k, m) \<in> set (zip ks ms) \<Longrightarrow> meta_value buf m = g (f m)"
  shows "apply_batch buf ks ms c k =
    (case map_of (rev (zip ks (map f ms))) k of Some m \<Rightarrow> Some (g m) | None \<Rightarrow> c k)"
  using assms
proof (induction ks ms arbitrary: c k rule: rev_induct2)
  case (4 x xs y ys)
  have "apply_batch buf xs ys c k =
      (case map_of (rev (zip xs (map f ys))) k of Some m \<Rightarrow> Some (g m) | None \<Rightarrow> c k)"
    by (rule "4.IH") (use 4 in auto)
  with 4 show ?case by (auto simp: apply_batch_append split: option.splits)
qed auto

lemma apply_batch_chunk:
  assumes wf: "clerk_wf clk"
  shows "apply_batch (copy_chunk wb (unat (clk_chunk_offset clk))) (key_batch clk) (metas clk) c k =
    (case batch_map clk k of Some m \<Rightarrow> Some (mem_value wb m) | None \<Rightarrow> c k)"
  unfolding batch_map_def
proof (rule apply_batch_map_of)
  show "length (key_batch clk) = length (metas clk)" using wf by (simp add: clerk_wf_def)
  fix k m assume "(k, m) \<in> set (zip (key_batch clk) (metas clk))"
  then have r: "record_wf (clk_buf_head clk) (k, m)" using wf by (auto simp: clerk_wf_def)
  have "unat (m_key_size m) < 2 ^ 31" using r wf by (auto simp: clerk_wf_def MAX_ASYNC_SIZE_def)
  then show "meta_value (copy_chunk wb (unat (clk_chunk_offset clk))) m = mem_value wb (mem_of clk m)"
    using copy_chunk_value [OF r] r wf
    by (simp add: mem_value_def mem_of_def Meta_mem_def clerk_wf_def take_bit_31)
qed

lemma erase_keys_eq: "erase_keys ks h = (\<lambda>k. if k \<in> set ks then None else h k)"
  unfolding erase_keys_def
  by (induction ks arbitrary: h) (auto simp: cuckoo_erase_def fun_eq_iff)

lemma metas_fit:
  assumes wf: "clerk_wf clk" and m: "m \<in> set (metas clk)"
  shows "meta_fits MAX_ASYNC_SIZE m"
proof -
  obtain k where "(k, m) \<in> set (zip (key_batch clk) (metas clk))"
    using m wf by (metis clerk_wf_def in_set_impl_in_set_zip2)
  then have "record_wf (clk_buf_head clk) (k, m)" using wf by (auto simp: clerk_wf_def)
  then show ?thesis using wf by (auto simp: meta_fits_def clerk_wf_def)
qed

context kv_store
begin

text \<open>Moving a batch to the database: no fault, and the contents are those of the batch over the old ones.\<close>

lemma flush_batch_ok:
  assumes wf: "clerk_wf clk" and d: "inv (srv_db s)"
  obtains d' where "flush_batch vt wb clk len s = Inr (flushed d' wb clk s)" and "inv d'"
    and "\<And>k. contents d' k = (case batch_map clk k of Some m \<Rightarrow> Some (mem_value wb m)
      | None \<Rightarrow> contents (srv_db s) k)"
proof -
  let ?buf = "copy_chunk wb (unat (clk_chunk_offset clk))"
  have l: "length (key_batch clk) = length (metas clk)" using wf by (simp add: clerk_wf_def)
  obtain d' where "db_PutBatch vt (srv_db s) (key_batch clk) (metas clk) ?buf MAX_ASYNC_SIZE len = Inr (True, d')"
    and d': "inv d'" "contents d' = apply_batch ?buf (key_batch clk) (metas clk) (contents (srv_db s))"
    using put_batch [OF d l metas_fit [OF wf]] by blast
  then have "flush_batch vt wb clk len s = Inr (flushed d' wb clk s)"
    using clerk_wf_end [OF wf] by (simp add: flush_batch_def flushed_def Let_def)
  with d' show thesis using that [of d'] apply_batch_chunk [OF wf] by simp
qed

end

end
