(* ===== verification/PMR_Safety.thy ===== *)
theory PMR_Safety
  imports PMR_System "HOL-Library.Multiset"
begin

text \<open>
  The reachable states of the device-buffer front end. A step is one client call together with the
  clerk's turn it causes, or one step of the log writer; calls of different clients interleave in any
  order. The invariant says who holds each chunk and that every published descriptor points into
  the chunk of a connected clerk.
\<close>

section \<open>The system\<close>

record 'd pmr_sys =
  conns :: "nat \<Rightarrow> (PMRClient \<times> link \<times> PMRClerk) option"
  server :: "'d PMRServer"
  dmabuf :: buffer
  ring :: IOuring

definition pmr_init :: "'d \<Rightarrow> 'd pmr_sys" where
  "pmr_init d = \<lparr>conns = (\<lambda>_. None), server = PMRServer_new d, dmabuf = (\<lambda>_. 0), ring = IOuring_new 64\<rparr>"

definition enter :: "'d pmr_sys \<Rightarrow> link \<Rightarrow> PMRClerk \<Rightarrow> 'd pmr_state" where
  "enter s l clk = (l\<lparr>write_buf := dmabuf s\<rparr>, clk, server s)"

definition leave :: "'d pmr_sys \<Rightarrow> nat \<Rightarrow> PMRClient \<Rightarrow> 'd pmr_state \<Rightarrow> 'd pmr_sys" where
  "leave s i c = (\<lambda>(l, clk, srv). s\<lparr>conns := (conns s)(i \<mapsto> (c, l, clk)), server := srv, dmabuf := write_buf l\<rparr>)"

inductive pmr_step :: "rdma_write \<Rightarrow> 'd dbtype \<Rightarrow> 'd pmr_sys \<Rightarrow> 'd pmr_sys \<Rightarrow> bool" for rw vt where
  call_connect: "conns s i = None \<Longrightarrow>
    PMRClient_Connect rw vt PMRClient_new (enter s l PMRClerk_new) = Inr (Some (c', st')) \<Longrightarrow>
    pmr_step rw vt s (leave s i c' st')"
| call_write: "conns s i = Some (c, l, clk) \<Longrightarrow> p = PUT \<or> p = UPDATE \<Longrightarrow>
    length key + length val + 16 \<le> MAX_REQUEST \<Longrightarrow>
    PMRClient_SendWrite rw vt c (enter s l clk) key val p = Inr (Some (c', st')) \<Longrightarrow>
    pmr_step rw vt s (leave s i c' st')"
| call_get: "conns s i = Some (c, l, clk) \<Longrightarrow> length key + 16 \<le> MAX_REQUEST \<Longrightarrow>
    PMRClient_SendGet rw vt (enter s l clk) key = Inr (Some (r, st')) \<Longrightarrow>
    pmr_step rw vt s (leave s i c st')"
| call_delete: "conns s i = Some (c, l, clk) \<Longrightarrow> length key + 16 \<le> MAX_REQUEST \<Longrightarrow>
    PMRClient_SendDelete rw vt (enter s l clk) key = Inr (Some (r, st')) \<Longrightarrow>
    pmr_step rw vt s (leave s i c st')"
| call_close: "conns s i = Some (c, l, clk) \<Longrightarrow>
    PMRClient_SendClose rw vt (enter s l clk) = Inr (Closed, l', clk', srv') \<Longrightarrow>
    pmr_step rw vt s (s\<lparr>conns := (conns s)(i := None), server := srv'\<rparr>)"
| call_log: "uring_step (ring s, server s) (r', srv') \<Longrightarrow>
    pmr_step rw vt s (s\<lparr>ring := r', server := srv'\<rparr>)"

inductive pmr_reach :: "rdma_write \<Rightarrow> 'd dbtype \<Rightarrow> 'd \<Rightarrow> 'd pmr_sys \<Rightarrow> bool" for rw vt d where
  init: "pmr_reach rw vt d (pmr_init d)"
| step: "pmr_reach rw vt d s \<Longrightarrow> pmr_step rw vt s s' \<Longrightarrow> pmr_reach rw vt d s'"

text \<open>A published descriptor determines the chunk it points into.\<close>

lemma batch_in_chunk:
  assumes wf: "clerk_wf clk" and m: "batch_map clk k = Some m"
  shows "memaddr (m_addr m) div MAX_ASYNC_SIZE = chunk_slot clk"
proof -
  note b = batch_map_SomeD [OF wf m]
  have "MAX_ASYNC_SIZE * chunk_slot clk \<le> memaddr (m_addr m)"
    "memaddr (m_addr m) < MAX_ASYNC_SIZE * chunk_slot clk + MAX_ASYNC_SIZE"
    using b wf by (simp_all add: clerk_wf_def)
  then show ?thesis by (simp add: div_nat_eqI MAX_ASYNC_SIZE_def)
qed

section \<open>Who holds a chunk\<close>

type_synonym clerks = "nat \<Rightarrow> PMRClerk option"

definition holds_chunks :: "clerks \<Rightarrow> nat list \<Rightarrow> nat set \<Rightarrow> bool" where
  "holds_chunks cl pend taken \<longleftrightarrow>
     (\<forall>i clk. cl i = Some clk \<longrightarrow> clerk_wf clk \<and> chunk_slot clk \<in> taken \<and> chunk_slot clk \<notin> set pend) \<and>
     (\<forall>i j clk clk'. cl i = Some clk \<and> cl j = Some clk' \<and> chunk_slot clk = chunk_slot clk' \<longrightarrow> i = j) \<and>
     distinct pend \<and> set pend \<subseteq> taken"

lemma holds_chunksD:
  assumes "holds_chunks cl pend taken"
  shows "cl i = Some clk \<Longrightarrow> clerk_wf clk" and "cl i = Some clk \<Longrightarrow> chunk_slot clk \<in> taken"
    and "cl i = Some clk \<Longrightarrow> chunk_slot clk \<notin> set pend"
    and "cl i = Some clk \<Longrightarrow> cl j = Some clk' \<Longrightarrow> chunk_slot clk = chunk_slot clk' \<Longrightarrow> i = j"
    and "distinct pend" and "set pend \<subseteq> taken"
  using assms unfolding holds_chunks_def by blast+

lemma holds_same:
  assumes "holds_chunks cl pend taken" and "cl i = Some clk" and "clerk_wf clk'"
    and "chunk_slot clk' = chunk_slot clk"
  shows "holds_chunks (cl(i \<mapsto> clk')) pend taken"
  using assms unfolding holds_chunks_def by (auto split: if_splits)

lemma holds_take:
  assumes "holds_chunks cl pend taken" and "cl i = None" and "clerk_wf clk"
    and "chunk_slot clk \<notin> taken"
  shows "holds_chunks (cl(i \<mapsto> clk)) pend (insert (chunk_slot clk) taken)"
  using assms unfolding holds_chunks_def by (auto split: if_splits) metis

lemma holds_drop:
  assumes "holds_chunks cl pend taken"
  shows "holds_chunks (cl(i := None)) pend taken"
  using assms unfolding holds_chunks_def by (auto split: if_splits)

lemma holds_queue:
  assumes "holds_chunks cl pend taken" and "cl i = Some clk"
  shows "holds_chunks (cl(i := None)) (pend @ [chunk_slot clk]) taken"
  using assms unfolding holds_chunks_def by (auto split: if_splits)

lemma holds_mset:
  assumes "holds_chunks cl pend taken" and "mset pend' = mset pend"
  shows "holds_chunks cl pend' taken"
proof -
  have "set pend' = set pend" "distinct pend' = distinct pend"
    using assms(2) by (metis set_mset_mset, metis mset_eq_imp_distinct_iff)
  with assms(1) show ?thesis unfolding holds_chunks_def by simp
qed

lemma holds_free:
  assumes "holds_chunks cl pend taken" and "e \<in> set pend"
  shows "holds_chunks cl (remove1 e pend) (taken - {e})"
  using assms unfolding holds_chunks_def by (auto simp: distinct_remove1)

section \<open>Published descriptors\<close>

definition published :: "clerks \<Rightarrow> (bytes, Meta) cuckoohash_map \<Rightarrow> bool" where
  "published cl h \<longleftrightarrow> (\<forall>k m. h k = Some m \<longrightarrow> (\<exists>i clk. cl i = Some clk \<and> batch_map clk k = Some m))"

lemma publishedD:
  assumes "published cl h" and "h k = Some m"
  obtains i clk where "cl i = Some clk" and "batch_map clk k = Some m"
  using assms unfolding published_def by blast

lemma published_mono:
  assumes "published cl h" and "cl i = Some clk \<or> cl i = None"
    and "cl i = Some clk \<Longrightarrow> \<forall>k m. batch_map clk k = Some m \<longrightarrow> h' k = Some m \<longrightarrow> batch_map clk' k = Some m"
    and "\<And>k m. h' k = Some m \<Longrightarrow> h k = Some m \<or> batch_map clk' k = Some m"
  shows "published (cl(i \<mapsto> clk')) h'"
  unfolding published_def
proof (intro allI impI)
  fix k m assume h': "h' k = Some m"
  show "\<exists>j clk''. (cl(i \<mapsto> clk')) j = Some clk'' \<and> batch_map clk'' k = Some m"
  proof (cases "batch_map clk' k = Some m")
    case True
    then show ?thesis by (intro exI [of _ i] exI [of _ clk']) simp
  next
    case False
    then have "h k = Some m" using assms(4) [OF h'] by simp
    then obtain j clk'' where j: "cl j = Some clk''" "batch_map clk'' k = Some m"
      by (rule publishedD [OF assms(1)])
    with False h' assms(2,3) have "j \<noteq> i" by (metis option.inject option.distinct(1))
    with j show ?thesis by (intro exI [of _ j] exI [of _ clk'']) simp
  qed
qed

lemma published_put:
  assumes "published cl h" and "cl i = Some clk" and "batch_map clk' = (batch_map clk)(k \<mapsto> m)"
  shows "published (cl(i \<mapsto> clk')) (h(k \<mapsto> m))"
  by (rule published_mono [OF assms(1), where clk = clk]) (use assms in \<open>auto split: if_splits\<close>)

lemma published_erase:
  assumes pub: "published cl h" and i: "cl i = Some clk" and wf: "clerk_wf clk"
  shows "published (cl(i := None)) (erase_keys (key_batch clk) h)"
  unfolding published_def
proof (intro allI impI)
  fix k m assume h: "erase_keys (key_batch clk) h k = Some m"
  then have "h k = Some m" and k: "k \<notin> set (key_batch clk)"
    by (auto simp: erase_keys_eq split: if_splits)
  then obtain j clk' where j: "cl j = Some clk'" "batch_map clk' k = Some m"
    by (metis publishedD [OF pub])
  have "k \<notin> dom (batch_map clk)" using k batch_map_dom wf by (simp add: clerk_wf_def)
  with j i have "j \<noteq> i" by auto
  with j show "\<exists>j clk'. (cl(i := None)) j = Some clk' \<and> batch_map clk' k = Some m"
    by (intro exI [of _ j] exI [of _ clk']) simp
qed

lemma published_new:
  assumes "published cl h" and "cl i = None"
  shows "published (cl(i \<mapsto> clk)) h"
  by (rule published_mono [OF assms(1), where clk = clk]) (use assms in auto)

lemma published_value:
  assumes hold: "holds_chunks cl pend taken" and pub: "published cl h" and h: "h k = Some m"
    and i: "cl i = Some clk" and off: "unat (clk_chunk_offset clk) + unat (clk_buf_head clk) \<le> off"
    and fin: "off + length xs \<le> unat (clk_chunk_offset clk) + MAX_ASYNC_SIZE"
  shows "mem_value (wr wb off xs) m = mem_value wb m" and "unat (m_key_size m) = length k"
    and "memaddr (m_addr m) + length k + unat (m_value_size m) \<le> MAX_DMABUF_SIZE"
proof -
  obtain j clk' where j: "cl j = Some clk'" "batch_map clk' k = Some m" by (rule publishedD [OF pub h])
  have wf: "clerk_wf clk'" "clerk_wf clk" using hold j(1) i by (auto dest: holds_chunksD)
  note b = batch_map_SomeD [OF wf(1) j(2)]
  show "unat (m_key_size m) = length k" by (fact b(1))
  show "memaddr (m_addr m) + length k + unat (m_value_size m) \<le> MAX_DMABUF_SIZE"
    using b(4) clerk_wf_end [OF wf(1)] wf(1) by (simp add: clerk_wf_def)
  have "memaddr (m_addr m) + unat (m_key_size m) + unat (m_value_size m) \<le> off \<or>
      off + length xs \<le> memaddr (m_addr m) + unat (m_key_size m)"
  proof (cases "j = i")
    case True
    with i j(1) b off show ?thesis by simp
  next
    case False
    then have "chunk_slot clk' \<noteq> chunk_slot clk" using holds_chunksD(4) [OF hold j(1) i] by blast
    then consider "chunk_slot clk' + 1 \<le> chunk_slot clk" | "chunk_slot clk + 1 \<le> chunk_slot clk'" by linarith
    then show ?thesis
    proof cases
      case 1
      then have "MAX_ASYNC_SIZE * chunk_slot clk' + MAX_ASYNC_SIZE \<le> MAX_ASYNC_SIZE * chunk_slot clk"
        by (metis mult.right_neutral mult_le_mono2 distrib_left)
      with b wf off show ?thesis by (simp add: clerk_wf_def)
    next
      case 2
      then have "MAX_ASYNC_SIZE * chunk_slot clk + MAX_ASYNC_SIZE \<le> MAX_ASYNC_SIZE * chunk_slot clk'"
        by (metis mult.right_neutral mult_le_mono2 distrib_left)
      with b wf fin show ?thesis by (simp add: clerk_wf_def)
    qed
  qed
  then show "mem_value (wr wb off xs) m = mem_value wb m"
    by (simp add: mem_value_def rd_wr_disjoint)
qed

section \<open>The invariant\<close>

definition clerks_of :: "'d pmr_sys \<Rightarrow> clerks" where
  "clerks_of s i = map_option (\<lambda>(c, l, clk). clk) (conns s i)"

definition pending :: "'d pmr_sys \<Rightarrow> nat list" where
  "pending s = map (\<lambda>(buf, n, cid). cid) (global_queue (server s)) @ map sqe_chunk (in_ring (ring s))"

text \<open>Between two calls, client and clerk agree on the chunk and on the position in it.\<close>

definition conns_ok :: "'d pmr_sys \<Rightarrow> bool" where
  "conns_ok s \<longleftrightarrow> (\<forall>i c l clk. conns s i = Some (c, l, clk) \<longrightarrow> header (local_buf l) = CLIENT_DONE \<and>
     chunk_offset c = clk_chunk_offset clk \<and> buf_head c = clk_buf_head clk)"

definition small_values :: "(bytes \<rightharpoonup> bytes) \<Rightarrow> bool" where
  "small_values cont \<longleftrightarrow> (\<forall>k v. cont k = Some v \<longrightarrow> length v + 16 \<le> MAX_REQUEST)"

definition pmr_inv :: "('d \<Rightarrow> bool) \<Rightarrow> ('d \<Rightarrow> (bytes \<rightharpoonup> bytes)) \<Rightarrow> 'd pmr_sys \<Rightarrow> bool" where
  "pmr_inv db_inv contents s \<longleftrightarrow> db_inv (srv_db (server s)) \<and> small_values (contents (srv_db (server s))) \<and>
     bs_inv (srv_bitmap (server s)) \<and>
     bs_size (srv_bitmap (server s)) = MAX_DMABUF_SIZE div MAX_ASYNC_SIZE \<and>
     holds_chunks (clerks_of s) (pending s) (bs_bits (srv_bitmap (server s))) \<and>
     published (clerks_of s) (srv_map (server s)) \<and> conns_ok s \<and> log_inv (ring s) \<and> qd (ring s) = 64"

text \<open>
  The contents a client observes. A clerk's batch is \<open>exclusive\<close> when its descriptors are the ones in
  the hash map: no other clerk has written one of its keys since.
\<close>

definition pmr_view :: "('d \<Rightarrow> (bytes \<rightharpoonup> bytes)) \<Rightarrow> 'd pmr_sys \<Rightarrow> (bytes \<rightharpoonup> bytes)" where
  "pmr_view contents s k = (case srv_map (server s) k of
     Some m \<Rightarrow> Some (mem_value (dmabuf s) m) | None \<Rightarrow> contents (srv_db (server s)) k)"

definition exclusive :: "clerks \<Rightarrow> (bytes, Meta) cuckoohash_map \<Rightarrow> bool" where
  "exclusive cl h \<longleftrightarrow> (\<forall>i clk. cl i = Some clk \<longrightarrow> batch_map clk \<subseteq>\<^sub>m h)"

lemma exclusiveD:
  "exclusive cl h \<Longrightarrow> cl i = Some clk \<Longrightarrow> batch_map clk k = Some m \<Longrightarrow> h k = Some m"
  by (metis exclusive_def domI map_le_def)

text \<open>A change that no client observes.\<close>

definition keeps_view :: "('d \<Rightarrow> (bytes \<rightharpoonup> bytes)) \<Rightarrow> 'd pmr_sys \<Rightarrow> 'd pmr_sys \<Rightarrow> bool" where
  "keeps_view contents s s' \<longleftrightarrow> (exclusive (clerks_of s) (srv_map (server s)) \<longrightarrow>
     exclusive (clerks_of s') (srv_map (server s')) \<and> pmr_view contents s' = pmr_view contents s)"

lemma keeps_viewI:
  "clerks_of s' = clerks_of s \<Longrightarrow> srv_map (server s') = srv_map (server s) \<Longrightarrow>
   srv_db (server s') = srv_db (server s) \<Longrightarrow> dmabuf s' = dmabuf s \<Longrightarrow> keeps_view contents s s'"
proof -
  assume eq: "clerks_of s' = clerks_of s" "srv_map (server s') = srv_map (server s)"
    "srv_db (server s') = srv_db (server s)" "dmabuf s' = dmabuf s"
  have "pmr_view contents s' = pmr_view contents s" by (rule ext) (simp add: pmr_view_def eq split: option.split)
  with eq show ?thesis by (simp add: keeps_view_def)
qed

lemma clerks_of_leave:
  "clerks_of (leave s i c (l, clk, srv)) = (clerks_of s)(i \<mapsto> clk)"
  by (auto simp: clerks_of_def leave_def fun_eq_iff)

lemma leave_fields [simp]:
  "server (leave s i c (l, clk, srv)) = srv" "dmabuf (leave s i c (l, clk, srv)) = write_buf l"
  "ring (leave s i c (l, clk, srv)) = ring s" "conns (leave s i c (l, clk, srv)) = (conns s)(i \<mapsto> (c, l, clk))"
  by (simp_all add: leave_def)

lemma conns_ok_leave:
  "conns_ok s \<Longrightarrow> header (local_buf l) = CLIENT_DONE \<Longrightarrow> chunk_offset c = clk_chunk_offset clk \<Longrightarrow>
   buf_head c = clk_buf_head clk \<Longrightarrow> conns_ok (leave s i c (l, clk, srv))"
  by (auto simp: conns_ok_def)

lemma conn_facts:
  assumes inv: "pmr_inv db_inv contents s" and i: "conns s i = Some (c, l, clk)"
  shows "clerks_of s i = Some clk" and "clerk_wf clk" and "header (local_buf l) = CLIENT_DONE"
    and "chunk_offset c = clk_chunk_offset clk" and "buf_head c = clk_buf_head clk"
proof -
  show c: "clerks_of s i = Some clk" using i by (simp add: clerks_of_def)
  show "clerk_wf clk" using inv c by (auto simp: pmr_inv_def dest: holds_chunksD)
  show "header (local_buf l) = CLIENT_DONE" "chunk_offset c = clk_chunk_offset clk"
    "buf_head c = clk_buf_head clk"
    using inv i unfolding pmr_inv_def conns_ok_def by metis+
qed

text \<open>A record written to the chunk of connection \<open>i\<close>.\<close>

lemma write_record_inv:
  assumes inv: "pmr_inv db_inv contents s" and i: "conns s i = Some (c, l, clk)"
    and room: "unat (clk_buf_head clk) + (8 + length key + length val) < MAX_ASYNC_SIZE"
    and small: "length val + 16 \<le> MAX_REQUEST"
    and c': "chunk_offset c' = chunk_offset c" "buf_head c' = buf_head c + of_nat (8 + length key + length val)"
    and l': "header (local_buf l') = CLIENT_DONE"
      "write_buf l' = wr (dmabuf s) (unat (clk_chunk_offset clk) + unat (clk_buf_head clk)) (req @ key @ val)"
    and req: "length req = 8"
    and s': "s' = leave s i c' (l', push_record clk key (length val), publish clk key (length val) (server s))"
  shows "pmr_inv db_inv contents s'" and "pmr_view contents s' = (pmr_view contents s)(key \<mapsto> val)"
    and "exclusive (clerks_of s) (srv_map (server s)) \<Longrightarrow>
      (\<And>j clk'. j \<noteq> i \<Longrightarrow> clerks_of s j = Some clk' \<Longrightarrow> key \<notin> set (key_batch clk')) \<Longrightarrow>
      exclusive (clerks_of s') (srv_map (server s'))"
proof -
  note f = conn_facts [OF inv i]
  note p = push_record_wf [OF f(2) room small]
  let ?clk = "push_record clk key (length val)" and ?m = "mem_record clk key (length val)"
  have cl: "clerks_of s' = (clerks_of s)(i \<mapsto> ?clk)" by (simp add: s' clerks_of_leave)
  have map': "srv_map (server s') = (srv_map (server s))(key \<mapsto> ?m)" by (simp add: s' publish_def)
  have pend: "pending s' = pending s" by (simp add: s' pending_def publish_def)
  have h: "holds_chunks (clerks_of s') (pending s) (bs_bits (srv_bitmap (server s)))"
    unfolding cl using inv f(1) p by (intro holds_same) (auto simp: pmr_inv_def)
  have pub: "published (clerks_of s') (srv_map (server s'))"
    unfolding cl map' using inv f(1) p by (intro published_put) (auto simp: pmr_inv_def)
  have conns: "conns_ok s'"
    unfolding s' using inv f c' l' by (intro conns_ok_leave) (auto simp: pmr_inv_def push_record_def)
  show "pmr_inv db_inv contents s'"
    using inv h pub conns pend by (simp add: pmr_inv_def s' publish_def)
  have fin: "unat (clk_chunk_offset clk) + unat (clk_buf_head clk) + length (req @ key @ val) \<le>
      unat (clk_chunk_offset clk) + MAX_ASYNC_SIZE" using room req by simp
  have old: "mem_value (dmabuf s') m = mem_value (dmabuf s) m" if "srv_map (server s) k = Some m" for k m
    using published_value(1) [where cl = "clerks_of s" and h = "srv_map (server s)" and i = i and k = k,
        OF _ _ that f(1) _ fin] inv by (auto simp: pmr_inv_def s' l'(2))
  have kl: "unat (of_nat (length key) :: u32) = length key" "unat (of_nat (length val) :: u32) = length val"
      "take_bit 31 (of_nat (length key) :: u32) = of_nat (length key)"
    using room by (simp_all add: MAX_ASYNC_SIZE_def unat_of_nat take_bit_31)
  have new: "mem_value (dmabuf s') ?m = val"
    using req by (simp add: mem_value_def mem_record_def Meta_mem_def s' l'(2) kl rd_wr_inside)
  show "pmr_view contents s' = (pmr_view contents s)(key \<mapsto> val)"
    using old new by (auto simp: pmr_view_def map' fun_eq_iff s' publish_def split: option.splits)
  assume ex: "exclusive (clerks_of s) (srv_map (server s))"
    and other: "\<And>j clk'. j \<noteq> i \<Longrightarrow> clerks_of s j = Some clk' \<Longrightarrow> key \<notin> set (key_batch clk')"
  show "exclusive (clerks_of s') (srv_map (server s'))"
    unfolding exclusive_def
  proof (intro allI impI)
    fix j clk' assume j: "clerks_of s' j = Some clk'"
    show "batch_map clk' \<subseteq>\<^sub>m srv_map (server s')"
    proof (cases "j = i")
      case True
      with j cl p(4) ex f(1) show ?thesis by (auto simp: map' exclusive_def map_le_def)
    next
      case False
      with j have j': "clerks_of s j = Some clk'" by (simp add: cl)
      then have "clerk_wf clk'" using inv by (auto simp: pmr_inv_def dest: holds_chunksD)
      then have "key \<notin> dom (batch_map clk')"
        using batch_map_dom other [OF False j'] by (simp add: clerk_wf_def)
      with ex j' show ?thesis by (auto simp: map' exclusive_def map_le_def)
    qed
  qed
qed

text \<open>The flush of connection \<open>i\<close>: its chunk moves to the log writer's queue.\<close>

definition flush_conn :: "'d pmr_sys \<Rightarrow> nat \<Rightarrow> 'd PMRServer \<Rightarrow> 'd pmr_sys" where
  "flush_conn s i srv = s\<lparr>conns := (conns s)(i := None), server := srv\<rparr>"

lemma clerks_of_flush [simp]: "clerks_of (flush_conn s i srv) = (clerks_of s)(i := None)"
  by (auto simp: clerks_of_def flush_conn_def fun_eq_iff)

lemma flush_conn_fields [simp]:
  "server (flush_conn s i srv) = srv" "dmabuf (flush_conn s i srv) = dmabuf s"
  "ring (flush_conn s i srv) = ring s" "conns (flush_conn s i srv) i = None"
  by (simp_all add: flush_conn_def)

context kv_store
begin

lemma flush_inv:
  assumes inv: "pmr_inv inv contents s" and i: "conns s i = Some (c, l, clk)"
  obtains d' where "flush_batch vt (dmabuf s) clk len (server s) = Inr (flushed d' (dmabuf s) clk (server s))"
    and "pmr_inv inv contents (flush_conn s i (flushed d' (dmabuf s) clk (server s)))"
    and "exclusive (clerks_of s) (srv_map (server s)) \<Longrightarrow>
      pmr_view contents (flush_conn s i (flushed d' (dmabuf s) clk (server s))) = pmr_view contents s"
    and "exclusive (clerks_of s) (srv_map (server s)) \<Longrightarrow>
      exclusive ((clerks_of s)(i := None)) (erase_keys (key_batch clk) (srv_map (server s)))"
proof -
  note f = conn_facts [OF inv i]
  have db: "inv (srv_db (server s))" using inv by (simp add: pmr_inv_def)
  obtain d' where fl: "flush_batch vt (dmabuf s) clk len (server s) = Inr (flushed d' (dmabuf s) clk (server s))"
    and d': "inv d'" "\<And>k. contents d' k = (case batch_map clk k of Some m \<Rightarrow> Some (mem_value (dmabuf s) m)
      | None \<Rightarrow> contents (srv_db (server s)) k)"
    using flush_batch_ok [OF f(2) db, of "dmabuf s" len] by blast
  let ?srv = "flushed d' (dmabuf s) clk (server s)" and ?s = "flush_conn s i (flushed d' (dmabuf s) clk (server s))"
  have "mset (pending ?s) = mset (pending s @ [chunk_slot clk])"
    by (simp add: pending_def flushed_def chunk_slot_def)
  then have h: "holds_chunks (clerks_of ?s) (pending ?s) (bs_bits (srv_bitmap (server s)))"
    using inv f(1) unfolding clerks_of_flush
    by (intro holds_mset [OF holds_queue [where clk = clk]]) (auto simp: pmr_inv_def)
  have pub: "published (clerks_of ?s) (srv_map ?srv)"
    using published_erase [where cl = "clerks_of s" and i = i, OF _ f(1,2)] inv by (simp add: pmr_inv_def flushed_def)
  have "conns_ok ?s" using inv by (auto simp: pmr_inv_def conns_ok_def flush_conn_def)
  moreover have "small_values (contents d')"
    unfolding small_values_def d'(2)
  proof (intro allI impI)
    fix k v
    assume "(case batch_map clk k of Some m \<Rightarrow> Some (mem_value (dmabuf s) m)
      | None \<Rightarrow> contents (srv_db (server s)) k) = Some v"
    then show "length v + 16 \<le> MAX_REQUEST"
      using inv batch_map_SomeD(3) [OF f(2), of k]
      by (auto simp: pmr_inv_def small_values_def mem_value_def split: option.splits)
  qed
  ultimately have inv': "pmr_inv inv contents ?s" using inv h pub d'(1) by (simp add: pmr_inv_def flushed_def)
  have dom: "dom (batch_map clk) = set (key_batch clk)"
    using f(2) by (intro batch_map_dom) (simp add: clerk_wf_def)
  have view: "pmr_view contents ?s = pmr_view contents s" if ex: "exclusive (clerks_of s) (srv_map (server s))"
  proof
    fix k
    show "pmr_view contents ?s k = pmr_view contents s k"
    proof (cases "batch_map clk k")
      case None
      then have "k \<notin> set (key_batch clk)" using dom by auto
      with None d'(2) show ?thesis by (simp add: pmr_view_def flushed_def erase_keys_eq split: option.splits)
    next
      case (Some m)
      then have "k \<in> set (key_batch clk)" using dom by auto
      moreover have "srv_map (server s) k = Some m"
        using exclusiveD [OF ex f(1) Some] .
      ultimately show ?thesis using Some d'(2) by (simp add: pmr_view_def flushed_def erase_keys_eq)
    qed
  qed
  have ex': "exclusive ((clerks_of s)(i := None)) (erase_keys (key_batch clk) (srv_map (server s)))"
    if ex: "exclusive (clerks_of s) (srv_map (server s))"
    unfolding exclusive_def
  proof (intro allI impI)
    fix j clk' assume "((clerks_of s)(i := None)) j = Some clk'"
    then have j: "j \<noteq> i" "clerks_of s j = Some clk'" by (auto split: if_splits)
    have "batch_map clk' k = erase_keys (key_batch clk) (srv_map (server s)) k" if kd: "k \<in> dom (batch_map clk')" for k
    proof -
      obtain m where m: "batch_map clk' k = Some m" using kd by auto
      have h: "srv_map (server s) k = Some m" using exclusiveD [OF ex j(2) m] .
      have "k \<notin> set (key_batch clk)"
      proof
        assume "k \<in> set (key_batch clk)"
        then obtain m' where m': "batch_map clk k = Some m'" using dom by auto
        then have "m' = m" using exclusiveD [OF ex f(1) m'] h by simp
        moreover have hc: "holds_chunks (clerks_of s) (pending s) (bs_bits (srv_bitmap (server s)))"
          using inv by (simp add: pmr_inv_def)
        ultimately have "chunk_slot clk = chunk_slot clk'"
          using batch_in_chunk [OF f(2) m'] batch_in_chunk [OF holds_chunksD(1) [OF hc j(2)] m] by simp
        then show False using holds_chunksD(4) [OF hc f(1) j(2)] j(1) by simp
      qed
      with h m show ?thesis by (simp add: erase_keys_eq)
    qed
    then show "batch_map clk' \<subseteq>\<^sub>m erase_keys (key_batch clk) (srv_map (server s))" by (simp add: map_le_def)
  qed
  show thesis using that [OF fl inv' view ex'] .
qed

text \<open>A chunk handed to connection \<open>i\<close>, which holds none.\<close>

lemma take_chunk_inv:
  assumes inv: "pmr_inv inv contents s" and i: "conns s i = None"
    and bits: "blindset (srv_bitmap (server s)) = Some (Inr (slot, bm))"
    and c: "chunk_offset c = of_nat (MAX_ASYNC_SIZE * slot)" "buf_head c = 0"
    and l: "header (local_buf l) = CLIENT_DONE" "write_buf l = dmabuf s"
    and s': "s' = leave s i c (l, fresh_chunk slot clk, (server s)\<lparr>srv_bitmap := bm\<rparr>)"
  shows "pmr_inv inv contents s'" and "pmr_view contents s' = pmr_view contents s"
    and "exclusive (clerks_of s) (srv_map (server s)) \<Longrightarrow> exclusive (clerks_of s') (srv_map (server s'))"
proof -
  have n: "clerks_of s i = None" using i by (simp add: clerks_of_def)
  have b: "slot < MAX_DMABUF_SIZE div MAX_ASYNC_SIZE" "slot \<notin> bs_bits (srv_bitmap (server s))"
    "bs_bits bm = insert slot (bs_bits (srv_bitmap (server s)))" "bs_inv bm"
    "bs_size bm = MAX_DMABUF_SIZE div MAX_ASYNC_SIZE"
    using chunk_bits.alloc_fresh [OF _ bits] inv by (auto simp: pmr_inv_def)
  note w = fresh_chunk_wf [OF b(1)]
  have cl: "clerks_of s' = (clerks_of s)(i \<mapsto> fresh_chunk slot clk)" by (simp add: s' clerks_of_leave)
  have h: "holds_chunks (clerks_of s') (pending s) (bs_bits bm)"
    using holds_take [where cl = "clerks_of s" and i = i and clk = "fresh_chunk slot clk"
        and pend = "pending s" and taken = "bs_bits (srv_bitmap (server s))"] n w(1,2) b inv
    by (simp add: cl pmr_inv_def)
  have pub: "published (clerks_of s') (srv_map (server s))"
    unfolding cl using inv n by (intro published_new) (auto simp: pmr_inv_def)
  have "conns_ok s'"
    unfolding s' using inv c l by (intro conns_ok_leave) (auto simp: pmr_inv_def fresh_chunk_def)
  with inv h pub b show "pmr_inv inv contents s'" by (simp add: pmr_inv_def s' pending_def)
  show "pmr_view contents s' = pmr_view contents s" by (simp add: pmr_view_def fun_eq_iff s' l(2) split: option.split)
  have "srv_map (server s') = srv_map (server s)" by (simp add: s')
  then show "exclusive (clerks_of s) (srv_map (server s)) \<Longrightarrow> exclusive (clerks_of s') (srv_map (server s'))"
    unfolding cl by (auto simp: exclusive_def w(3) split: if_splits)
qed

lemma leave_flush [simp]: "leave (flush_conn s i srv) i c st = leave s i c st"
  by (cases st) (simp add: leave_def flush_conn_def)

lemma offset_below_max: "clerk_wf clk \<Longrightarrow> clk_chunk_offset clk < UINT32_MAX"
  using clerk_wf_end [of clk]
  by (simp add: UINT32_MAX_def MAX_DMABUF_SIZE_def word_less_nat_alt)

text \<open>
  \<open>SendAlloc\<close> of a connection in a state that satisfies the invariant: it returns unless every chunk is
  taken, and what the clients observe stays the same.
\<close>

lemma alloc_call:
  assumes rw: "rdma_delivers rw" and inv: "pmr_inv inv contents s" and i: "conns s i = Some (c, l, clk)"
  shows "PMRClient_SendAlloc rw vt c (enter s l clk) = Inr None \<and>
      bs_bits (srv_bitmap (server s)) = {..<bs_size (srv_bitmap (server s))} \<or>
    (\<exists>c' l' clk' srv'. PMRClient_SendAlloc rw vt c (enter s l clk) = Inr (Some (c', l', clk', srv')) \<and>
      pmr_inv inv contents (leave s i c' (l', clk', srv')) \<and> buf_head c' = 0 \<and>
      keeps_view contents s (leave s i c' (l', clk', srv')) \<and> write_buf l' = dmabuf s)"
proof -
  note f = conn_facts [OF inv i]
  let ?l = "l\<lparr>write_buf := dmabuf s\<rparr>"
  obtain d' where fl: "flush_batch vt (dmabuf s) clk (clk_buf_head clk) (server s) =
      Inr (flushed d' (dmabuf s) clk (server s))"
    and inv1: "pmr_inv inv contents (flush_conn s i (flushed d' (dmabuf s) clk (server s)))"
    and view1: "exclusive (clerks_of s) (srv_map (server s)) \<Longrightarrow>
      pmr_view contents (flush_conn s i (flushed d' (dmabuf s) clk (server s))) = pmr_view contents s"
    and ex1: "exclusive (clerks_of s) (srv_map (server s)) \<Longrightarrow>
      exclusive ((clerks_of s)(i := None)) (erase_keys (key_batch clk) (srv_map (server s)))"
    using flush_inv [OF inv i, of "clk_buf_head clk"] by blast
  define s1 where "s1 = flush_conn s i (flushed d' (dmabuf s) clk (server s))"
  have bm: "srv_bitmap (server s1) = srv_bitmap (server s)" by (simp add: s1_def flushed_def)
  have call: "header (local_buf ?l) = CLIENT_DONE"
    "flush_batch vt (write_buf ?l) clk (clk_buf_head clk) (server s) = Inr (server s1)"
    using f(3) fl by (simp_all add: s1_def)
  show ?thesis
  proof (cases "blindset (srv_bitmap (server s1))")
    case None
    have "PMRClient_SendAlloc rw vt c (?l, clk, server s) = Inr None"
      using offset_below_max [OF f(2)]
      by (intro pmr_send_alloc_blocked [OF rw call(1) call(2) _ None]) simp
    moreover have "bs_bits (srv_bitmap (server s)) = {..<bs_size (srv_bitmap (server s))}"
      using None inv blindset_returns [of "srv_bitmap (server s)"] unfolding bm by (auto simp: pmr_inv_def)
    ultimately show ?thesis by (simp add: enter_def)
  next
    case (Some r)
    then obtain slot b where b: "blindset (srv_bitmap (server s1)) = Some (Inr (slot, b))"
      using chunk_bits.alloc_SomeD [of "srv_bitmap (server s1)" r] inv1 by (auto simp: pmr_inv_def s1_def)
    obtain l' where l': "PMRClient_SendAlloc rw vt c (?l, clk, server s) =
        Inr (Some (c\<lparr>chunk_offset := of_nat (MAX_ASYNC_SIZE * slot), buf_head := 0\<rparr>, l',
          fresh_chunk slot clk, (server s1)\<lparr>srv_bitmap := b\<rparr>))"
      "header (local_buf l') = CLIENT_DONE" "write_buf l' = write_buf ?l"
      using pmr_send_alloc [where l = ?l and clk = clk and s = "server s" and c = c, OF rw call(1) call(2) _ b]
        offset_below_max [OF f(2)] by blast
    let ?c = "c\<lparr>chunk_offset := of_nat (MAX_ASYNC_SIZE * slot), buf_head := 0\<rparr>"
    have n: "conns s1 i = None" by (simp add: s1_def)
    have l1: "write_buf l' = dmabuf s1" using l'(3) by (simp add: s1_def)
    note t = take_chunk_inv [where clk = clk and c = ?c, OF inv1 [folded s1_def] n b _ _ l'(2) l1 refl]
    let ?s' = "leave s1 i ?c (l', fresh_chunk slot clk, (server s1)\<lparr>srv_bitmap := b\<rparr>)"
    have "keeps_view contents s ?s'"
      using t(2,3) view1 ex1 by (simp add: keeps_view_def s1_def [symmetric]) (simp add: s1_def flushed_def)
    moreover have "?s' = leave s i ?c (l', fresh_chunk slot clk, (server s1)\<lparr>srv_bitmap := b\<rparr>)"
      by (simp add: s1_def)
    ultimately show ?thesis using l' t(1) by (auto simp: enter_def)
  qed
qed

text \<open>The part of \<open>SendWrite\<close> after a possible allocation.\<close>

lemma write_record_call:
  assumes rw: "rdma_delivers rw" and inv: "pmr_inv inv contents s" and i: "conns s i = Some (c, l, clk)"
    and p: "p = PUT \<or> p = UPDATE" and fits: "length key + length val + 16 \<le> MAX_REQUEST"
    and room: "unat (buf_head c) + (8 + length key + length val) < MAX_ASYNC_SIZE"
  shows "\<exists>c' l' clk' srv'. PMRClient_write_record rw vt key val p c (enter s l clk) =
      Inr (Some (c', l', clk', srv')) \<and> pmr_inv inv contents (leave s i c' (l', clk', srv')) \<and>
    pmr_view contents (leave s i c' (l', clk', srv')) = (pmr_view contents s)(key \<mapsto> val) \<and>
    srv_map srv' key \<noteq> None \<and>
    (exclusive (clerks_of s) (srv_map (server s)) \<longrightarrow>
      (\<forall>j clk'. j \<noteq> i \<longrightarrow> clerks_of s j = Some clk' \<longrightarrow> key \<notin> set (key_batch clk')) \<longrightarrow>
      exclusive (clerks_of (leave s i c' (l', clk', srv'))) (srv_map srv'))"
proof -
  note f = conn_facts [OF inv i]
  have room': "unat (chunk_offset c) + unat (buf_head c) + (8 + length key + length val) \<le> MAX_DMABUF_SIZE"
    using room clerk_wf_end [OF f(2)] unfolding f(4,5) by simp
  have idle: "header (local_buf (l\<lparr>write_buf := dmabuf s\<rparr>)) = CLIENT_DONE" using f(3) by simp
  have small: "length val + 16 \<le> MAX_REQUEST" using fits by simp
  obtain l' where l': "PMRClient_write_record rw vt key val p c (l\<lparr>write_buf := dmabuf s\<rparr>, clk, server s) =
      Inr (Some (c\<lparr>buf_head := buf_head c + of_nat (8 + length key + length val)\<rparr>, l',
        push_record clk key (length val), publish clk key (length val) (server s)))"
    "header (local_buf l') = CLIENT_DONE"
    "write_buf l' = wr (dmabuf s) (unat (clk_chunk_offset clk) + unat (clk_buf_head clk))
      (request_bytes (op_code p) (of_nat (length key)) (of_nat (length val)) @ key @ val)"
    using pmr_write_record [where c = c and clk = clk and s = "server s" and vt = vt, OF rw p idle fits room'] f(4,5)
    by auto
  define c' where "c' = c\<lparr>buf_head := buf_head c + of_nat (8 + length key + length val)\<rparr>"
  have c': "chunk_offset c' = chunk_offset c" "buf_head c' = buf_head c + of_nat (8 + length key + length val)"
    by (simp_all add: c'_def)
  note w = write_record_inv [where c' = c', OF inv i room [unfolded f(5)] small c' l'(2,3) _ refl]
  let ?st = "(l', push_record clk key (length val), publish clk key (length val) (server s))"
  have "PMRClient_write_record rw vt key val p c (enter s l clk) = Inr (Some (c', ?st))"
    using l'(1) by (simp add: enter_def c'_def)
  moreover have "pmr_inv inv contents (leave s i c' ?st)" by (rule w(1)) simp
  moreover have "pmr_view contents (leave s i c' ?st) = (pmr_view contents s)(key \<mapsto> val)" by (rule w(2)) simp
  moreover have "exclusive (clerks_of (leave s i c' ?st)) (srv_map (server (leave s i c' ?st)))"
    if "exclusive (clerks_of s) (srv_map (server s))"
      "\<forall>j clk'. j \<noteq> i \<longrightarrow> clerks_of s j = Some clk' \<longrightarrow> key \<notin> set (key_batch clk')"
    by (rule w(3)) (use that in auto)
  moreover have "srv_map (publish clk key (length val) (server s)) key \<noteq> None" by (simp add: publish_def)
  ultimately show ?thesis by (metis leave_fields(1))
qed

text \<open>
  \<open>SendWrite\<close> as a whole. \<open>undisturbed\<close> says that no other clerk has the key in its current batch.
\<close>

lemma write_call:
  assumes rw: "rdma_delivers rw" and inv: "pmr_inv inv contents s" and i: "conns s i = Some (c, l, clk)"
    and p: "p = PUT \<or> p = UPDATE" and fits: "length key + length val + 16 \<le> MAX_REQUEST"
  shows "PMRClient_SendWrite rw vt c (enter s l clk) key val p = Inr None \<and>
      bs_bits (srv_bitmap (server s)) = {..<bs_size (srv_bitmap (server s))} \<and>
      MAX_ASYNC_SIZE \<le> unat (buf_head c) + (8 + length key + length val) \<or>
    (\<exists>c' l' clk' srv'. PMRClient_SendWrite rw vt c (enter s l clk) key val p = Inr (Some (c', l', clk', srv')) \<and>
      pmr_inv inv contents (leave s i c' (l', clk', srv')) \<and> srv_map srv' key \<noteq> None \<and>
      (exclusive (clerks_of s) (srv_map (server s)) \<longrightarrow>
        pmr_view contents (leave s i c' (l', clk', srv')) = (pmr_view contents s)(key \<mapsto> val) \<and>
        ((\<forall>j clk'. j \<noteq> i \<longrightarrow> clerks_of s j = Some clk' \<longrightarrow> key \<notin> set (key_batch clk')) \<longrightarrow>
         exclusive (clerks_of (leave s i c' (l', clk', srv'))) (srv_map srv'))))"
proof -
  note f = conn_facts [OF inv i]
  define need where "need = unat (buf_head c + ucast (total_len16 (len16 key) (len16 val)))"
  have t: "unat (total_len16 (len16 key) (len16 val)) = 8 + length key + length val"
    using fits by (intro total_len16_small) (simp add: wire_consts)
  have head: "unat (buf_head c) < MAX_ASYNC_SIZE" using f(2) unfolding f(5) by (simp add: clerk_wf_def)
  have u: "(ucast (total_len16 (len16 key) (len16 val)) :: u32) = of_nat (8 + length key + length val)"
    using t by (metis of_nat_unat)
  have need: "need = unat (buf_head c) + (8 + length key + length val)"
    unfolding need_def u using head fits by (simp add: unat_word_ariths unat_of_nat wire_consts)
  show ?thesis
  proof (cases "MAX_ASYNC_SIZE \<le> need")
    case False
    then have "PMRClient_SendWrite rw vt c (enter s l clk) key val p =
        PMRClient_write_record rw vt key val p c (enter s l clk)"
      by (simp add: PMRClient_SendWrite_def need_def)
    moreover have "unat (buf_head c) + (8 + length key + length val) < MAX_ASYNC_SIZE"
      using False need by simp
    ultimately show ?thesis using write_record_call [OF rw inv i p fits] by fastforce
  next
    case True
    note step = PMRClient_SendWrite_def need_def [symmetric]
    from alloc_call [OF rw inv i] show ?thesis
    proof (elim disjE exE conjE)
      assume "PMRClient_SendAlloc rw vt c (enter s l clk) = Inr None"
        "bs_bits (srv_bitmap (server s)) = {..<bs_size (srv_bitmap (server s))}"
      then show ?thesis using True need by (simp add: step)
    next
      fix c1 l1 clk1 srv1
      let ?s1 = "leave s i c1 (l1, clk1, srv1)"
      assume a: "PMRClient_SendAlloc rw vt c (enter s l clk) = Inr (Some (c1, l1, clk1, srv1))"
        and inv1: "pmr_inv inv contents ?s1" and h0: "buf_head c1 = 0" and kv: "keeps_view contents s ?s1"
        and wb: "write_buf l1 = dmabuf s"
      have i1: "conns ?s1 i = Some (c1, l1, clk1)" by simp
      have e1: "enter ?s1 l1 clk1 = (l1, clk1, srv1)" by (simp add: enter_def)
      have room: "unat (buf_head c1) + (8 + length key + length val) < MAX_ASYNC_SIZE"
        using fits h0 by (simp add: wire_consts)
      obtain c2 l2 clk2 srv2 where r: "PMRClient_write_record rw vt key val p c1 (l1, clk1, srv1) =
          Inr (Some (c2, l2, clk2, srv2))"
        and inv2: "pmr_inv inv contents (leave ?s1 i c2 (l2, clk2, srv2))"
        and v2: "pmr_view contents (leave ?s1 i c2 (l2, clk2, srv2)) = (pmr_view contents ?s1)(key \<mapsto> val)"
        and m2: "srv_map srv2 key \<noteq> None" and x2: "exclusive (clerks_of ?s1) (srv_map srv1) \<longrightarrow>
          (\<forall>j clk'. j \<noteq> i \<longrightarrow> clerks_of ?s1 j = Some clk' \<longrightarrow> key \<notin> set (key_batch clk')) \<longrightarrow>
          exclusive (clerks_of (leave ?s1 i c2 (l2, clk2, srv2))) (srv_map srv2)"
        using write_record_call [OF rw inv1 i1 p fits room] unfolding e1 leave_fields(1) by blast
      have l2: "leave ?s1 i c2 (l2, clk2, srv2) = leave s i c2 (l2, clk2, srv2)"
        by (simp add: leave_def)
      have others: "clerks_of ?s1 j = clerks_of s j" if "j \<noteq> i" for j
        using that by (simp add: clerks_of_leave)
      have "PMRClient_SendWrite rw vt c (enter s l clk) key val p = Inr (Some (c2, l2, clk2, srv2))"
        using True a r by (simp add: step)
      then show ?thesis
        using inv2 v2 x2 m2 kv others unfolding l2 keeps_view_def by (simp add: leave_fields(1))
    qed
  qed
qed

lemma get_call:
  assumes rw: "rdma_delivers rw" and inv: "pmr_inv inv contents s" and i: "conns s i = Some (c, l, clk)"
    and fits: "length key + 16 \<le> MAX_REQUEST"
  shows "\<exists>r l'. PMRClient_SendGet rw vt (enter s l clk) key = Inr (Some (r, l', clk, server s)) \<and>
    pmr_inv inv contents (leave s i c (l', clk, server s)) \<and>
    keeps_view contents s (leave s i c (l', clk, server s)) \<and> write_buf l' = dmabuf s \<and>
    (\<forall>v. pmr_view contents s key = Some v \<longrightarrow> r = Some v) \<and>
    (pmr_view contents s key = None \<longrightarrow> r = None \<or> r = Some [])"
proof -
  note f = conn_facts [OF inv i]
  let ?l = "l\<lparr>write_buf := dmabuf s\<rparr>"
  have db: "inv (srv_db (server s))" "small_values (contents (srv_db (server s)))"
    using inv by (simp_all add: pmr_inv_def)
  have "\<exists>r. pmr_lookup vt (dmabuf s) (server s) key = Inr r \<and> (\<forall>v. r = Some v \<longrightarrow> length v + 16 \<le> MAX_REQUEST) \<and>
      (\<forall>v. pmr_view contents s key = Some v \<longrightarrow> r = Some v) \<and>
      (pmr_view contents s key = None \<longrightarrow> r = None \<or> r = Some [])"
  proof (cases "srv_map (server s) key")
    case None
    then show ?thesis
      using get_found [OF db(1), of key] get_missing [OF db(1), of key] db(2)
      by (cases "contents (srv_db (server s)) key")
        (auto simp: pmr_lookup_def pmr_view_def small_values_def wire_consts)
  next
    case (Some m)
    then obtain j clk' where j: "clerks_of s j = Some clk'" "batch_map clk' key = Some m"
      using inv by (auto simp: pmr_inv_def elim: publishedD)
    have wf: "clerk_wf clk'" using inv j(1) by (auto simp: pmr_inv_def dest: holds_chunksD)
    note b = batch_map_SomeD [OF wf j(2)]
    have "memaddr (m_addr m) + length key + unat (m_value_size m) \<le> MAX_DMABUF_SIZE"
      using b(4) clerk_wf_end [OF wf] wf by (simp add: clerk_wf_def)
    with b Some show ?thesis by (simp add: pmr_lookup_def pmr_view_def mem_value_def Let_def)
  qed
  then obtain r where r: "pmr_lookup vt (write_buf ?l) (server s) key = Inr r"
    "\<And>v. r = Some v \<Longrightarrow> length v + 16 \<le> MAX_REQUEST"
    "\<forall>v. pmr_view contents s key = Some v \<longrightarrow> r = Some v"
    "pmr_view contents s key = None \<longrightarrow> r = None \<or> r = Some []" by auto
  obtain l' where l': "PMRClient_SendGet rw vt (?l, clk, server s) key = Inr (Some (r, l', clk, server s))"
    "header (local_buf l') = CLIENT_DONE" "write_buf l' = write_buf ?l"
    using pmr_send_get [where clk = clk and l = ?l and s = "server s" and vt = vt, OF rw _ fits r(1,2)] f(3) by auto
  let ?s = "leave s i c (l', clk, server s)"
  have cl: "clerks_of ?s = clerks_of s" using f(1) by (auto simp: clerks_of_leave)
  have "conns_ok ?s" using inv f l' by (intro conns_ok_leave) (auto simp: pmr_inv_def)
  then have "pmr_inv inv contents ?s" using inv cl by (simp add: pmr_inv_def pending_def)
  moreover have "keeps_view contents s ?s"
    using cl l'(3) by (intro keeps_viewI) simp_all
  ultimately show ?thesis using l' r(3,4) by (auto simp: enter_def)
qed

lemma delete_call:
  assumes rw: "rdma_delivers rw" and inv: "pmr_inv inv contents s" and i: "conns s i = Some (c, l, clk)"
    and fits: "length key + 16 \<le> MAX_REQUEST"
  shows "\<exists>l' d'. PMRClient_SendDelete rw vt (enter s l clk) key =
      Inr (Some (True, l', clk, (server s)\<lparr>srv_db := d'\<rparr>)) \<and>
    pmr_inv inv contents (leave s i c (l', clk, (server s)\<lparr>srv_db := d'\<rparr>)) \<and>
    contents d' = (contents (srv_db (server s)))(key := None) \<and> write_buf l' = dmabuf s"
proof -
  note f = conn_facts [OF inv i]
  let ?l = "l\<lparr>write_buf := dmabuf s\<rparr>"
  have db: "inv (srv_db (server s))" "small_values (contents (srv_db (server s)))"
    using inv by (simp_all add: pmr_inv_def)
  obtain d' where d': "db_Delete vt (srv_db (server s)) key = Inr (True, d')" "inv d'"
    "contents d' = (contents (srv_db (server s)))(key := None)" using delete [OF db(1)] by blast
  obtain l' where l': "PMRClient_SendDelete rw vt (?l, clk, server s) key =
      Inr (Some (True, l', clk, (server s)\<lparr>srv_db := d'\<rparr>))"
    "header (local_buf l') = CLIENT_DONE" "write_buf l' = write_buf ?l"
    using pmr_send_delete [where clk = clk and l = ?l and s = "server s" and vt = vt, OF rw _ fits d'(1)] f(3) by auto
  let ?s = "leave s i c (l', clk, (server s)\<lparr>srv_db := d'\<rparr>)"
  have cl: "clerks_of ?s = clerks_of s" using f(1) by (auto simp: clerks_of_leave)
  have ok: "conns_ok ?s" using inv f l' by (intro conns_ok_leave) (auto simp: pmr_inv_def)
  have "small_values (contents d')" using db(2) by (simp add: d'(3) small_values_def)
  then have "pmr_inv inv contents ?s" using inv cl ok d'(2) by (simp add: pmr_inv_def pending_def)
  with l' d' show ?thesis by (auto simp: enter_def)
qed

lemma empty_head_batch:
  assumes wf: "clerk_wf clk" and "\<not> 0 < clk_buf_head clk"
  shows "batch_map clk = (\<lambda>_. None)"
proof -
  have "unat (clk_buf_head clk) = 0" using assms(2) by (simp add: word_less_nat_alt)
  then have no: "\<not> record_wf (clk_buf_head clk) r" for r by (cases r) (auto simp: sizeof_Request_def)
  have "r \<notin> set (zip (key_batch clk) (metas clk))" for r
    using wf no [of r] by (auto simp: clerk_wf_def)
  then have "set (zip (key_batch clk) (metas clk)) = {}" by (metis all_not_in_conv)
  then have "key_batch clk = [] \<or> metas clk = []" by (metis set_empty zip_eq_Nil_iff)
  then show ?thesis by (auto simp: batch_map_def)
qed

lemma close_call:
  assumes rw: "rdma_delivers rw" and inv: "pmr_inv inv contents s" and i: "conns s i = Some (c, l, clk)"
  shows "\<exists>l' srv'. PMRClient_SendClose rw vt (enter s l clk) = Inr (Closed, l', clk, srv') \<and>
    pmr_inv inv contents (flush_conn s i srv') \<and> keeps_view contents s (flush_conn s i srv') \<and>
    (if 0 < clk_buf_head clk then map (\<lambda>(b, n, j). j) (global_queue srv') =
       map (\<lambda>(b, n, j). j) (global_queue (server s)) @ [chunk_slot clk] else srv' = server s)"
proof (cases "0 < clk_buf_head clk")
  case True
  note f = conn_facts [OF inv i]
  obtain d' where fl: "flush_batch vt (dmabuf s) clk (of_nat MAX_ASYNC_SIZE) (server s) =
      Inr (flushed d' (dmabuf s) clk (server s))"
    and inv1: "pmr_inv inv contents (flush_conn s i (flushed d' (dmabuf s) clk (server s)))"
    and view1: "exclusive (clerks_of s) (srv_map (server s)) \<Longrightarrow>
      pmr_view contents (flush_conn s i (flushed d' (dmabuf s) clk (server s))) = pmr_view contents s"
    and ex1: "exclusive (clerks_of s) (srv_map (server s)) \<Longrightarrow>
      exclusive ((clerks_of s)(i := None)) (erase_keys (key_batch clk) (srv_map (server s)))"
    using flush_inv [OF inv i, of "of_nat MAX_ASYNC_SIZE"] by blast
  have "keeps_view contents s (flush_conn s i (flushed d' (dmabuf s) clk (server s)))"
    using view1 ex1 unfolding keeps_view_def clerks_of_flush flush_conn_fields by (simp add: flushed_def)
  with True fl inv1 pmr_send_close [where l = "l\<lparr>write_buf := dmabuf s\<rparr>" and clk = clk and s = "server s"
      and vt = vt, OF rw] f(3)
  show ?thesis by (auto simp: enter_def PMRClerk_close_def flushed_def chunk_slot_def)
next
  case False
  note f = conn_facts [OF inv i]
  let ?s = "flush_conn s i (server s)"
  have pub: "published ((clerks_of s)(i := None)) (srv_map (server s))"
    unfolding published_def
  proof (intro allI impI)
    fix k m assume "srv_map (server s) k = Some m"
    then obtain j clk' where j: "clerks_of s j = Some clk'" "batch_map clk' k = Some m"
      using inv by (auto simp: pmr_inv_def elim: publishedD)
    then have "j \<noteq> i" using f(1) empty_head_batch [OF f(2) False] by auto
    with j show "\<exists>j clk'. ((clerks_of s)(i := None)) j = Some clk' \<and> batch_map clk' k = Some m" by auto
  qed
  have "conns_ok ?s" using inv by (auto simp: pmr_inv_def conns_ok_def flush_conn_def)
  then have "pmr_inv inv contents ?s" using inv pub holds_drop by (auto simp: pmr_inv_def pending_def)
  moreover have "keeps_view contents s ?s"
    by (auto simp: keeps_view_def exclusive_def pmr_view_def fun_eq_iff split: if_splits option.split)
  ultimately show ?thesis
    using False pmr_send_close [where l = "l\<lparr>write_buf := dmabuf s\<rparr>" and clk = clk and s = "server s"
      and vt = vt, OF rw] f(3) by (auto simp: enter_def PMRClerk_close_def)
qed

text \<open>The log writer: its assertions hold, and its steps keep the invariant.\<close>

lemma free_pending:
  assumes inv: "pmr_inv inv contents s" and e: "cid \<in> set (pending s)"
  obtains bm where "FreeChunk (server s) cid = Inr ((server s)\<lparr>srv_bitmap := bm\<rparr>)"
    and "bs_inv bm" and "bs_size bm = MAX_DMABUF_SIZE div MAX_ASYNC_SIZE"
    and "bs_bits bm = bs_bits (srv_bitmap (server s)) - {cid}"
proof -
  have bi: "bs_inv (srv_bitmap (server s))" "bs_size (srv_bitmap (server s)) = MAX_DMABUF_SIZE div MAX_ASYNC_SIZE"
    using inv by (simp_all add: pmr_inv_def)
  have mem: "cid \<in> bs_bits (srv_bitmap (server s))" using inv e by (auto simp: pmr_inv_def dest: holds_chunksD(6))
  then have lt: "cid < bs_size (srv_bitmap (server s))" using bs_bits_bound by blast
  obtain bm where bm: "bs_clear (srv_bitmap (server s)) cid = Inr (True, bm)"
    "bs_bits bm = bs_bits (srv_bitmap (server s)) - {cid}" "bs_inv bm"
    "bs_size bm = bs_size (srv_bitmap (server s))"
    using chunk_bits.release_taken [OF bi(1) mem] by blast
  have "FreeChunk (server s) cid = Inr ((server s)\<lparr>srv_bitmap := bm\<rparr>)"
    using bm(1) lt mem bi(2) bs_get_eq [OF lt] by (simp add: FreeChunk_def)
  with bm bi show thesis using that by auto
qed

lemma log_step_inv:
  assumes inv: "pmr_inv inv contents s" and step: "uring_step (ring s, server s) (r', srv')"
  shows "pmr_inv inv contents (s\<lparr>ring := r', server := srv'\<rparr>) \<and> keeps_view contents s (s\<lparr>ring := r', server := srv'\<rparr>)"
proof -
  have log: "log_inv r'" using log_inv_step [OF step] inv by (simp add: pmr_inv_def)
  have cl: "clerks_of (s\<lparr>ring := r', server := srv'\<rparr>) = clerks_of s" by (simp add: clerks_of_def fun_eq_iff)
  have hc: "holds_chunks (clerks_of s) (pending s) (bs_bits (srv_bitmap (server s)))"
    using inv by (simp add: pmr_inv_def)
  have co: "conns_ok (s\<lparr>ring := r', server := srv'\<rparr>) = conns_ok s" by (simp add: conns_ok_def)
  have kv: "keeps_view contents s (s\<lparr>ring := r', server := srv'\<rparr>)"
    if "srv_map srv' = srv_map (server s)" "srv_db srv' = srv_db (server s)"
    using that cl by (intro keeps_viewI) simp_all
  from step show ?thesis
  proof cases
    case (dequeue xs buf n cid ys)
    have "mset (pending (s\<lparr>ring := r', server := srv'\<rparr>)) = mset (pending s)"
      by (simp add: pending_def dequeue in_ring_step)
    then have "holds_chunks (clerks_of s) (pending (s\<lparr>ring := r', server := srv'\<rparr>)) (bs_bits (srv_bitmap (server s)))"
      using holds_mset [OF hc] by blast
    then show ?thesis using inv log cl co kv dequeue by (simp add: pmr_inv_def)
  next
    case submit
    have "pending (s\<lparr>ring := r', server := srv'\<rparr>) = pending s" by (simp add: pending_def submit in_ring_step)
    then show ?thesis using inv log cl co kv submit by (simp add: pmr_inv_def)
  next
    case (reap buf n off cid)
    have e: "cid \<in> set (pending s)"
      using reap(2) by (force simp: pending_def in_ring_def)
    obtain bm where bm: "FreeChunk (server s) cid = Inr ((server s)\<lparr>srv_bitmap := bm\<rparr>)" "bs_inv bm"
      "bs_size bm = MAX_DMABUF_SIZE div MAX_ASYNC_SIZE" "bs_bits bm = bs_bits (srv_bitmap (server s)) - {cid}"
      using inv e by (rule free_pending)
    have srv': "srv' = (server s)\<lparr>srv_bitmap := bm\<rparr>" using reap bm(1) by simp
    obtain B where "mset (in_ring (ring s)) = add_mset (buf, n, off, cid) B"
      using reap(2) by (metis in_multiset_in_set in_ring_def multi_member_split set_append UnI1)
    then have "mset (pending (s\<lparr>ring := r', server := srv'\<rparr>)) = mset (remove1 cid (pending s))"
      using reap(1,2) by (simp add: pending_def in_ring_step srv')
    then have "holds_chunks (clerks_of s) (pending (s\<lparr>ring := r', server := srv'\<rparr>)) (bs_bits bm)"
      unfolding bm(4) using holds_mset [OF holds_free [OF hc e]] by blast
    then show ?thesis using inv log cl co kv bm reap(1) by (simp add: pmr_inv_def srv')
  qed
qed

lemma connect_call:
  assumes rw: "rdma_delivers rw" and inv: "pmr_inv inv contents s" and i: "conns s i = None"
  shows "PMRClient_Connect rw vt PMRClient_new (enter s l PMRClerk_new) = Inr None \<or>
    (\<exists>c' l' clk' srv'. PMRClient_Connect rw vt PMRClient_new (enter s l PMRClerk_new) =
        Inr (Some (c', l', clk', srv')) \<and>
      pmr_inv inv contents (leave s i c' (l', clk', srv')) \<and> keeps_view contents s (leave s i c' (l', clk', srv')))"
proof -
  let ?l = "l\<lparr>write_buf := dmabuf s, local_buf := set_header CLIENT_DONE (local_buf l)\<rparr>"
  have idle: "header (local_buf ?l) = CLIENT_DONE" by simp
  have new: "\<not> clk_chunk_offset PMRClerk_new < UINT32_MAX" "key_batch PMRClerk_new = []" "metas PMRClerk_new = []"
    by (simp_all add: PMRClerk_new_def)
  have eq: "PMRClient_Connect rw vt PMRClient_new (enter s l PMRClerk_new) =
      PMRClient_SendAlloc rw vt PMRClient_new (?l, PMRClerk_new, server s)"
    by (simp add: PMRClient_Connect_def enter_def)
  show ?thesis
  proof (cases "blindset (srv_bitmap (server s))")
    case None
    have "PMRClient_SendAlloc rw vt PMRClient_new (?l, PMRClerk_new, server s) = Inr None"
      by (rule pmr_send_alloc_blocked [OF rw idle _ _ None]) (use new in auto)
    then show ?thesis by (simp add: eq)
  next
    case (Some r)
    then obtain slot b where b: "blindset (srv_bitmap (server s)) = Some (Inr (slot, b))"
      using chunk_bits.alloc_SomeD [of "srv_bitmap (server s)" r] inv by (auto simp: pmr_inv_def)
    let ?c = "PMRClient_new\<lparr>chunk_offset := of_nat (MAX_ASYNC_SIZE * slot), buf_head := 0\<rparr>"
    obtain l' where l': "PMRClient_SendAlloc rw vt PMRClient_new (?l, PMRClerk_new, server s) =
        Inr (Some (?c, l', fresh_chunk slot PMRClerk_new, (server s)\<lparr>srv_bitmap := b\<rparr>))"
      "header (local_buf l') = CLIENT_DONE" "write_buf l' = write_buf ?l"
      using pmr_send_alloc [where l = ?l and clk = PMRClerk_new and s = "server s" and c = PMRClient_new and vt = vt,
          OF rw idle _ _ b] new by auto
    have wb: "write_buf l' = dmabuf s" using l'(3) by simp
    note t = take_chunk_inv [where clk = PMRClerk_new and c = ?c, OF inv i b _ _ l'(2) wb refl]
    let ?st = "(l', fresh_chunk slot PMRClerk_new, (server s)\<lparr>srv_bitmap := b\<rparr>)"
    have "pmr_inv inv contents (leave s i ?c ?st)" by (rule t(1)) simp_all
    moreover have "keeps_view contents s (leave s i ?c ?st)" using t(2,3) by (simp add: keeps_view_def)
    ultimately show ?thesis using l'(1) unfolding eq by blast
  qed
qed

section \<open>Reachable states\<close>

lemma pmr_init_inv:
  assumes "inv d" and "small_values (contents d)"
  shows "pmr_inv inv contents (pmr_init d)" and "exclusive (clerks_of (pmr_init d)) (srv_map (server (pmr_init d)))"
proof -
  have cl: "clerks_of (pmr_init d) = (\<lambda>_. None)" by (simp add: clerks_of_def pmr_init_def fun_eq_iff)
  show "pmr_inv inv contents (pmr_init d)"
    using assms log_inv_new [of 64] bs_new_inv [of "MAX_DMABUF_SIZE div MAX_ASYNC_SIZE"]
    by (simp add: pmr_inv_def cl) (simp add: pmr_init_def PMRServer_new_def conns_ok_def
        holds_chunks_def published_def pending_def AtomicBitset_new_def IOuring_new_def in_ring_def)
  show "exclusive (clerks_of (pmr_init d)) (srv_map (server (pmr_init d)))" by (simp add: cl exclusive_def)
qed

lemma pmr_step_inv:
  assumes rw: "rdma_delivers rw" and step: "pmr_step rw vt s s'" and inv: "pmr_inv inv contents s"
  shows "pmr_inv inv contents s'"
  using step
proof cases
  case (call_connect i l c' st')
  with connect_call [OF rw inv call_connect(2), of l] show ?thesis by (cases st') auto
next
  case (call_write i c l clk p key val c' st')
  with write_call [OF rw inv call_write(2-4)] show ?thesis by (cases st') auto
next
  case (call_get i c l clk key r st')
  with get_call [OF rw inv call_get(2,3)] show ?thesis by auto
next
  case (call_delete i c l clk key r st')
  with delete_call [OF rw inv call_delete(2,3)] show ?thesis by auto
next
  case (call_close i c l clk l' clk' srv')
  with close_call [OF rw inv call_close(2)] show ?thesis by (auto simp: flush_conn_def)
next
  case (call_log r' srv')
  with log_step_inv [OF inv] show ?thesis by auto
qed

lemma pmr_reach_inv:
  assumes "rdma_delivers rw" and "inv d" and "small_values (contents d)" and "pmr_reach rw vt d s"
  shows "pmr_inv inv contents s"
  using assms(4) by induction (use pmr_init_inv pmr_step_inv assms in auto)

end

end
