(* ===== verification/PMR_Properties.thy ===== *)
theory PMR_Properties
  imports PMR_Safety
begin





section \<open>Two reachable states\<close>




section \<open>Properties\<close>

















end
