(* ===== verification/Ring_Log.thy ===== *)
theory Ring_Log
  imports Prelude
begin

text \<open>
  \<open>src/frontend/group/ringlog.h\<close>: an append log in a preallocated file. A writer reserves its range by
  advancing an atomic offset with compare-and-exchange and then writes with \<open>pwrite\<close>. The first part
  models \<open>Put\<close> and \<open>PutBatch\<close> run alone; the second part models any number of threads that reserve
  concurrently, with the load, each attempt of the exchange and the \<open>pwrite\<close> as separate steps.
\<close>

section \<open>Sequential operations\<close>

definition PREALLOCATE_SIZE :: nat where "PREALLOCATE_SIZE = 4 * 1024 * 1024 * 1024"

record RingLog =
  rl_file :: buffer
  rl_offset :: u64

definition RingLog_new :: "buffer \<Rightarrow> RingLog" where
  "RingLog_new f = \<lparr>rl_file = f, rl_offset = 0\<rparr>"

definition next_pos :: "u64 \<Rightarrow> nat \<Rightarrow> u64" where
  "next_pos pos len = (if unat pos < PREALLOCATE_SIZE then pos + of_nat len else of_nat len)"

text \<open>\<open>PutBatch\<close> with the given bytes; the compare-and-exchange of a lone writer succeeds.\<close>

definition RingLog_PutBatch :: "RingLog \<Rightarrow> bytes \<Rightarrow> RingLog" where
  "RingLog_PutBatch l bs = l\<lparr>rl_offset := next_pos (rl_offset l) (length bs),
     rl_file := wr (rl_file l) (unat (rl_offset l)) bs\<rparr>"

text \<open>\<open>Put\<close> builds its record in a stack buffer of eight kibibytes.\<close>

definition log_record :: "bytes \<Rightarrow> bytes \<Rightarrow> bytes" where
  "log_record key val = le32 (of_nat (length key)) @ le32 (of_nat (length val)) @ key @ val"

definition RingLog_Put :: "RingLog \<Rightarrow> bytes \<Rightarrow> bytes \<Rightarrow> RingLog result" where
  "RingLog_Put l key val =
     and_then (check (8 + length key + length val \<le> 8 * 1024) Out_of_bounds)
       (\<lambda>_. Inr (RingLog_PutBatch l (log_record key val)))"

lemma next_pos_lap: "unat pos + len < 2 ^ 64 \<Longrightarrow> unat pos < PREALLOCATE_SIZE \<Longrightarrow> unat (next_pos pos len) = unat pos + len"
  by (simp add: next_pos_def unat_word_ariths unat_of_nat)

lemma PutBatch_readback:
  "rd (rl_file (RingLog_PutBatch l bs)) (unat (rl_offset l)) (length bs) = bs"
  by (simp add: RingLog_PutBatch_def rd_wr_same)

section \<open>Concurrent reservations\<close>

text \<open>
  A thread is idle, has loaded \<open>pos\<close> for a record of \<open>len\<close> bytes, has reserved a range, or has written
  it. A failed exchange (also a spurious one: it is the weak form) reloads the position. The list
  \<open>cl_hist\<close> records the reservations in the order of their successful exchanges.
\<close>

datatype log_pc = L_Idle | L_Loaded u64 nat | L_Reserved u64 nat

record log_sys =
  cl_offset :: u64
  cl_pc :: "nat \<Rightarrow> log_pc"
  cl_hist :: "(u64 \<times> nat) list"

inductive log_step :: "log_sys \<Rightarrow> log_sys \<Rightarrow> bool" where
  load: "cl_pc s t = L_Idle \<Longrightarrow> log_step s (s\<lparr>cl_pc := (cl_pc s)(t := L_Loaded p len)\<rparr>)"
| reserve: "cl_pc s t = L_Loaded pos len \<Longrightarrow> cl_offset s = pos \<Longrightarrow>
    log_step s (s\<lparr>cl_offset := next_pos pos len, cl_pc := (cl_pc s)(t := L_Reserved pos len),
      cl_hist := cl_hist s @ [(pos, len)]\<rparr>)"
| reload: "cl_pc s t = L_Loaded pos len \<Longrightarrow>
    log_step s (s\<lparr>cl_pc := (cl_pc s)(t := L_Loaded (cl_offset s) len)\<rparr>)"
| written: "cl_pc s t = L_Reserved pos len \<Longrightarrow> log_step s (s\<lparr>cl_pc := (cl_pc s)(t := L_Idle)\<rparr>)"

inductive log_reach :: "log_sys \<Rightarrow> bool" where
  start: "log_reach \<lparr>cl_offset = 0, cl_pc = (\<lambda>_. L_Idle), cl_hist = []\<rparr>"
| step: "log_reach s \<Longrightarrow> log_step s s' \<Longrightarrow> log_reach s'"

inductive_cases log_stepE: "log_step s s'"

text \<open>The reservations form a chain: each one starts where the previous one put the offset.\<close>

fun chain :: "u64 \<Rightarrow> (u64 \<times> nat) list \<Rightarrow> u64 \<Rightarrow> bool" where
  "chain p [] q \<longleftrightarrow> p = q"
| "chain p ((pos, len) # h) q \<longleftrightarrow> pos = p \<and> chain (next_pos pos len) h q"

lemma chain_snoc: "chain p h pos \<Longrightarrow> chain p (h @ [(pos, len)]) (next_pos pos len)"
  by (induction p h pos rule: chain.induct) auto

lemma log_reach_chain: "log_reach s \<Longrightarrow> chain 0 (cl_hist s) (cl_offset s)"
proof (induction rule: log_reach.induct)
  case start
  then show ?case by simp
next
  case (step s s')
  then show ?case by (elim log_stepE) (auto simp: chain_snoc)
qed

text \<open>
  Within the first lap, that is while every reservation started below the preallocated size, the
  reserved ranges are in ascending order and do not overlap.
\<close>

fun range_le :: "u64 \<times> nat \<Rightarrow> u64 \<times> nat \<Rightarrow> bool" where
  "range_le (p, n) (q, m) \<longleftrightarrow> unat p + n \<le> unat q"

lemma chain_lower:
  assumes "chain p h q" and "\<And>x. x \<in> set h \<Longrightarrow> unat (fst x) < PREALLOCATE_SIZE \<and> snd x < 2 ^ 32"
  shows "\<forall>x \<in> set h. unat p \<le> unat (fst x)"
  using assms
proof (induction p h q rule: chain.induct)
  case (2 p pos len h q)
  have "unat (next_pos pos len) = unat pos + len"
    using 2(3) [of "(pos, len)"] by (intro next_pos_lap) (auto simp: PREALLOCATE_SIZE_def)
  moreover have "\<forall>x \<in> set h. unat (next_pos pos len) \<le> unat (fst x)" using 2 by auto
  ultimately show ?case using 2(2) by auto
qed simp

lemma chain_sorted:
  assumes "chain p h q" and "\<And>x. x \<in> set h \<Longrightarrow> unat (fst x) < PREALLOCATE_SIZE \<and> snd x < 2 ^ 32"
  shows "sorted_wrt range_le h"
  using assms
proof (induction p h q rule: chain.induct)
  case (2 p pos len h q)
  have n: "unat (next_pos pos len) = unat pos + len"
    using 2(3) [of "(pos, len)"] by (intro next_pos_lap) (auto simp: PREALLOCATE_SIZE_def)
  have "\<forall>x \<in> set h. unat (next_pos pos len) \<le> unat (fst x)"
    using 2 by (intro chain_lower) auto
  then have "\<forall>x \<in> set h. range_le (pos, len) x" using n by auto
  moreover have "sorted_wrt range_le h" using 2 by auto
  ultimately show ?case by simp
qed simp

section \<open>Properties\<close>

text \<open>
  A record that \<open>Put\<close> accepts is in the file at the position that was the offset,
  encoded as its two lengths, the key and the value; the offset moves by exactly its length; a pair
  that does not fit the stack buffer overruns it.
\<close>

lemma log_put_readable:
  "if 8 + length key + length val \<le> 8192
   then \<exists>l'. RingLog_Put l key val = Inr l' \<and>
     rd (rl_file l') (unat (rl_offset l)) (8 + length key + length val) =
       le32 (of_nat (length key)) @ le32 (of_nat (length val)) @ key @ val \<and>
     rl_offset l' = next_pos (rl_offset l) (8 + length key + length val)
   else RingLog_Put l key val = Inl Out_of_bounds"
  using PutBatch_readback [of l "log_record key val"]
  by (simp add: RingLog_Put_def RingLog_PutBatch_def log_record_def add.assoc)

text \<open>
  C15. For any number of threads and any interleaving of loads, exchanges and
  writes: as long as no reservation has started past the preallocated size, the ranges reserved so
  far are pairwise disjoint, in the order of their exchanges.
\<close>

theorem log_reservations_disjoint:
  assumes "log_reach s" and "\<forall>x \<in> set (cl_hist s). unat (fst x) < PREALLOCATE_SIZE \<and> snd x < 2 ^ 32"
    and "i < j" and "j < length (cl_hist s)"
  shows "unat (fst (cl_hist s ! i)) + snd (cl_hist s ! i) \<le> unat (fst (cl_hist s ! j))"
proof -
  have "sorted_wrt range_le (cl_hist s)"
    using log_reach_chain [OF assms(1)] assms(2) by (intro chain_sorted) auto
  then have "range_le (cl_hist s ! i) (cl_hist s ! j)"
    using assms(3,4) by (simp add: sorted_wrt_iff_nth_less)
  then show ?thesis by (cases "cl_hist s ! i"; cases "cl_hist s ! j") simp
qed

lemma two_reservations:
  "\<exists>s. log_reach s \<and> cl_hist s = [(0, 10), (10, 20)]"
proof -
  define s0 where "s0 = \<lparr>cl_offset = 0, cl_pc = (\<lambda>_. L_Idle), cl_hist = []\<rparr>"
  define s1 where "s1 = s0\<lparr>cl_pc := (cl_pc s0)(0 := L_Loaded 0 10)\<rparr>"
  define s2 where "s2 = s1\<lparr>cl_pc := (cl_pc s1)(1 := L_Loaded 0 20)\<rparr>"
  define s3 where "s3 = s2\<lparr>cl_offset := next_pos 0 10, cl_pc := (cl_pc s2)(0 := L_Reserved 0 10),
    cl_hist := cl_hist s2 @ [(0, 10)]\<rparr>"
  define s4 where "s4 = s3\<lparr>cl_pc := (cl_pc s3)(1 := L_Loaded (cl_offset s3) 20)\<rparr>"
  define s5 where "s5 = s4\<lparr>cl_offset := next_pos 10 20, cl_pc := (cl_pc s4)(1 := L_Reserved 10 20),
    cl_hist := cl_hist s4 @ [(10, 20)]\<rparr>"
  have n: "next_pos 0 10 = 10" by (simp add: next_pos_def PREALLOCATE_SIZE_def)
  have r0: "log_reach s0" unfolding s0_def by (rule log_reach.start)
  have "log_step s0 s1" unfolding s1_def by (rule load) (simp add: s0_def)
  note r1 = log_reach.step [OF r0 this]
  have "log_step s1 s2" unfolding s2_def by (rule load) (simp add: s1_def s0_def)
  note r2 = log_reach.step [OF r1 this]
  have "log_step s2 s3" unfolding s3_def by (rule reserve) (simp_all add: s2_def s1_def s0_def)
  note r3 = log_reach.step [OF r2 this]
  have "log_step s3 s4"
    unfolding s4_def by (rule reload [where pos = 0]) (simp add: s3_def s2_def)
  note r4 = log_reach.step [OF r3 this]
  have "log_step s4 s5" unfolding s5_def by (rule reserve) (simp_all add: s4_def s3_def n)
  from log_reach.step [OF r4 this] have "log_reach s5" .
  moreover have "cl_hist s5 = [(0, 10), (10, 20)]" by (simp add: s5_def s4_def s3_def s2_def s1_def s0_def)
  ultimately show ?thesis by blast
qed

theorem log_reservations_disjoint_witness:
  "\<exists>s. log_reach s \<and> length (cl_hist s) = 2 \<and>
    unat (fst (cl_hist s ! 0)) + snd (cl_hist s ! 0) \<le> unat (fst (cl_hist s ! 1))"
proof -
  obtain s where s: "log_reach s" "cl_hist s = [(0, 10), (10, 20)]" using two_reservations by blast
  from log_reservations_disjoint [OF s(1), of 0 1] s show ?thesis by (auto simp: PREALLOCATE_SIZE_def)
qed



end
