(* ===== verification/Group_Front.thy ===== *)
theory Group_Front
  imports Rpc Ring_Log
begin

text \<open>
  \<open>src/frontend/group\<close>: the front end with group commit. A clerk that receives a request to be logged
  joins a queue of writers; the writer at the front becomes the leader, gathers the requests of the
  writers behind it in one batch, writes the batch to the database and to the log and then marks the
  gathered writers as done. This theory holds the client calls, the batch building, the clerk's
  handling of one request and the group commit as a step relation.
\<close>

section \<open>Batches\<close>

record WriteBatch =
  batch_length :: nat
  keys :: "bytes list"
  b_metas :: "Meta list"
  b_buffer :: buffer

definition CLERK_BUF :: nat where "CLERK_BUF = MAX_REQUEST + RING_HEADER"

definition clear_batch :: "WriteBatch \<Rightarrow> WriteBatch" where
  "clear_batch b = b\<lparr>batch_length := 0, keys := [], b_metas := []\<rparr>"

text \<open>
  The loop over the queue, whose elements are the writers with the buffers their requests are in.
  The copy comes before the size test: a copy past the end of the batch buffer is a fault.
\<close>

fun BuildBatchGroup_loop ::
  "(nat \<times> buffer) list \<Rightarrow> WriteBatch \<Rightarrow> nat option \<Rightarrow> (WriteBatch \<times> nat option) result" where
  "BuildBatchGroup_loop [] b last_writer = Inr (b, last_writer)"
| "BuildBatchGroup_loop ((w, m) # ws) b last_writer =
     (let r = read_request m RING_HEADER; kn = unat (key_size r); len = unat (Request_Length r);
          off = RING_HEADER + sizeof_Request
      in and_then (check (off + kn \<le> CLERK_BUF \<and> RING_HEADER + len \<le> CLERK_BUF \<and>
                          batch_length b + len \<le> MAX_ASYNC_SIZE) Out_of_bounds)
        (\<lambda>_. let b' = \<lparr>batch_length = batch_length b + len, keys = keys b @ [rd m off kn],
                b_metas = b_metas b @
                  [Meta_file 0 (of_nat (batch_length b + sizeof_Request)) (key_size r) (val_size r)],
                b_buffer = wr (b_buffer b) (batch_length b) (rd m RING_HEADER len)\<rparr>
             in if MAX_ASYNC_SIZE \<le> batch_length b' then Inr (b', Some w)
                else BuildBatchGroup_loop ws b' (Some w)))"

definition BuildBatchGroup ::
  "(nat \<times> buffer) list \<Rightarrow> WriteBatch \<Rightarrow> (WriteBatch \<times> nat option) result" where
  "BuildBatchGroup ws b = BuildBatchGroup_loop ws (clear_batch b) None"

text \<open>The leader's loop over the front of the queue up to the last writer of its batch.\<close>

fun mark_done :: "nat \<Rightarrow> nat \<Rightarrow> nat list \<Rightarrow> nat set \<Rightarrow> (nat list \<times> nat set) result" where
  "mark_done me last_writer [] d = Inl Out_of_bounds"
| "mark_done me last_writer (ready # q) d =
     (let d' = (if ready \<noteq> me then insert ready d else d) in
      if ready = last_writer then Inr (q, d') else mark_done me last_writer q d')"

section \<open>Client\<close>

fun group_ext :: extents where
  "group_ext Local_Buf = MAX_REQUEST + RING_HEADER"
| "group_ext Send_Buf = SEND_BUF_SIZE"
| "group_ext Write_Buf = CLERK_BUF"

definition GroupClient_Connect :: "buffer \<Rightarrow> buffer" where
  "GroupClient_Connect m = set_header CLIENT_DONE m"

definition GroupClient_SendWrite_post ::
  "buffer \<Rightarrow> bytes \<Rightarrow> bytes \<Rightarrow> Operation \<Rightarrow> (buffer \<times> posted list) result" where
  "GroupClient_SendWrite_post m key val p =
     and_then (prepare_write (group_ext Local_Buf) m key val p)
       (\<lambda>m'. Inr (m', [post_body Write_Buf RING_HEADER m' (unat (total_len16 (len16 key) (len16 val))),
            post_header Write_Buf m']))"

definition group_key_posts :: "buffer \<Rightarrow> bytes \<Rightarrow> posted list" where
  "group_key_posts m key = [post_body Write_Buf RING_HEADER m (unat (total_len16 (len16 key) 0)),
     post_header Write_Buf m]"

definition GroupClient_SendGet_post :: "buffer \<Rightarrow> bytes \<Rightarrow> (buffer \<times> posted list) result" where
  "GroupClient_SendGet_post m key =
     and_then (prepare_key (group_ext Local_Buf) m key GET) (\<lambda>m'. Inr (m', group_key_posts m' key))"

definition GroupClient_SendDelete_post :: "buffer \<Rightarrow> bytes \<Rightarrow> (buffer \<times> posted list) result" where
  "GroupClient_SendDelete_post m key =
     and_then (prepare_key (group_ext Local_Buf) m key DELETE) (\<lambda>m'. Inr (m', group_key_posts m' key))"

definition GroupClient_SendClose_post :: "buffer \<Rightarrow> buffer \<times> posted list" where
  "GroupClient_SendClose_post m =
     (let m' = prepare_plain m CLOSE in
      (m', [post_body Write_Buf RING_HEADER m' sizeof_Request, post_header Write_Buf m']))"

section \<open>Clerk\<close>

text \<open>
  A read request. A key that is not found leaves the value size of the request in place, which the
  clients set to zero.
\<close>

definition GroupClerk_get :: "'d dbtype \<Rightarrow> buffer \<Rightarrow> 'd \<Rightarrow> buffer result" where
  "GroupClerk_get vt m d =
     and_then (read_key m (unat (key_size (read_request m RING_HEADER))) CLERK_BUF)
       (\<lambda>key. and_then (db_Get vt d key)
         (\<lambda>v. case v of
            Some value \<Rightarrow> put_reply m OK value CLERK_BUF
          | None \<Rightarrow> Inr (wr m RING_HEADER (le32 (status_code NOTFOUND)))))"

text \<open>
  Where a clerk stands in its loop. The leader's phases carry the batch it has built and the last
  writer of the batch; \<open>G_Reply\<close> tells whether the request was one to be logged.
\<close>

datatype group_pc = G_Idle | G_Queued | G_Leading | G_Writing WriteBatch nat | G_Logging WriteBatch nat
  | G_Logged WriteBatch nat | G_Reply bool | G_Closed

text \<open>
  The state of the server: the database, the log, the queue, the writers marked as done, the buffer
  and the position of every clerk. Two history fields are not in the code: \<open>g_req\<close>, the image of the
  request a clerk has queued last, and \<open>g_batches\<close>, the batches written to the log.
\<close>

record 'd group_sys =
  g_db :: 'd
  g_log :: RingLog
  g_batch :: WriteBatch
  g_queue :: "nat list"
  g_done :: "nat set"
  g_buf :: "nat \<Rightarrow> buffer"
  g_pc :: "nat \<Rightarrow> group_pc"
  g_req :: "nat \<Rightarrow> bytes"
  g_batches :: "WriteBatch list"

definition set_pc :: "nat \<Rightarrow> group_pc \<Rightarrow> 'd group_sys \<Rightarrow> 'd group_sys" where
  "set_pc t pc s = s\<lparr>g_pc := (g_pc s)(t := pc)\<rparr>"

definition set_buf :: "nat \<Rightarrow> buffer \<Rightarrow> 'd group_sys \<Rightarrow> 'd group_sys" where
  "set_buf t m s = s\<lparr>g_buf := (g_buf s)(t := m)\<rparr>"

definition image_of :: "buffer \<Rightarrow> bytes" where
  "image_of m = rd m RING_HEADER (unat (Request_Length (read_request m RING_HEADER)))"

text \<open>
  The operations of a clerk's turn, in the order of the code; each is what the clerk does between two
  points where other clerks may run.
\<close>

definition group_enqueue :: "nat \<Rightarrow> buffer \<Rightarrow> 'd group_sys \<Rightarrow> 'd group_sys" where
  "group_enqueue t m s =
     s\<lparr>g_buf := (g_buf s)(t := m), g_queue := g_queue s @ [t], g_done := g_done s - {t},
       g_pc := (g_pc s)(t := G_Queued), g_req := (g_req s)(t := image_of m)\<rparr>"

definition GroupClerk_receive :: "'d dbtype \<Rightarrow> nat \<Rightarrow> buffer \<Rightarrow> 'd group_sys \<Rightarrow> 'd group_sys result" where
  "GroupClerk_receive vt t m0 s =
     (let m = set_header CLERK_DONE m0; p = op (read_request m RING_HEADER) in
      if p = op_code CLOSE then Inr (set_pc t G_Closed (set_buf t m s))
      else if p = op_code GET
      then and_then (GroupClerk_get vt m (g_db s)) (\<lambda>m'. Inr (set_pc t (G_Reply False) (set_buf t m' s)))
      else Inr (group_enqueue t m s))"

definition group_build :: "nat \<Rightarrow> 'd group_sys \<Rightarrow> 'd group_sys result" where
  "group_build t s =
     and_then (BuildBatchGroup (map (\<lambda>w. (w, g_buf s w)) (g_queue s)) (g_batch s))
       (\<lambda>(b, lw). case lw of None \<Rightarrow> Inl Out_of_bounds
          | Some w \<Rightarrow> Inr (set_pc t (G_Writing b w) (s\<lparr>g_batch := b\<rparr>)))"

definition group_put_db :: "'d dbtype \<Rightarrow> nat \<Rightarrow> WriteBatch \<Rightarrow> nat \<Rightarrow> 'd group_sys \<Rightarrow> 'd group_sys result" where
  "group_put_db vt t b w s =
     and_then (db_PutBatch vt (g_db s) (keys b) (b_metas b) (b_buffer b) MAX_ASYNC_SIZE (of_nat (batch_length b)))
       (\<lambda>(ok, d'). Inr (set_pc t (G_Logging b w) (s\<lparr>g_db := d'\<rparr>)))"

definition group_put_log :: "nat \<Rightarrow> WriteBatch \<Rightarrow> nat \<Rightarrow> 'd group_sys \<Rightarrow> 'd group_sys" where
  "group_put_log t b w s = set_pc t (G_Logged b w)
     (s\<lparr>g_log := RingLog_PutBatch (g_log s) (rd (b_buffer b) 0 (batch_length b)),
        g_batches := g_batches s @ [b]\<rparr>)"

definition group_finish :: "nat \<Rightarrow> nat \<Rightarrow> 'd group_sys \<Rightarrow> 'd group_sys result" where
  "group_finish t w s =
     and_then (mark_done t w (g_queue s) (g_done s))
       (\<lambda>(q, d). Inr (set_pc t (G_Reply True) (s\<lparr>g_queue := q, g_done := d\<rparr>)))"

text \<open>A follower that finds itself done writes its reply; the leader does not touch its buffer.\<close>

definition group_follow :: "nat \<Rightarrow> 'd group_sys \<Rightarrow> 'd group_sys result" where
  "group_follow t s =
     and_then (put_reply (g_buf s t) OK [] CLERK_BUF) (\<lambda>m'. Inr (set_pc t (G_Reply True) (set_buf t m' s)))"

text \<open>What the clients write: a request whose key and value fit the clerk's buffer.\<close>

definition request_ok :: "buffer \<Rightarrow> bool" where
  "request_ok m \<longleftrightarrow> (let r = read_request m RING_HEADER in
     sizeof_Request + unat (key_size r) + unat (val_size r) \<le> MAX_REQUEST)"

inductive group_step :: "'d dbtype \<Rightarrow> 'd group_sys \<Rightarrow> 'd group_sys \<Rightarrow> bool" for vt where
  receive: "g_pc s t = G_Idle \<Longrightarrow> header m = CLIENT_DONE \<Longrightarrow> request_ok m \<Longrightarrow> GroupClerk_receive vt t m s = Inr s' \<Longrightarrow>
    group_step vt s s'"
| lead: "g_pc s t = G_Queued \<Longrightarrow> t \<notin> g_done s \<Longrightarrow> g_queue s = t # q \<Longrightarrow> group_step vt s (set_pc t G_Leading s)"
| follow: "g_pc s t = G_Queued \<Longrightarrow> t \<in> g_done s \<Longrightarrow> group_follow t s = Inr s' \<Longrightarrow> group_step vt s s'"
| build: "g_pc s t = G_Leading \<Longrightarrow> group_build t s = Inr s' \<Longrightarrow> group_step vt s s'"
| put_db: "g_pc s t = G_Writing b w \<Longrightarrow> group_put_db vt t b w s = Inr s' \<Longrightarrow> group_step vt s s'"
| put_log: "g_pc s t = G_Logging b w \<Longrightarrow> group_step vt s (group_put_log t b w s)"
| finish: "g_pc s t = G_Logged b w \<Longrightarrow> group_finish t w s = Inr s' \<Longrightarrow> group_step vt s s'"
| reply: "g_pc s t = G_Reply x \<Longrightarrow> group_step vt s (set_pc t G_Idle s)"

definition group_init :: "'d \<Rightarrow> 'd group_sys" where
  "group_init d = \<lparr>g_db = d, g_log = RingLog_new (\<lambda>_. 0),
     g_batch = \<lparr>batch_length = 0, keys = [], b_metas = [], b_buffer = (\<lambda>_. 0)\<rparr>, g_queue = [], g_done = {},
     g_buf = (\<lambda>_ _. 0), g_pc = (\<lambda>_. G_Idle), g_req = (\<lambda>_. []), g_batches = []\<rparr>"

inductive group_reach :: "'d dbtype \<Rightarrow> 'd \<Rightarrow> 'd group_sys \<Rightarrow> bool" for vt d where
  init: "group_reach vt d (group_init d)"
| step: "group_reach vt d s \<Longrightarrow> group_step vt s s' \<Longrightarrow> group_reach vt d s'"

section \<open>What a batch holds\<close>

definition pair_of :: "buffer \<Rightarrow> bytes \<times> bytes" where
  "pair_of m = (let r = read_request m RING_HEADER; kn = unat (key_size r) in
     (rd m (RING_HEADER + sizeof_Request) kn, rd m (RING_HEADER + sizeof_Request + kn) (unat (val_size r))))"

definition put_pairs :: "(bytes \<times> bytes) list \<Rightarrow> (bytes \<rightharpoonup> bytes) \<Rightarrow> (bytes \<rightharpoonup> bytes)" where
  "put_pairs ps c = fold (\<lambda>(k, v) c. c(k \<mapsto> v)) ps c"

text \<open>A batch that holds the pairs \<open>ps\<close> with the images \<open>is\<close>.\<close>

definition batch_holds :: "WriteBatch \<Rightarrow> (bytes \<times> bytes) list \<Rightarrow> bytes list \<Rightarrow> bool" where
  "batch_holds b ps imgs \<longleftrightarrow> keys b = map fst ps \<and> length (b_metas b) = length ps \<and>
     batch_length b \<le> MAX_ASYNC_SIZE \<and> rd (b_buffer b) 0 (batch_length b) = concat imgs \<and>
     (\<forall>i < length ps. meta_fits (batch_length b) (b_metas b ! i) \<and>
        meta_value (b_buffer b) (b_metas b ! i) = snd (ps ! i))"

lemma batch_holds_apply_aux:
  assumes "length ms = length ps" and "\<And>i. i < length ps \<Longrightarrow> meta_value buf (ms ! i) = snd (ps ! i)"
  shows "apply_batch buf (map fst ps) ms c = put_pairs ps c"
  using assms
proof (induction ms ps arbitrary: c rule: list_induct2)
  case (Cons m ms p ps)
  have "meta_value buf m = snd p" using Cons.prems [of 0] by simp
  moreover have "\<And>i. i < length ps \<Longrightarrow> meta_value buf (ms ! i) = snd (ps ! i)" using Cons.prems [of "Suc _"] by simp
  ultimately show ?case using Cons.IH by (simp add: put_pairs_def case_prod_beta)
qed (simp add: put_pairs_def)

lemma batch_holds_apply:
  "batch_holds b ps imgs \<Longrightarrow> apply_batch (b_buffer b) (keys b) (b_metas b) c = put_pairs ps c"
  by (simp add: batch_holds_def batch_holds_apply_aux)

lemma batch_holds_fits:
  "batch_holds b ps imgs \<Longrightarrow> m \<in> set (b_metas b) \<Longrightarrow> meta_fits MAX_ASYNC_SIZE m"
  by (auto simp: batch_holds_def in_set_conv_nth meta_fits_def)

lemma meta_value_wr:
  "meta_fits n m \<Longrightarrow> meta_value (wr buf n xs) m = meta_value buf m"
  by (simp add: meta_fits_def meta_value_def rd_wr_disjoint)

lemma request_ok_length:
  assumes "request_ok m"
  shows "unat (Request_Length (read_request m RING_HEADER)) =
      8 + unat (key_size (read_request m RING_HEADER)) + unat (val_size (read_request m RING_HEADER))"
  using assms by (simp add: request_ok_def Let_def Request_Length_def unat_word_ariths wire_consts)

lemma length_image_of: "request_ok m \<Longrightarrow> length (image_of m) =
    8 + unat (key_size (read_request m RING_HEADER)) + unat (val_size (read_request m RING_HEADER))"
  by (simp add: image_of_def request_ok_length)

definition batch_add :: "WriteBatch \<Rightarrow> buffer \<Rightarrow> WriteBatch" where
  "batch_add b m = (let r = read_request m RING_HEADER; len = unat (Request_Length r) in
     \<lparr>batch_length = batch_length b + len,
      keys = keys b @ [rd m (RING_HEADER + sizeof_Request) (unat (key_size r))],
      b_metas = b_metas b @ [Meta_file 0 (of_nat (batch_length b + sizeof_Request)) (key_size r) (val_size r)],
      b_buffer = wr (b_buffer b) (batch_length b) (rd m RING_HEADER len)\<rparr>)"

lemma key_size_31: "request_ok m \<Longrightarrow> take_bit 31 (key_size (read_request m RING_HEADER)) = key_size (read_request m RING_HEADER)"
proof (rule bit_word_eqI)
  fix n assume "request_ok m" "n < LENGTH(32)"
  then have "unat (key_size (read_request m RING_HEADER)) < 2 ^ 31"
    by (simp add: request_ok_def Let_def wire_consts)
  then show "bit (take_bit 31 (key_size (read_request m RING_HEADER))) n = bit (key_size (read_request m RING_HEADER)) n"
    using small_word_bits [of "key_size (read_request m RING_HEADER)" 31 n] by (cases "n < 31") (auto simp: bit_simps)
qed

lemma batch_add_holds:
  assumes b: "batch_holds b ps imgs" and ok: "request_ok m"
    and room: "batch_length b + length (image_of m) \<le> MAX_ASYNC_SIZE"
  shows "batch_holds (batch_add b m) (ps @ [pair_of m]) (imgs @ [image_of m])"
proof -
  define r where "r = read_request m RING_HEADER"
  define kn vn where "kn = unat (key_size r)" and "vn = unat (val_size r)"
  define L where "L = batch_length b"
  have r8: "read_request m 8 = r" by (simp add: r_def RING_HEADER_def)
  have len: "unat (Request_Length r) = 8 + kn + vn"
    using request_ok_length [OF ok] by (simp add: r_def kn_def vn_def)
  have img: "image_of m = rd m 8 (8 + kn + vn)"
    using len unfolding r_def image_of_def RING_HEADER_def by simp
  have room': "L + 8 + kn + vn \<le> MAX_ASYNC_SIZE" using room by (simp add: L_def img)
  define mt where "mt = Meta_file 0 (of_nat (L + 8)) (key_size r) (val_size r)"
  have off: "unat (of_nat (L + 8) :: u32) = L + 8" using room' by (simp add: MAX_ASYNC_SIZE_def unat_of_nat unat_word_ariths)
  have ks: "m_key_size mt = key_size r" using key_size_31 [OF ok] by (simp add: mt_def Meta_file_def r_def)
  let ?b = "batch_add b m"
  have buf: "b_buffer ?b = wr (b_buffer b) L (rd m 8 (8 + kn + vn))" and blen: "batch_length ?b = L + (8 + kn + vn)"
    and bk: "keys ?b = keys b @ [rd m 16 kn]" and bm: "b_metas ?b = b_metas b @ [mt]"
    using len by (simp_all add: batch_add_def Let_def r8 L_def kn_def mt_def wire_consts)
  have pair: "pair_of m = (rd m 16 kn, rd m (16 + kn) vn)"
    by (simp add: pair_of_def Let_def r8 kn_def vn_def wire_consts)
  have new: "meta_value (b_buffer ?b) mt = rd m (16 + kn) vn"
    using ks off by (simp add: meta_value_def buf rd_wr_inside mt_def Meta_file_def kn_def vn_def algebra_simps)
  have fit: "meta_fits (batch_length ?b) mt"
    using ks off by (simp add: meta_fits_def blen mt_def Meta_file_def kn_def vn_def)
  have old: "meta_fits (batch_length ?b) (b_metas b ! i) \<and> meta_value (b_buffer ?b) (b_metas b ! i) = snd (ps ! i)"
    if "i < length ps" for i
    using b that meta_value_wr [of L "b_metas b ! i"] by (auto simp: batch_holds_def buf blen meta_fits_def L_def)
  have "rd (b_buffer ?b) 0 (L + (8 + kn + vn)) = concat imgs @ image_of m"
  proof -
    have "rd (b_buffer ?b) 0 L = concat imgs" using b by (simp add: buf batch_holds_def L_def rd_wr_disjoint)
    moreover have "rd (b_buffer ?b) L (8 + kn + vn) = image_of m" by (simp add: buf rd_wr_same img)
    ultimately show ?thesis using rd_append [of "b_buffer ?b" 0 L "8 + kn + vn"] by simp
  qed
  moreover have "length (keys b) = length ps" using b by (simp add: batch_holds_def)
  ultimately show ?thesis
    using b room' old new fit
    by (auto simp: batch_holds_def bk bm blen pair nth_append less_Suc_eq)
qed

lemma BuildBatchGroup_step:
  "request_ok m \<Longrightarrow> BuildBatchGroup_loop ((w, m) # ws) b lw =
    (if batch_length b + length (image_of m) \<le> MAX_ASYNC_SIZE
     then if MAX_ASYNC_SIZE \<le> batch_length (batch_add b m) then Inr (batch_add b m, Some w)
       else BuildBatchGroup_loop ws (batch_add b m) (Some w)
     else Inl Out_of_bounds)"
  using request_ok_length [of m]
  by (auto simp: Let_def image_of_def batch_add_def check_def request_ok_def CLERK_BUF_def wire_consts)

declare BuildBatchGroup_loop.simps(2) [simp del]

text \<open>A batch that is built holds the requests of a non-empty prefix of the queue, in order.\<close>

lemma BuildBatchGroup_loop_ok:
  assumes "BuildBatchGroup_loop ws b lw = Inr (b', lw')" and "batch_holds b ps imgs"
    and "\<And>w m. (w, m) \<in> set ws \<Longrightarrow> request_ok m"
  shows "\<exists>n \<le> length ws. (ws \<noteq> [] \<longrightarrow> 0 < n) \<and>
    batch_holds b' (ps @ map (pair_of \<circ> snd) (take n ws)) (imgs @ map (image_of \<circ> snd) (take n ws)) \<and>
    lw' = (if n = 0 then lw else Some (fst (ws ! (n - 1))))"
  using assms
proof (induction ws arbitrary: b lw ps imgs)
  case Nil
  then show ?case by simp
next
  case (Cons x ws)
  obtain w m where x: "x = (w, m)" by (cases x)
  have ok: "request_ok m" using Cons.prems(3) x by auto
  have room: "batch_length b + length (image_of m) \<le> MAX_ASYNC_SIZE"
    using Cons.prems(1) BuildBatchGroup_step [OF ok] by (auto simp: x split: if_splits)
  note h = batch_add_holds [OF Cons.prems(2) ok room]
  show ?case
  proof (cases "MAX_ASYNC_SIZE \<le> batch_length (batch_add b m)")
    case True
    then have "b' = batch_add b m" "lw' = Some w"
      using Cons.prems(1) BuildBatchGroup_step [OF ok] room by (auto simp: x)
    with h x show ?thesis by (intro exI [of _ 1]) simp
  next
    case False
    then have "BuildBatchGroup_loop ws (batch_add b m) (Some w) = Inr (b', lw')"
      using Cons.prems(1) BuildBatchGroup_step [OF ok] room by (simp add: x)
    then obtain n where n: "n \<le> length ws"
      "batch_holds b' ((ps @ [pair_of m]) @ map (pair_of \<circ> snd) (take n ws))
        ((imgs @ [image_of m]) @ map (image_of \<circ> snd) (take n ws))"
      "lw' = (if n = 0 then Some w else Some (fst (ws ! (n - 1))))"
      using Cons.IH [OF _ h] Cons.prems(3) by (metis list.set_intros(2))
    then show ?thesis by (intro exI [of _ "Suc n"]) (auto simp: x nth_Cons' comp_def)
  qed
qed

lemma BuildBatchGroup_ok:
  assumes "BuildBatchGroup ws b = Inr (b', lw)" and "\<And>w m. (w, m) \<in> set ws \<Longrightarrow> request_ok m" and "ws \<noteq> []"
  shows "\<exists>n. 0 < n \<and> n \<le> length ws \<and>
    batch_holds b' (map (pair_of \<circ> snd) (take n ws)) (map (image_of \<circ> snd) (take n ws)) \<and>
    lw = Some (fst (ws ! (n - 1)))"
proof -
  have "batch_holds (clear_batch b) [] []" by (simp add: batch_holds_def clear_batch_def)
  from BuildBatchGroup_loop_ok [OF assms(1) [unfolded BuildBatchGroup_def] this assms(2)] assms(3)
  show ?thesis by fastforce
qed

text \<open>No fault when all queued requests together fit the batch buffer.\<close>

lemma BuildBatchGroup_loop_total:
  assumes "\<And>w m. (w, m) \<in> set ws \<Longrightarrow> request_ok m"
    and "batch_length b + sum_list (map (length \<circ> image_of \<circ> snd) ws) \<le> MAX_ASYNC_SIZE"
  shows "\<exists>r. BuildBatchGroup_loop ws b lw = Inr r"
  using assms
proof (induction ws arbitrary: b lw)
  case (Cons x ws)
  obtain w m where x: "x = (w, m)" by (cases x)
  have ok: "request_ok m" using Cons.prems(1) x by auto
  have len: "batch_length (batch_add b m) = batch_length b + length (image_of m)"
    by (simp add: batch_add_def image_of_def Let_def)
  have "\<exists>r. BuildBatchGroup_loop ws (batch_add b m) (Some w) = Inr r"
    using Cons.prems by (intro Cons.IH) (auto simp: x len)
  then show ?case using Cons.prems(2) by (simp add: x BuildBatchGroup_step [OF ok])
qed simp

lemma mark_done_prefix:
  assumes "distinct q" and "0 < n" and "n \<le> length q"
  shows "mark_done me (q ! (n - 1)) q d = Inr (drop n q, d \<union> (set (take n q) - {me}))"
  using assms
proof (induction q arbitrary: n d)
  case (Cons x q)
  show ?case
  proof (cases "n = 1")
    case True
    then show ?thesis by auto
  next
    case False
    then obtain k where k: "n = Suc k" "0 < k" using Cons.prems by (cases n) auto
    then have "q ! (k - 1) \<noteq> x" using Cons.prems by (auto simp: in_set_conv_nth)
    with k Cons show ?thesis by (auto simp: nth_Cons' Let_def)
  qed
qed simp

end
