(* ===== verification/Group_Commit.thy ===== *)
theory Group_Commit
  imports Group_Front
begin

text \<open>
  The group commit as a whole: what holds in every state that the clerks can reach together. There is
  one leader at a time, the writer at the front of the queue; a request is acknowledged only after a
  batch that contains it was written to the database and to the log; the database is the replay of
  the logged batches, apart from the one batch that is between its two writes.
\<close>

section \<open>Invariants\<close>

fun leads :: "group_pc \<Rightarrow> bool" where
  "leads G_Leading \<longleftrightarrow> True"
| "leads (G_Writing b w) \<longleftrightarrow> True"
| "leads (G_Logging b w) \<longleftrightarrow> True"
| "leads (G_Logged b w) \<longleftrightarrow> True"
| "leads _ \<longleftrightarrow> False"

definition queue_inv :: "'d group_sys \<Rightarrow> bool" where
  "queue_inv s \<longleftrightarrow> distinct (g_queue s) \<and>
     (\<forall>t. t \<in> set (g_queue s) \<longleftrightarrow> leads (g_pc s t) \<or> g_pc s t = G_Queued \<and> t \<notin> g_done s) \<and>
     (\<forall>t. leads (g_pc s t) \<longrightarrow> (\<exists>q. g_queue s = t # q))"

definition req_inv :: "'d group_sys \<Rightarrow> bool" where
  "req_inv s \<longleftrightarrow> (\<forall>t \<in> set (g_queue s). request_ok (g_buf s t) \<and> image_of (g_buf s t) = g_req s t)"

definition prefix_batch :: "'d group_sys \<Rightarrow> WriteBatch \<Rightarrow> nat \<Rightarrow> bool" where
  "prefix_batch s b w \<longleftrightarrow> (\<exists>n. 0 < n \<and> n \<le> length (g_queue s) \<and> w = g_queue s ! (n - 1) \<and>
     batch_holds b (map (\<lambda>t. pair_of (g_buf s t)) (take n (g_queue s)))
       (map (\<lambda>t. image_of (g_buf s t)) (take n (g_queue s))))"

fun batch_in :: "group_pc \<Rightarrow> (WriteBatch \<times> nat) option" where
  "batch_in (G_Writing b w) = Some (b, w)"
| "batch_in (G_Logging b w) = Some (b, w)"
| "batch_in (G_Logged b w) = Some (b, w)"
| "batch_in _ = None"

definition batch_inv :: "'d group_sys \<Rightarrow> bool" where
  "batch_inv s \<longleftrightarrow> (\<forall>t b w. batch_in (g_pc s t) = Some (b, w) \<longrightarrow> prefix_batch s b w)"

definition batch_bytes :: "WriteBatch \<Rightarrow> bytes" where
  "batch_bytes b = rd (b_buffer b) 0 (batch_length b)"

definition logged :: "'d group_sys \<Rightarrow> nat \<Rightarrow> bool" where
  "logged s t \<longleftrightarrow> (\<exists>b \<in> set (g_batches s). \<exists>pre post. batch_bytes b = pre @ g_req s t @ post)"

definition ack_inv :: "'d group_sys \<Rightarrow> bool" where
  "ack_inv s \<longleftrightarrow> (\<forall>t. g_pc s t = G_Queued \<and> t \<in> g_done s \<longrightarrow> logged s t) \<and>
     (\<forall>t. g_pc s t = G_Reply True \<longrightarrow> logged s t) \<and>
     (\<forall>t b w. g_pc s t = G_Logged b w \<longrightarrow> b \<in> set (g_batches s))"

definition replay :: "WriteBatch list \<Rightarrow> (bytes \<rightharpoonup> bytes) \<Rightarrow> (bytes \<rightharpoonup> bytes)" where
  "replay bs c = fold (\<lambda>b c. apply_batch (b_buffer b) (keys b) (b_metas b) c) bs c"

text \<open>The batch between its write to the database and its write to the log.\<close>

definition half_written :: "'d group_sys \<Rightarrow> WriteBatch list" where
  "half_written s = (case g_queue s of [] \<Rightarrow> [] | t # q \<Rightarrow>
     (case g_pc s t of G_Logging b w \<Rightarrow> [b] | _ \<Rightarrow> []))"

definition db_inv :: "('d \<Rightarrow> bool) \<Rightarrow> ('d \<Rightarrow> (bytes \<rightharpoonup> bytes)) \<Rightarrow> (bytes \<rightharpoonup> bytes) \<Rightarrow> 'd group_sys \<Rightarrow> bool" where
  "db_inv ok contents c0 s \<longleftrightarrow> ok (g_db s) \<and> contents (g_db s) = replay (g_batches s @ half_written s) c0"

definition group_inv :: "('d \<Rightarrow> bool) \<Rightarrow> ('d \<Rightarrow> (bytes \<rightharpoonup> bytes)) \<Rightarrow> (bytes \<rightharpoonup> bytes) \<Rightarrow> 'd group_sys \<Rightarrow> bool" where
  "group_inv ok contents c0 s \<longleftrightarrow> queue_inv s \<and> req_inv s \<and> batch_inv s \<and> ack_inv s \<and> db_inv ok contents c0 s"

lemma group_invD:
  assumes "group_inv ok contents c0 s"
  shows "queue_inv s" and "req_inv s" and "batch_inv s" and "ack_inv s" and "db_inv ok contents c0 s"
  using assms by (simp_all add: group_inv_def)

lemma queue_invD:
  assumes "queue_inv s"
  shows "distinct (g_queue s)"
    and "t \<in> set (g_queue s) \<longleftrightarrow> leads (g_pc s t) \<or> g_pc s t = G_Queued \<and> t \<notin> g_done s"
    and "leads (g_pc s t) \<Longrightarrow> \<exists>q. g_queue s = t # q"
  using assms by (auto simp: queue_inv_def)

lemma leads_unique: "queue_inv s \<Longrightarrow> leads (g_pc s t) \<Longrightarrow> leads (g_pc s u) \<Longrightarrow> t = u"
  by (metis list.inject queue_invD(3))

lemma batch_in_leads: "batch_in pc = Some x \<Longrightarrow> leads pc"
  by (cases pc) auto

lemma batch_invD: "batch_inv s \<Longrightarrow> g_pc s t = pc \<Longrightarrow> batch_in pc = Some (b, w) \<Longrightarrow> prefix_batch s b w"
  by (auto simp: batch_inv_def)

lemma prefix_batch_mono:
  assumes pb: "prefix_batch s b w" and q: "g_queue s' = g_queue s @ rest"
    and buf: "\<And>u. u \<in> set (g_queue s) \<Longrightarrow> g_buf s' u = g_buf s u"
  shows "prefix_batch s' b w"
proof -
  obtain n where n: "0 < n" "n \<le> length (g_queue s)" "w = g_queue s ! (n - 1)"
    and h: "batch_holds b (map (\<lambda>t. pair_of (g_buf s t)) (take n (g_queue s)))
       (map (\<lambda>t. image_of (g_buf s t)) (take n (g_queue s)))" using pb by (auto simp: prefix_batch_def)
  have "map (\<lambda>t. pair_of (g_buf s' t)) (take n (g_queue s)) = map (\<lambda>t. pair_of (g_buf s t)) (take n (g_queue s))"
    "map (\<lambda>t. image_of (g_buf s' t)) (take n (g_queue s)) = map (\<lambda>t. image_of (g_buf s t)) (take n (g_queue s))"
    using buf by (auto dest: in_set_takeD)
  then have "batch_holds b (map (\<lambda>t. pair_of (g_buf s' t)) (take n (g_queue s)))
       (map (\<lambda>t. image_of (g_buf s' t)) (take n (g_queue s)))" using h by metis
  with n show ?thesis unfolding prefix_batch_def q by (intro exI [of _ n]) (auto simp: nth_append)
qed

text \<open>
  A change at a clerk that is not in the queue and does not enter it keeps what concerns the queue.
\<close>

lemma outside_queue:
  assumes inv: "group_inv ok contents c0 s" and t: "t \<notin> set (g_queue s)"
    and s': "g_queue s' = g_queue s" "g_done s' = g_done s" "g_db s' = g_db s" "g_batches s' = g_batches s"
      "g_req s' = g_req s" "\<And>u. u \<noteq> t \<Longrightarrow> g_pc s' u = g_pc s u" "\<And>u. u \<noteq> t \<Longrightarrow> g_buf s' u = g_buf s u"
    and pc: "\<not> leads (g_pc s' t)" "g_pc s' t \<noteq> G_Queued" "g_pc s' t = G_Reply True \<Longrightarrow> logged s t"
  shows "group_inv ok contents c0 s'"
proof -
  note I = group_invD [OF inv]
  have q: "queue_inv s'"
    using I(1) t pc s' unfolding queue_inv_def by (metis (no_types, lifting))
  have same: "g_buf s' u = g_buf s u" if "u \<in> set (g_queue s)" for u using that t s'(7) by metis
  have r: "req_inv s'" using I(2) same s' by (simp add: req_inv_def)
  have pb: "prefix_batch s' b w" if "prefix_batch s b w" for b w
    using prefix_batch_mono [OF that, of s' "[]"] same s'(1) by simp
  have pcb: "batch_in (g_pc s' t) = None" using pc(1) batch_in_leads by (cases "batch_in (g_pc s' t)") auto
  have b: "batch_inv s'"
    unfolding batch_inv_def
  proof (intro allI impI)
    fix u b w assume u: "batch_in (g_pc s' u) = Some (b, w)"
    then have "u \<noteq> t" using pcb by auto
    with u s'(6) show "prefix_batch s' b w" using batch_invD [OF I(3) refl, of u b w] pb by simp
  qed
  have "logged s' u = logged s u" for u using s' by (simp add: logged_def)
  then have a: "ack_inv s'"
    using I(4) s' pc by (auto simp: ack_inv_def) (metis leads.simps(4))+
  have "half_written s' = half_written s"
    using t s' by (auto simp: half_written_def split: list.splits)
  then have "db_inv ok contents c0 s'" using I(5) s' by (simp add: db_inv_def)
  with q r b a show ?thesis by (simp add: group_inv_def)
qed

lemma enqueue_inv:
  assumes inv: "group_inv ok contents c0 s" and t: "g_pc s t = G_Idle" and m: "request_ok m"
  shows "group_inv ok contents c0 (group_enqueue t m s)"
proof -
  let ?s = "group_enqueue t m s"
  note I = group_invD [OF inv]
  have notin: "t \<notin> set (g_queue s)" using queue_invD(2) [OF I(1), of t] t by simp
  have f: "g_queue ?s = g_queue s @ [t]" "g_done ?s = g_done s - {t}" "g_pc ?s = (g_pc s)(t := G_Queued)"
    "g_buf ?s = (g_buf s)(t := m)" "g_req ?s = (g_req s)(t := image_of m)" "g_batches ?s = g_batches s" "g_db ?s = g_db s"
    by (simp_all add: group_enqueue_def)
  have q: "queue_inv ?s"
    unfolding queue_inv_def f
  proof (intro conjI allI)
    show "distinct (g_queue s @ [t])" using queue_invD(1) [OF I(1)] notin by simp
    fix u
    show "u \<in> set (g_queue s @ [t]) \<longleftrightarrow> leads (((g_pc s)(t := G_Queued)) u) \<or>
        ((g_pc s)(t := G_Queued)) u = G_Queued \<and> u \<notin> g_done s - {t}"
      using queue_invD(2) [OF I(1), of u] by auto
    show "leads (((g_pc s)(t := G_Queued)) u) \<longrightarrow> (\<exists>q. g_queue s @ [t] = u # q)"
      using queue_invD(3) [OF I(1), of u] by auto
  qed
  have r: "req_inv ?s" using I(2) m notin by (auto simp: req_inv_def f)
  have "prefix_batch ?s b w" if "prefix_batch s b w" for b w
    by (rule prefix_batch_mono [OF that, of ?s "[t]"]) (use notin in \<open>auto simp: f\<close>)
  then have b: "batch_inv ?s" using I(3) by (auto simp: batch_inv_def f)
  have "logged ?s u = logged s u" if "u \<noteq> t" for u using that by (simp add: logged_def f)
  then have a: "ack_inv ?s" using I(4) by (auto simp: ack_inv_def f)
  have "half_written ?s = half_written s"
    using notin by (cases "g_queue s") (auto simp: half_written_def f)
  then have "db_inv ok contents c0 ?s" using I(5) by (simp add: db_inv_def f)
  with q r b a show ?thesis by (simp add: group_inv_def)
qed

text \<open>A leader moves from one of its phases to the next.\<close>

lemma leader_inv:
  assumes inv: "group_inv ok contents c0 s" and t: "g_queue s = t # q"
    and pc: "leads (g_pc s' t)" "\<And>u. u \<noteq> t \<Longrightarrow> g_pc s' u = g_pc s u"
    and old: "leads (g_pc s t) \<or> g_pc s t = G_Queued \<and> t \<notin> g_done s"
    and s': "g_queue s' = g_queue s" "g_done s' = g_done s" "g_buf s' = g_buf s" "g_req s' = g_req s"
      "set (g_batches s) \<subseteq> set (g_batches s')"
    and b: "\<And>b w. batch_in (g_pc s' t) = Some (b, w) \<Longrightarrow> prefix_batch s b w"
      "\<And>b w. g_pc s' t = G_Logged b w \<Longrightarrow> b \<in> set (g_batches s')"
    and db: "db_inv ok contents c0 s'"
  shows "group_inv ok contents c0 s'"
proof -
  note I = group_invD [OF inv]
  have others: "\<not> leads (g_pc s u)" if "u \<noteq> t" for u
    using that t queue_invD(3) [OF I(1), of u] by auto
  have qi: "queue_inv s'"
    unfolding queue_inv_def s'
  proof (intro conjI allI)
    show "distinct (g_queue s)" by (rule queue_invD(1) [OF I(1)])
    fix u
    show "u \<in> set (g_queue s) \<longleftrightarrow> leads (g_pc s' u) \<or> g_pc s' u = G_Queued \<and> u \<notin> g_done s"
      using queue_invD(2) [OF I(1), of u] t pc by (cases "u = t") auto
    show "leads (g_pc s' u) \<longrightarrow> (\<exists>q. g_queue s = u # q)"
      using others [of u] pc(2) [of u] t by (cases "u = t") auto
  qed
  have r: "req_inv s'" using I(2) by (simp add: req_inv_def s')
  have "prefix_batch s' = prefix_batch s" by (intro ext) (simp add: prefix_batch_def s')
  moreover have "batch_in (g_pc s' u) = None" if "u \<noteq> t" for u
    using others [OF that] pc(2) [OF that] batch_in_leads by (cases "batch_in (g_pc s' u)") auto
  ultimately have bi: "batch_inv s'" using b(1) unfolding batch_inv_def by (metis option.distinct(1))
  have lg: "logged s' u" if "logged s u" for u using that s'(4,5) by (auto simp: logged_def)
  have nl: "g_pc s' u \<noteq> G_Logged b w" if "u \<noteq> t" for u b w
    using others [OF that] pc(2) [OF that] by auto
  have "ack_inv s'"
    unfolding ack_inv_def
  proof (intro conjI allI impI)
    fix u assume "g_pc s' u = G_Queued \<and> u \<in> g_done s'"
    moreover from this pc(1) have "u \<noteq> t" by auto
    ultimately show "logged s' u" using I(4) pc(2) [of u] s'(2) lg by (simp add: ack_inv_def)
  next
    fix u assume "g_pc s' u = G_Reply True"
    moreover from this pc(1) have "u \<noteq> t" by auto
    ultimately show "logged s' u" using I(4) pc(2) [of u] lg by (simp add: ack_inv_def)
  next
    fix u bb w assume "g_pc s' u = G_Logged bb w"
    then show "bb \<in> set (g_batches s')" using nl b(2) by metis
  qed
  with qi r bi db show ?thesis by (simp add: group_inv_def)
qed

lemma set_pc_fields [simp]:
  "g_pc (set_pc t pc s) = (g_pc s)(t := pc)" "g_queue (set_pc t pc s) = g_queue s" "g_done (set_pc t pc s) = g_done s"
  "g_buf (set_pc t pc s) = g_buf s" "g_req (set_pc t pc s) = g_req s" "g_batches (set_pc t pc s) = g_batches s"
  "g_db (set_pc t pc s) = g_db s"
  by (simp_all add: set_pc_def)

lemma set_buf_fields [simp]:
  "g_pc (set_buf t m s) = g_pc s" "g_queue (set_buf t m s) = g_queue s" "g_done (set_buf t m s) = g_done s"
  "g_buf (set_buf t m s) = (g_buf s)(t := m)" "g_req (set_buf t m s) = g_req s"
  "g_batches (set_buf t m s) = g_batches s" "g_db (set_buf t m s) = g_db s"
  by (simp_all add: set_buf_def)

lemma request_in_batch:
  assumes "batch_holds b ps imgs" and "i \<in> set imgs"
  shows "\<exists>pre post. batch_bytes b = pre @ i @ post"
proof -
  obtain xs ys where "imgs = xs @ i # ys" using assms(2) by (metis split_list)
  then have "batch_bytes b = concat xs @ i @ concat ys" using assms(1) by (simp add: batch_holds_def batch_bytes_def)
  then show ?thesis by blast
qed

text \<open>The leader marks its followers and leaves the queue.\<close>

lemma finish_inv:
  assumes inv: "group_inv ok contents c0 s" and t: "g_pc s t = G_Logged b w" and fin: "group_finish t w s = Inr s'"
  shows "group_inv ok contents c0 s'"
proof -
  note I = group_invD [OF inv]
  have l: "leads (g_pc s t)" using t by simp
  obtain q where q: "g_queue s = t # q" using queue_invD(3) [OF I(1) l] by blast
  have "prefix_batch s b w" using batch_invD [OF I(3) t] by simp
  then obtain n where n: "0 < n" "n \<le> length (g_queue s)" "w = g_queue s ! (n - 1)"
    and holds: "batch_holds b (map (\<lambda>t. pair_of (g_buf s t)) (take n (g_queue s)))
         (map (\<lambda>t. image_of (g_buf s t)) (take n (g_queue s)))" by (auto simp: prefix_batch_def)
  have dist: "distinct (g_queue s)" by (rule queue_invD(1) [OF I(1)])
  define q' d' where "q' = drop n (g_queue s)" and "d' = g_done s \<union> (set (take n (g_queue s)) - {t})"
  have s': "s' = set_pc t (G_Reply True) (s\<lparr>g_queue := q', g_done := d'\<rparr>)"
    using fin mark_done_prefix [OF dist n(1,2), of t "g_done s"] n(3) by (simp add: group_finish_def q'_def d'_def)
  have f: "g_queue s' = q'" "g_done s' = d'" "g_pc s' = (g_pc s)(t := G_Reply True)" "g_buf s' = g_buf s"
    "g_req s' = g_req s" "g_batches s' = g_batches s" "g_db s' = g_db s" by (simp_all add: s')
  have split: "set (take n (g_queue s)) \<inter> set q' = {}" "set (g_queue s) = set (take n (g_queue s)) \<union> set q'"
    using dist unfolding q'_def by (simp_all add: set_take_disj_set_drop_if_distinct flip: set_append)
  have tn: "t \<in> set (take n (g_queue s))" using q n by (cases n) auto
  have nolead: "\<not> leads (g_pc s u)" if "u \<noteq> t" for u using leads_unique [OF I(1) l, of u] that by blast
  have qi: "queue_inv s'"
    unfolding queue_inv_def f
  proof (intro conjI allI)
    show "distinct q'" using dist by (simp add: q'_def)
    fix u
    show "u \<in> set q' \<longleftrightarrow> leads (((g_pc s)(t := G_Reply True)) u) \<or>
        ((g_pc s)(t := G_Reply True)) u = G_Queued \<and> u \<notin> d'"
      using queue_invD(2) [OF I(1), of u] nolead [of u] split tn by (cases "u = t") (auto simp: d'_def)
    show "leads (((g_pc s)(t := G_Reply True)) u) \<longrightarrow> (\<exists>q. q' = u # q)" using nolead [of u] by auto
  qed
  have r: "req_inv s'" using I(2) split by (auto simp: req_inv_def f)
  have "batch_in (g_pc s' u) = None" for u
    using nolead [of u] batch_in_leads [of "g_pc s u"] by (cases "u = t"; cases "batch_in (g_pc s u)") (auto simp: f)
  then have bi: "batch_inv s'" by (simp add: batch_inv_def)
  have lg: "logged s' u = logged s u" for u by (simp add: logged_def f)
  have inb: "b \<in> set (g_batches s)" using I(4) t unfolding ack_inv_def by blast
  have new: "logged s u" if u: "u \<in> set (take n (g_queue s))" for u
  proof -
    have "image_of (g_buf s u) = g_req s u" using I(2) u by (auto simp: req_inv_def dest: in_set_takeD)
    then show ?thesis using request_in_batch [OF holds, of "g_req s u"] u inb by (force simp: logged_def)
  qed
  have "g_pc s u \<noteq> G_Logged b' w'" if "u \<noteq> t" for u b' w' using nolead [OF that] by auto
  then have a: "ack_inv s'"
    using I(4) new tn by (auto simp: ack_inv_def lg f d'_def split: if_splits)
  have "half_written s = []" using q t by (simp add: half_written_def)
  moreover have "half_written s' = []"
  proof (cases q')
    case (Cons u q'')
    then have "u \<noteq> t" using split tn by auto
    with nolead [of u] Cons show ?thesis by (cases "g_pc s u") (auto simp: half_written_def f)
  qed (simp add: half_written_def f)
  ultimately have "db_inv ok contents c0 s'" using I(5) by (simp add: db_inv_def f)
  with qi r bi a show ?thesis by (simp add: group_inv_def)
qed

context kv_store
begin

lemma put_db_inv:
  assumes inv: "group_inv inv contents c0 s" and t: "g_pc s t = G_Writing b w" and put: "group_put_db vt t b w s = Inr s'"
  shows "group_inv inv contents c0 s'"
proof -
  note I = group_invD [OF inv]
  obtain q where q: "g_queue s = t # q" using queue_invD(3) [OF I(1), of t] t by auto
  have pb: "prefix_batch s b w" using batch_invD [OF I(3) t] by simp
  then obtain ps imgs where holds: "batch_holds b ps imgs" by (auto simp: prefix_batch_def)
  have d: "inv (g_db s)" using I(5) by (simp add: db_inv_def)
  have l: "length (keys b) = length (b_metas b)" using holds by (simp add: batch_holds_def)
  obtain d' where d': "db_PutBatch vt (g_db s) (keys b) (b_metas b) (b_buffer b) MAX_ASYNC_SIZE (of_nat (batch_length b)) = Inr (True, d')"
    "inv d'" "contents d' = apply_batch (b_buffer b) (keys b) (b_metas b) (contents (g_db s))"
    using put_batch [OF d l batch_holds_fits [OF holds]] by blast
  have s': "s' = set_pc t (G_Logging b w) (s\<lparr>g_db := d'\<rparr>)" using put d'(1) by (simp add: group_put_db_def)
  have "half_written s = []" "half_written s' = [b]" using q t by (simp_all add: half_written_def s')
  then have "db_inv inv contents c0 s'"
    using I(5) d' by (simp add: db_inv_def s' replay_def)
  then show ?thesis
    using pb t by (intro leader_inv [OF inv q]) (auto simp: s')
qed

lemma put_log_inv:
  assumes inv: "group_inv inv contents c0 s" and t: "g_pc s t = G_Logging b w"
  shows "group_inv inv contents c0 (group_put_log t b w s)"
proof -
  let ?s = "group_put_log t b w s"
  note I = group_invD [OF inv]
  obtain q where q: "g_queue s = t # q" using queue_invD(3) [OF I(1), of t] t by auto
  have pb: "prefix_batch s b w" using batch_invD [OF I(3) t] by simp
  have f: "g_queue ?s = g_queue s" "g_done ?s = g_done s" "g_buf ?s = g_buf s" "g_req ?s = g_req s" "g_db ?s = g_db s"
    "g_batches ?s = g_batches s @ [b]" "g_pc ?s = (g_pc s)(t := G_Logged b w)"
    by (simp_all add: group_put_log_def)
  have "half_written s = [b]" "half_written ?s = []" using q t by (simp_all add: half_written_def f)
  then have "db_inv inv contents c0 ?s" using I(5) by (simp add: db_inv_def f)
  then show ?thesis
    using pb t by (intro leader_inv [OF inv q]) (auto simp: f)
qed

lemma build_inv:
  assumes inv: "group_inv inv contents c0 s" and t: "g_pc s t = G_Leading" and build: "group_build t s = Inr s'"
  shows "group_inv inv contents c0 s'"
proof -
  note I = group_invD [OF inv]
  obtain q where q: "g_queue s = t # q" using queue_invD(3) [OF I(1), of t] t by auto
  let ?ws = "map (\<lambda>w. (w, g_buf s w)) (g_queue s)"
  obtain b w where b: "BuildBatchGroup ?ws (g_batch s) = Inr (b, Some w)"
    and s': "s' = set_pc t (G_Writing b w) (s\<lparr>g_batch := b\<rparr>)"
    using build by (auto simp: group_build_def split: option.splits)
  have ok: "request_ok m" if "(u, m) \<in> set ?ws" for u m using that I(2) by (auto simp: req_inv_def)
  have "\<exists>n. 0 < n \<and> n \<le> length ?ws \<and>
    batch_holds b (map (pair_of \<circ> snd) (take n ?ws)) (map (image_of \<circ> snd) (take n ?ws)) \<and>
    Some w = Some (fst (?ws ! (n - 1)))"
    by (rule BuildBatchGroup_ok [OF b]) (use ok q in auto)
  then obtain n where n: "0 < n" "n \<le> length ?ws" "Some w = Some (fst (?ws ! (n - 1)))"
    "batch_holds b (map (pair_of \<circ> snd) (take n ?ws)) (map (image_of \<circ> snd) (take n ?ws))"
    by (elim exE conjE)
  have pb: "prefix_batch s b w"
    unfolding prefix_batch_def using n by (intro exI [of _ n]) (auto simp: take_map comp_def)
  have "half_written s = []" "half_written s' = []" using q t by (simp_all add: half_written_def s')
  then have "db_inv inv contents c0 s'" using I(5) by (simp add: db_inv_def s')
  then show ?thesis using pb t by (intro leader_inv [OF inv q]) (auto simp: s')
qed

lemma receive_inv:
  assumes inv: "group_inv inv contents c0 s" and t: "g_pc s t = G_Idle" and m: "request_ok m"
    and rc: "GroupClerk_receive vt t m s = Inr s'"
  shows "group_inv inv contents c0 s'"
proof -
  have r: "read_request (set_header CLERK_DONE m) RING_HEADER = read_request m RING_HEADER"
    by (simp add: read_request_def RING_HEADER_def mem_simps)
  then have ok: "request_ok (set_header CLERK_DONE m)" using m by (simp add: request_ok_def)
  have notin: "t \<notin> set (g_queue s)" using queue_invD(2) [OF group_invD(1) [OF inv], of t] t by simp
  consider "s' = set_pc t G_Closed (set_buf t (set_header CLERK_DONE m) s)"
    | m' where "s' = set_pc t (G_Reply False) (set_buf t m' s)" | "s' = group_enqueue t (set_header CLERK_DONE m) s"
    using rc by (auto simp: GroupClerk_receive_def Let_def split: if_splits)
  then show ?thesis
  proof cases
    case 3
    then show ?thesis using enqueue_inv [OF inv t ok] by simp
  qed (use notin in \<open>auto intro!: outside_queue [OF inv notin]\<close>)
qed

lemma group_step_inv:
  assumes "group_step vt s s'" and inv: "group_inv inv contents c0 s"
  shows "group_inv inv contents c0 s'"
  using assms(1)
proof cases
  case (receive t m)
  then show ?thesis using receive_inv [OF inv] by blast
next
  case (lead t q)
  note I = group_invD [OF inv]
  have "half_written s = []" "half_written s' = []" using lead by (simp_all add: half_written_def)
  then have "db_inv inv contents c0 s'" using I(5) lead(1) by (simp add: db_inv_def)
  then show ?thesis using lead by (intro leader_inv [OF inv lead(4)]) auto
next
  case (follow t)
  have notin: "t \<notin> set (g_queue s)" using queue_invD(2) [OF group_invD(1) [OF inv], of t] follow by simp
  obtain m' where "s' = set_pc t (G_Reply True) (set_buf t m' s)" using follow by (auto simp: group_follow_def)
  moreover have "logged s t" using follow group_invD(4) [OF inv] by (simp add: ack_inv_def)
  ultimately show ?thesis by (intro outside_queue [OF inv notin]) auto
next
  case (build t)
  then show ?thesis using build_inv [OF inv] by blast
next
  case (put_db t b w)
  then show ?thesis using put_db_inv [OF inv] by blast
next
  case (put_log t b w)
  then show ?thesis using put_log_inv [OF inv] by blast
next
  case (finish t b w)
  then show ?thesis using finish_inv [OF inv] by blast
next
  case (reply t x)
  have notin: "t \<notin> set (g_queue s)" using queue_invD(2) [OF group_invD(1) [OF inv], of t] reply by simp
  show ?thesis using reply by (intro outside_queue [OF inv notin]) auto
qed

lemma group_init_inv: "inv d \<Longrightarrow> group_inv inv contents (contents d) (group_init d)"
  by (simp add: group_inv_def queue_inv_def req_inv_def batch_inv_def ack_inv_def db_inv_def group_init_def
      half_written_def replay_def)

lemma group_reach_inv:
  assumes "group_reach vt d s" and "inv d"
  shows "group_inv inv contents (contents d) s"
  using assms(1) by induction (use group_init_inv [OF assms(2)] group_step_inv in auto)

end

section \<open>Properties\<close>

lemma reachable_group_inv:
  assumes "group_reach CuckooDB_vt d s"
  shows "group_inv (\<lambda>_. True) (\<lambda>d. d) d s"
  using cuckoo.group_reach_inv [OF assms] by simp

text \<open>A clerk alone on the server takes one request through all phases.\<close>

lemma solo_commit:
  assumes ok: "request_ok m" and hd: "header m = CLIENT_DONE"
    and op: "op (read_request m RING_HEADER) \<noteq> op_code CLOSE" "op (read_request m RING_HEADER) \<noteq> op_code GET"
  shows "\<exists>s. group_reach CuckooDB_vt CuckooDB_new s \<and> g_pc s 0 = G_Reply True \<and> g_batches s \<noteq> [] \<and>
    g_req s 0 = image_of (set_header CLERK_DONE m)"
proof -
  let ?m = "set_header CLERK_DONE m" and ?s0 = "group_init CuckooDB_new"
  have r: "read_request ?m RING_HEADER = read_request m RING_HEADER"
    by (simp add: read_request_def RING_HEADER_def mem_simps)
  have ok': "request_ok ?m" using ok r by (simp add: request_ok_def)
  define s1 where "s1 = group_enqueue 0 ?m ?s0"
  have "GroupClerk_receive CuckooDB_vt 0 m ?s0 = Inr s1"
    using op r by (simp add: GroupClerk_receive_def s1_def)
  then have "group_step CuckooDB_vt ?s0 s1"
    by (intro receive [OF _ hd ok]) (simp_all add: group_init_def)
  note r1 = group_reach.step [OF group_reach.init this]
  define s2 where "s2 = set_pc 0 G_Leading s1"
  have "group_step CuckooDB_vt s1 s2"
    unfolding s2_def by (rule lead [where q = "[]"]) (simp_all add: s1_def group_enqueue_def group_init_def)
  note r2 = group_reach.step [OF r1 this]
  define b where "b = batch_add (clear_batch (g_batch s2)) ?m"
  have "BuildBatchGroup (map (\<lambda>w. (w, g_buf s2 w)) (g_queue s2)) (g_batch s2) = Inr (b, Some 0)"
  proof -
    have q: "g_queue s2 = [0]" "g_buf s2 0 = ?m" by (simp_all add: s2_def s1_def group_enqueue_def group_init_def)
    have "length (image_of ?m) \<le> MAX_ASYNC_SIZE"
      using ok' length_image_of [OF ok'] by (simp add: request_ok_def Let_def wire_consts)
    then show ?thesis
      using BuildBatchGroup_step [OF ok', of 0 "[]"] by (simp add: BuildBatchGroup_def q b_def clear_batch_def)
  qed
  then have "group_build 0 s2 = Inr (set_pc 0 (G_Writing b 0) (s2\<lparr>g_batch := b\<rparr>))" by (simp add: group_build_def)
  moreover define s3 where "s3 = set_pc 0 (G_Writing b 0) (s2\<lparr>g_batch := b\<rparr>)"
  ultimately have "group_step CuckooDB_vt s2 s3" by (intro build [where t = 0]) (simp_all add: s2_def)
  note r3 = group_reach.step [OF r2 this]
  have p3: "g_pc s3 0 = G_Writing b 0" by (simp add: s3_def)
  have inv3: "group_inv (\<lambda>_. True) (\<lambda>d. d) CuckooDB_new s3" by (rule reachable_group_inv [OF r3])
  have "prefix_batch s3 b 0" by (rule batch_invD [OF group_invD(3) [OF inv3] p3]) simp
  then obtain ps imgs where holds: "batch_holds b ps imgs" by (auto simp: prefix_batch_def)
  obtain d' where "db_PutBatch CuckooDB_vt (g_db s3) (keys b) (b_metas b) (b_buffer b) MAX_ASYNC_SIZE (of_nat (batch_length b)) = Inr (True, d')"
    using cuckoo.put_batch [where d = "g_db s3" and ks = "keys b" and ms = "b_metas b" and cap = MAX_ASYNC_SIZE]
      batch_holds_fits [OF holds] holds by (auto simp: batch_holds_def)
  then have "group_put_db CuckooDB_vt 0 b 0 s3 = Inr (set_pc 0 (G_Logging b 0) (s3\<lparr>g_db := d'\<rparr>))"
    by (simp add: group_put_db_def)
  note r4 = group_reach.step [OF r3 put_db [OF p3 this]]
  define s4 where "s4 = set_pc 0 (G_Logging b 0) (s3\<lparr>g_db := d'\<rparr>)"
  have p4: "g_pc s4 0 = G_Logging b 0" by (simp add: s4_def)
  note r5 = group_reach.step [OF r4 [folded s4_def] put_log [OF p4]]
  define s5 where "s5 = group_put_log 0 b 0 s4"
  have p5: "g_pc s5 0 = G_Logged b 0" "g_queue s5 = [0]" "g_req s5 0 = image_of ?m" "g_batches s5 \<noteq> []"
    by (simp_all add: s5_def group_put_log_def s4_def s3_def s2_def s1_def group_enqueue_def group_init_def)
  have "group_finish 0 0 s5 = Inr (set_pc 0 (G_Reply True) (s5\<lparr>g_queue := [], g_done := g_done s5\<rparr>))"
    by (simp add: group_finish_def p5)
  note r6 = group_reach.step [OF r5 [folded s5_def] finish [OF p5(1) this]]
  show ?thesis
    by (rule exI, intro conjI, rule r6) (simp_all add: p5)
qed

definition empty_batch :: WriteBatch where
  "empty_batch = \<lparr>batch_length = 0, keys = [], b_metas = [], b_buffer = (\<lambda>_. 0)\<rparr>"

definition sample_request :: buffer where
  "sample_request = set_header CLIENT_DONE (wr (wr (\<lambda>_. 0) 8 (request_bytes (op_code PUT) 1 1)) 16 [7, 9])"

lemma sample_request_facts:
  "read_request sample_request RING_HEADER = \<lparr>op = op_code PUT, key_size = 1, val_size = 1\<rparr>"
  "header sample_request = CLIENT_DONE" "request_ok sample_request"
proof -
  have "rd sample_request 8 8 = request_bytes (op_code PUT) 1 1" by (simp add: sample_request_def mem_simps)
  then have "read_request sample_request 8 = \<lparr>op = op_code PUT, key_size = 1, val_size = 1\<rparr>"
    by (rule read_request_bytes) simp
  then show r: "read_request sample_request RING_HEADER = \<lparr>op = op_code PUT, key_size = 1, val_size = 1\<rparr>"
    by (simp add: RING_HEADER_def)
  show "header sample_request = CLIENT_DONE" by (simp add: sample_request_def)
  show "request_ok sample_request" using r by (simp add: request_ok_def wire_consts)
qed

lemma committed_state:
  "\<exists>s. group_reach CuckooDB_vt CuckooDB_new s \<and> g_pc s 0 = G_Reply True \<and> g_batches s \<noteq> []"
  using solo_commit [OF sample_request_facts(3,2)] sample_request_facts(1) by auto



text \<open>
  C6. There is at most one leader, it is the writer at the front of the queue, and the
  queue holds exactly the leader and the writers that are not yet marked, each once: the shared batch
  is never built by two clerks at a time.
\<close>

theorem group_single_leader:
  assumes "group_reach CuckooDB_vt d s"
  shows "distinct (g_queue s) \<and> (\<forall>t u. leads (g_pc s t) \<and> leads (g_pc s u) \<longrightarrow> t = u) \<and>
    (\<forall>t. leads (g_pc s t) \<longrightarrow> hd (g_queue s) = t) \<and>
    set (g_queue s) = {t. leads (g_pc s t) \<or> g_pc s t = G_Queued \<and> t \<notin> g_done s}"
proof -
  have q: "queue_inv s" by (rule group_invD(1) [OF reachable_group_inv [OF assms]])
  have "hd (g_queue s) = t" if "leads (g_pc s t)" for t using queue_invD(3) [OF q that] by auto
  with q leads_unique [OF q] show ?thesis by (auto simp: queue_inv_def)
qed

theorem group_single_leader_witness:
  "\<exists>s. group_reach CuckooDB_vt CuckooDB_new s \<and> g_batches s \<noteq> [] \<and> distinct (g_queue s)"
  using committed_state group_single_leader by blast



text \<open>
  C11. A batch that is built without a fault holds, in queue order, the pairs and the
  byte images of a non-empty prefix of the queue, and its last writer ends that prefix; as long as
  the queued requests together fit the batch buffer, it is built.
\<close>

theorem group_batch_complete:
  assumes "\<forall>x \<in> set ws. request_ok (snd x)" and "ws \<noteq> []"
  shows "(\<forall>b' lw. BuildBatchGroup ws b = Inr (b', lw) \<longrightarrow> (\<exists>n. 0 < n \<and> n \<le> length ws \<and>
      lw = Some (fst (ws ! (n - 1))) \<and>
      rd (b_buffer b') 0 (batch_length b') = concat (map (image_of \<circ> snd) (take n ws)) \<and>
      apply_batch (b_buffer b') (keys b') (b_metas b') c = put_pairs (map (pair_of \<circ> snd) (take n ws)) c)) \<and>
    (sum_list (map (length \<circ> image_of \<circ> snd) ws) \<le> MAX_ASYNC_SIZE \<longrightarrow> (\<exists>r. BuildBatchGroup ws b = Inr r))"
proof (intro conjI allI impI)
  fix b' lw assume "BuildBatchGroup ws b = Inr (b', lw)"
  from BuildBatchGroup_ok [OF this _ assms(2)] assms(1)
  obtain n where n: "0 < n" "n \<le> length ws" "lw = Some (fst (ws ! (n - 1)))"
    and h: "batch_holds b' (map (pair_of \<circ> snd) (take n ws)) (map (image_of \<circ> snd) (take n ws))" by fastforce
  from n h batch_holds_apply [OF h, of c]
  show "\<exists>n. 0 < n \<and> n \<le> length ws \<and> lw = Some (fst (ws ! (n - 1))) \<and>
      rd (b_buffer b') 0 (batch_length b') = concat (map (image_of \<circ> snd) (take n ws)) \<and>
      apply_batch (b_buffer b') (keys b') (b_metas b') c = put_pairs (map (pair_of \<circ> snd) (take n ws)) c"
    unfolding batch_holds_def by blast
next
  assume "sum_list (map (length \<circ> image_of \<circ> snd) ws) \<le> MAX_ASYNC_SIZE"
  then show "\<exists>r. BuildBatchGroup ws b = Inr r"
    unfolding BuildBatchGroup_def using assms(1)
    by (intro BuildBatchGroup_loop_total) (auto simp: clear_batch_def)
qed

theorem group_batch_complete_witness:
  "\<exists>r. BuildBatchGroup [(0, sample_request), (1, sample_request)] empty_batch = Inr r"
proof -
  have "length (image_of sample_request) = 10"
    using length_image_of [OF sample_request_facts(3)] sample_request_facts(1) by simp
  then show ?thesis
    using group_batch_complete [of "[(0, sample_request), (1, sample_request)]" empty_batch] sample_request_facts(3)
    by (auto simp: wire_consts)
qed

lemma BuildBatchGroup_loop_overrun:
  assumes "\<And>x. x \<in> set (us @ (w, m) # vs) \<Longrightarrow> request_ok (snd x)"
    and "batch_length b + sum_list (map (length \<circ> image_of \<circ> snd) us) < MAX_ASYNC_SIZE"
    and "MAX_ASYNC_SIZE < batch_length b + sum_list (map (length \<circ> image_of \<circ> snd) us) + length (image_of m)"
  shows "BuildBatchGroup_loop (us @ (w, m) # vs) b lw = Inl Out_of_bounds"
  using assms
proof (induction us arbitrary: b lw)
  case Nil
  then have "request_ok m" by force
  from BuildBatchGroup_step [OF this] Nil show ?case by simp
next
  case (Cons x us)
  obtain u n where x: "x = (u, n)" by (cases x)
  have ok: "request_ok n" using Cons.prems(1) [of x] x by auto
  have len: "batch_length (batch_add b n) = batch_length b + length (image_of n)"
    by (simp add: batch_add_def image_of_def Let_def)
  have "BuildBatchGroup_loop (us @ (w, m) # vs) (batch_add b n) (Some u) = Inl Out_of_bounds"
    using Cons.prems by (intro Cons.IH) (auto simp: x len)
  then show ?case using Cons.prems(2) by (simp add: x BuildBatchGroup_step [OF ok] len)
qed

text \<open>
  C22. The size of the batch is tested only after the copy: when the requests before one
  leave less room than it needs, the copy runs past the end of the batch buffer.
\<close>

theorem group_batch_overruns:
  assumes "\<forall>x \<in> set (us @ (w, m) # vs). request_ok (snd x)"
    and "sum_list (map (length \<circ> image_of \<circ> snd) us) < MAX_ASYNC_SIZE"
    and "MAX_ASYNC_SIZE < sum_list (map (length \<circ> image_of \<circ> snd) us) + length (image_of m)"
  shows "BuildBatchGroup (us @ (w, m) # vs) b = Inl Out_of_bounds"
  unfolding BuildBatchGroup_def using assms
  by (intro BuildBatchGroup_loop_overrun) (auto simp: clear_batch_def)

definition large_request :: buffer where
  "large_request = wr (\<lambda>_. 0) 8 (request_bytes (op_code PUT) 8 3984)"

lemma large_request_facts: "request_ok large_request" "length (image_of large_request) = 4000"
proof -
  have "rd large_request 8 8 = request_bytes (op_code PUT) 8 3984" by (simp add: large_request_def mem_simps)
  then have r: "read_request large_request 8 = \<lparr>op = op_code PUT, key_size = 8, val_size = 3984\<rparr>"
    by (rule read_request_bytes) simp
  then show ok: "request_ok large_request" by (simp add: request_ok_def wire_consts)
  show "length (image_of large_request) = 4000" using length_image_of [OF ok] r by (simp add: RING_HEADER_def)
qed

theorem group_batch_overruns_witness:
  "BuildBatchGroup (map (\<lambda>w. (w, large_request)) [0..<8] @ (8, large_request) # []) empty_batch = Inl Out_of_bounds"
  by (rule group_batch_overruns) (auto simp: large_request_facts MAX_ASYNC_SIZE_def comp_def sum_list_triv)



end
