(* ===== verification/Skip_List.thy ===== *)
theory Skip_List
  imports Prelude
begin

text \<open>
  The skip list of \<open>database/leveldb/db/skiplist.h\<close> with the random number generator of
  \<open>database/leveldb/util/random.h\<close>. Nodes are numbers, the head is node 0, and \<open>sl_next\<close> holds the link of a
  node at a level, \<open>None\<close> being the null pointer. The search loops follow links that nothing bounds, so they
  are partial functions that return \<open>None\<close> if they do not end; the lemmas show that on a well-formed list
  they end. A list is described by the sequence of its nodes and a height for each: level \<open>i\<close> links the nodes
  of height above \<open>i\<close>, in order. The locale \<open>key_order\<close> holds what the list needs of its comparison.
\<close>

section \<open>Random numbers\<close>

definition Random_M :: u32 where "Random_M = 2147483647"

definition Random_make :: "u32 \<Rightarrow> u32" where
  "Random_make s = (let seed = s AND 0x7fffffff in if seed = 0 \<or> seed = Random_M then 1 else seed)"

definition Random_Next :: "u32 \<Rightarrow> u32" where
  "Random_Next seed =
     (let product = (ucast seed :: u64) * 16807;
          seed = (ucast (drop_bit 31 product + (product AND ucast Random_M)) :: u32) in
      if seed > Random_M then seed - Random_M else seed)"

definition Random_Uniform :: "u32 \<Rightarrow> u32 \<Rightarrow> u32 \<times> u32" where
  "Random_Uniform n seed = (let seed = Random_Next seed in (seed mod n, seed))"

definition Random_OneIn :: "u32 \<Rightarrow> u32 \<Rightarrow> bool \<times> u32" where
  "Random_OneIn n seed = (let seed = Random_Next seed in (seed mod n = 0, seed))"

section \<open>The list\<close>

definition kMaxHeight :: nat where "kMaxHeight = 12"

record 'k SkipList =
  sl_key :: "nat \<Rightarrow> 'k"
  sl_next :: "nat \<Rightarrow> nat \<Rightarrow> nat option"
  sl_max_height :: nat
  sl_rnd :: u32
  sl_fresh :: nat

text \<open>The head takes any key.\<close>

definition SkipList_make :: "'k \<Rightarrow> 'k SkipList" where
  "SkipList_make k = \<lparr>sl_key = (\<lambda>_. k), sl_next = (\<lambda>_ _. None), sl_max_height = 1, sl_rnd = Random_make 0xdeadbeef,
     sl_fresh = 1\<rparr>"

definition KeyIsAfterNode :: "('k \<Rightarrow> 'k \<Rightarrow> int) \<Rightarrow> 'k SkipList \<Rightarrow> 'k \<Rightarrow> nat option \<Rightarrow> bool" where
  "KeyIsAfterNode cmp sl key n = (case n of None \<Rightarrow> False | Some n \<Rightarrow> cmp (sl_key sl n) key < 0)"

partial_function (option) FindGreaterOrEqual_loop ::
  "('k \<Rightarrow> 'k \<Rightarrow> int) \<Rightarrow> 'k SkipList \<Rightarrow> 'k \<Rightarrow> nat \<Rightarrow> nat \<Rightarrow> (nat \<Rightarrow> nat) \<Rightarrow> (nat option \<times> (nat \<Rightarrow> nat)) option" where
  "FindGreaterOrEqual_loop cmp sl key x level prev =
     (let next = sl_next sl x level in
      if KeyIsAfterNode cmp sl key next then FindGreaterOrEqual_loop cmp sl key (the next) level prev
      else
        let prev = prev(level := x) in
        if level = 0 then Some (next, prev)
        else FindGreaterOrEqual_loop cmp sl key x (level - 1) prev)"

definition FindGreaterOrEqual ::
  "('k \<Rightarrow> 'k \<Rightarrow> int) \<Rightarrow> 'k SkipList \<Rightarrow> 'k \<Rightarrow> (nat \<Rightarrow> nat) \<Rightarrow> (nat option \<times> (nat \<Rightarrow> nat)) option" where
  "FindGreaterOrEqual cmp sl key prev = FindGreaterOrEqual_loop cmp sl key 0 (sl_max_height sl - 1) prev"

partial_function (option) FindLessThan_loop ::
  "('k \<Rightarrow> 'k \<Rightarrow> int) \<Rightarrow> 'k SkipList \<Rightarrow> 'k \<Rightarrow> nat \<Rightarrow> nat \<Rightarrow> nat result option" where
  "FindLessThan_loop cmp sl key x level =
     (if \<not> (x = 0 \<or> cmp (sl_key sl x) key < 0) then Some (Inl Assert_failed)
      else
        let next = sl_next sl x level in
        if next = None \<or> cmp (sl_key sl (the next)) key \<ge> 0 then
          if level = 0 then Some (Inr x) else FindLessThan_loop cmp sl key x (level - 1)
        else FindLessThan_loop cmp sl key (the next) level)"

definition FindLessThan :: "('k \<Rightarrow> 'k \<Rightarrow> int) \<Rightarrow> 'k SkipList \<Rightarrow> 'k \<Rightarrow> nat result option" where
  "FindLessThan cmp sl key = FindLessThan_loop cmp sl key 0 (sl_max_height sl - 1)"

partial_function (option) FindLast_loop :: "'k SkipList \<Rightarrow> nat \<Rightarrow> nat \<Rightarrow> nat option" where
  "FindLast_loop sl x level =
     (let next = sl_next sl x level in
      if next = None then if level = 0 then Some x else FindLast_loop sl x (level - 1)
      else FindLast_loop sl (the next) level)"

definition FindLast :: "'k SkipList \<Rightarrow> nat option" where
  "FindLast sl = FindLast_loop sl 0 (sl_max_height sl - 1)"

function RandomHeight_loop :: "nat \<Rightarrow> u32 \<Rightarrow> nat \<times> u32" where
  "RandomHeight_loop height rnd =
     (if height < kMaxHeight then
        let r = Random_Next rnd in
        if r mod 4 = 0 then RandomHeight_loop (Suc height) r else (height, r)
      else (height, rnd))"
  by auto
termination
  by (relation "measure (\<lambda>(height, _). kMaxHeight - height)") auto

declare RandomHeight_loop.simps [simp del]

definition RandomHeight :: "u32 \<Rightarrow> nat \<times> u32" where
  "RandomHeight rnd = RandomHeight_loop 1 rnd"

text \<open>The loop of \<open>Insert\<close>: the new node takes over the link of its predecessor at each of its levels.\<close>

fun link_levels :: "nat \<Rightarrow> (nat \<Rightarrow> nat) \<Rightarrow> nat \<Rightarrow> nat \<Rightarrow> (nat \<Rightarrow> nat \<Rightarrow> nat option) \<Rightarrow> (nat \<Rightarrow> nat \<Rightarrow> nat option)" where
  "link_levels x prev i 0 nxt = nxt"
| "link_levels x prev i (Suc n) nxt =
     (let nxt = nxt(x := (nxt x)(i := nxt (prev i) i));
          nxt = nxt(prev i := (nxt (prev i))(i := Some x)) in
      link_levels x prev (Suc i) n nxt)"

definition SkipList_Insert :: "('k \<Rightarrow> 'k \<Rightarrow> int) \<Rightarrow> 'k SkipList \<Rightarrow> 'k \<Rightarrow> 'k SkipList result option" where
  "SkipList_Insert cmp sl key =
     (case FindGreaterOrEqual cmp sl key (\<lambda>_. 0) of
        None \<Rightarrow> None
      | Some (x, prev) \<Rightarrow>
          Some (if x \<noteq> None \<and> cmp key (sl_key sl (the x)) = 0 then Inl Assert_failed
            else
              let (height, rnd) = RandomHeight (sl_rnd sl);
                  mh = sl_max_height sl;
                  prev = (if height > mh then (\<lambda>i. if mh \<le> i \<and> i < height then 0 else prev i) else prev);
                  x = sl_fresh sl in
              Inr (sl\<lparr>sl_key := (sl_key sl)(x := key), sl_next := link_levels x prev 0 height (sl_next sl),
                     sl_max_height := (if height > mh then height else mh), sl_rnd := rnd,
                     sl_fresh := Suc x\<rparr>)))"

definition SkipList_Contains :: "('k \<Rightarrow> 'k \<Rightarrow> int) \<Rightarrow> 'k SkipList \<Rightarrow> 'k \<Rightarrow> bool option" where
  "SkipList_Contains cmp sl key =
     (case FindGreaterOrEqual cmp sl key (\<lambda>_. 0) of
        None \<Rightarrow> None
      | Some (x, _) \<Rightarrow> Some (x \<noteq> None \<and> cmp key (sl_key sl (the x)) = 0))"

text \<open>An iterator is its \<open>node_\<close>.\<close>

definition Iter_Seek :: "('k \<Rightarrow> 'k \<Rightarrow> int) \<Rightarrow> 'k SkipList \<Rightarrow> 'k \<Rightarrow> nat option option" where
  "Iter_Seek cmp sl target = map_option fst (FindGreaterOrEqual cmp sl target (\<lambda>_. 0))"

definition Iter_SeekToFirst :: "'k SkipList \<Rightarrow> nat option" where
  "Iter_SeekToFirst sl = sl_next sl 0 0"

definition Iter_SeekToLast :: "'k SkipList \<Rightarrow> nat option option" where
  "Iter_SeekToLast sl = map_option (\<lambda>n. if n = 0 then None else Some n) (FindLast sl)"

definition Iter_Next :: "'k SkipList \<Rightarrow> nat option \<Rightarrow> nat option result" where
  "Iter_Next sl it = (case it of None \<Rightarrow> Inl Assert_failed | Some n \<Rightarrow> Inr (sl_next sl n 0))"

definition Iter_Prev :: "('k \<Rightarrow> 'k \<Rightarrow> int) \<Rightarrow> 'k SkipList \<Rightarrow> nat option \<Rightarrow> nat option result option" where
  "Iter_Prev cmp sl it =
     (case it of
        None \<Rightarrow> Some (Inl Assert_failed)
      | Some n \<Rightarrow> map_option (\<lambda>r. and_then r (\<lambda>n. Inr (if n = 0 then None else Some n)))
          (FindLessThan cmp sl (sl_key sl n)))"

definition Iter_key :: "'k SkipList \<Rightarrow> nat option \<Rightarrow> 'k result" where
  "Iter_key sl it = (case it of None \<Rightarrow> Inl Assert_failed | Some n \<Rightarrow> Inr (sl_key sl n))"

section \<open>Chains of links\<close>

primrec links :: "(nat \<Rightarrow> nat option) \<Rightarrow> nat \<Rightarrow> nat list \<Rightarrow> bool" where
  "links nxt x [] \<longleftrightarrow> nxt x = None"
| "links nxt x (n # ns) \<longleftrightarrow> nxt x = Some n \<and> links nxt n ns"

definition hd_opt :: "'a list \<Rightarrow> 'a option" where
  "hd_opt xs = (case xs of [] \<Rightarrow> None | x # _ \<Rightarrow> Some x)"

lemma hd_opt_simps [simp]: "hd_opt [] = None" "hd_opt (x # xs) = Some x"
  by (simp_all add: hd_opt_def)

lemma links_next: "links nxt z ns \<Longrightarrow> z # ns = pre @ x # suf \<Longrightarrow> nxt x = hd_opt suf"
proof (induction ns arbitrary: z pre)
  case Nil
  then show ?case by (cases pre) auto
next
  case (Cons n ns)
  then show ?case by (cases pre) auto
qed

lemma links_cong: "(\<And>y. y \<in> set (x # ns) \<Longrightarrow> nxt y = nxt' y) \<Longrightarrow> links nxt x ns = links nxt' x ns"
  by (induction ns arbitrary: x) auto

lemma links_insert:
  assumes "links nxt z (as @ bs)" and "distinct (z # as @ bs)" and "x \<notin> set (z # as @ bs)"
    and "y = last (z # as)"
  shows "links (nxt(x := nxt y, y := Some x)) z (as @ x # bs)"
  using assms
proof (induction as arbitrary: z)
  case Nil
  then have y: "y = z" and l: "links nxt z bs" and z: "z \<noteq> x" "x \<notin> set bs" "z \<notin> set bs" by auto
  have "links (nxt(x := nxt z, z := Some x)) x bs"
  proof (cases bs)
    case (Cons b bs')
    with l z have "links (nxt(x := nxt z, z := Some x)) b bs' = links nxt b bs'"
      by (intro links_cong) auto
    with Cons l z show ?thesis by auto
  qed (use l z in auto)
  then show ?case using y by (simp add: fun_upd_def)
next
  case (Cons a as)
  then have y: "y = last (a # as)" by simp
  then have "y \<in> set (a # as)" by (metis last_in_set list.distinct(1))
  with Cons.prems have "z \<noteq> y" "z \<noteq> x" by auto
  with Cons y show ?case by auto
qed

section \<open>Well-formed lists\<close>

abbreviation level_nodes :: "(nat \<Rightarrow> nat) \<Rightarrow> nat list \<Rightarrow> nat \<Rightarrow> nat list" where
  "level_nodes ht ns i \<equiv> filter (\<lambda>n. i < ht n) ns"

definition sl_shape :: "'k SkipList \<Rightarrow> nat list \<Rightarrow> (nat \<Rightarrow> nat) \<Rightarrow> bool" where
  "sl_shape sl ns ht \<longleftrightarrow>
     (\<forall>i < kMaxHeight. links (\<lambda>n. sl_next sl n i) 0 (level_nodes ht ns i)) \<and>
     distinct (0 # ns) \<and> (\<forall>n \<in> set ns. n < sl_fresh sl \<and> 0 < ht n \<and> ht n \<le> sl_max_height sl) \<and>
     0 < sl_fresh sl \<and> 0 < sl_max_height sl \<and> sl_max_height sl \<le> kMaxHeight"

lemma level_0: "sl_shape sl ns ht \<Longrightarrow> level_nodes ht ns 0 = ns"
  by (simp add: sl_shape_def)

lemma sl_shape_links: "sl_shape sl ns ht \<Longrightarrow> i < kMaxHeight \<Longrightarrow> links (\<lambda>n. sl_next sl n i) 0 (level_nodes ht ns i)"
  by (simp add: sl_shape_def)

lemma last_level_below:
  "last (0 # level_nodes ht as (Suc i)) \<in> set (0 # level_nodes ht as i)"
proof -
  have "last (0 # level_nodes ht as (Suc i)) \<in> set (0 # level_nodes ht as (Suc i))"
    by (rule last_in_set) simp
  then show ?thesis by auto
qed

subsection \<open>The searches end at the right place\<close>

lemma level_next:
  assumes "sl_shape sl (as @ bs) ht" and "i < kMaxHeight" and "0 # level_nodes ht as i = pre @ x # suf"
  shows "sl_next sl x i = hd_opt (suf @ level_nodes ht bs i)"
proof -
  have "links (\<lambda>n. sl_next sl n i) 0 (level_nodes ht as i @ level_nodes ht bs i)"
    using sl_shape_links [OF assms(1,2)] by simp
  then show ?thesis
    using links_next [where nxt = "\<lambda>n. sl_next sl n i" and z = 0 and pre = pre and x = x
        and ns = "level_nodes ht as i @ level_nodes ht bs i" and suf = "suf @ level_nodes ht bs i"] assms(3)
    by simp
qed

lemma level_suffix: "0 # level_nodes ht as i = pre @ x # y # suf \<Longrightarrow> y \<in> set as"
proof -
  assume "0 # level_nodes ht as i = pre @ x # y # suf"
  then have "level_nodes ht as i = tl (pre @ [x]) @ y # suf" by (cases pre) auto
  then have "y \<in> set (level_nodes ht as i)" by simp
  then show ?thesis by simp
qed

lemma split_below:
  obtains pre suf where "0 # level_nodes ht as (i - 1) = pre @ last (0 # level_nodes ht as i) # suf"
proof (cases i)
  case 0
  then show ?thesis
    using that [of "butlast (0 # level_nodes ht as 0)" "[]"] append_butlast_last_id [of "0 # level_nodes ht as 0"]
    by simp
next
  case (Suc j)
  then show ?thesis using that last_level_below [where ht = ht and as = as and i = j] by (metis split_list diff_Suc_1)
qed

lemma hd_opt_level: "hd_opt (level_nodes ht bs i) = Some b \<Longrightarrow> b \<in> set bs"
  by (induction bs) (auto split: if_splits)

lemma level_before: "0 # level_nodes ht as i = pre @ x # suf \<Longrightarrow> x = 0 \<or> x \<in> set as"
proof -
  assume "0 # level_nodes ht as i = pre @ x # suf"
  then have "x \<in> set (0 # level_nodes ht as i)" by simp
  then show ?thesis by auto
qed

text \<open>On one level a search walks to the last node before the boundary between \<open>as\<close> and \<open>bs\<close>.\<close>

lemma FindGreaterOrEqual_level:
  assumes "sl_shape sl (as @ bs) ht" and "i < kMaxHeight"
    and "\<And>a. a \<in> set as \<Longrightarrow> cmp (sl_key sl a) key < 0" and "\<And>b. b \<in> set bs \<Longrightarrow> \<not> cmp (sl_key sl b) key < 0"
    and "0 # level_nodes ht as i = pre @ x # suf"
  shows "FindGreaterOrEqual_loop cmp sl key x i prev =
    (let y = last (0 # level_nodes ht as i); prev = prev(i := y) in
     if i = 0 then Some (hd_opt bs, prev) else FindGreaterOrEqual_loop cmp sl key y (i - 1) prev)"
  using assms(5)
proof (induction suf arbitrary: pre x)
  case Nil
  have y: "last (0 # level_nodes ht as i) = x" using Nil by simp
  have n: "sl_next sl x i = hd_opt (level_nodes ht bs i)" using level_next [OF assms(1,2) Nil] by simp
  have "hd_opt (level_nodes ht bs i) = Some b \<Longrightarrow> b \<in> set bs" for b
    by (rule hd_opt_level)
  then have "\<not> KeyIsAfterNode cmp sl key (sl_next sl x i)"
    using assms(4) by (auto simp: n KeyIsAfterNode_def split: option.splits)
  moreover have "i = 0 \<Longrightarrow> level_nodes ht bs i = bs" using assms(1) by (simp add: sl_shape_def)
  ultimately show ?case
    unfolding y by (subst FindGreaterOrEqual_loop.simps) (simp add: Let_def n)
next
  case (Cons z suf)
  have n: "sl_next sl x i = Some z" using level_next [OF assms(1,2) Cons.prems] by simp
  then have "KeyIsAfterNode cmp sl key (sl_next sl x i)"
    using assms(3) [OF level_suffix [OF Cons.prems]] by (simp add: KeyIsAfterNode_def)
  with n have "FindGreaterOrEqual_loop cmp sl key x i prev = FindGreaterOrEqual_loop cmp sl key z i prev"
    by (subst FindGreaterOrEqual_loop.simps) (simp add: Let_def)
  moreover have "0 # level_nodes ht as i = (pre @ [x]) @ z # suf" using Cons.prems by simp
  ultimately show ?case using Cons.IH by presburger
qed

lemma FindGreaterOrEqual_loop_ends:
  assumes "sl_shape sl (as @ bs) ht" and "i < kMaxHeight"
    and "\<And>a. a \<in> set as \<Longrightarrow> cmp (sl_key sl a) key < 0" and "\<And>b. b \<in> set bs \<Longrightarrow> \<not> cmp (sl_key sl b) key < 0"
    and "0 # level_nodes ht as i = pre @ x # suf"
  shows "FindGreaterOrEqual_loop cmp sl key x i prev =
    Some (hd_opt bs, \<lambda>j. if j \<le> i then last (0 # level_nodes ht as j) else prev j)"
  using assms(2,5)
proof (induction i arbitrary: pre x suf prev)
  case 0
  then show ?case
    by (subst FindGreaterOrEqual_level [where as = as and bs = bs and ht = ht and pre = pre and suf = suf,
          OF assms(1) 0(1) _ _ 0(2)])
      (use assms(3,4) in \<open>auto simp: Let_def fun_eq_iff\<close>)
next
  case (Suc i)
  obtain pre' suf' where s: "0 # level_nodes ht as i = pre' @ last (0 # level_nodes ht as (Suc i)) # suf'"
    using split_below [where ht = ht and as = as and i = "Suc i"] by auto
  have "FindGreaterOrEqual_loop cmp sl key x (Suc i) prev =
      FindGreaterOrEqual_loop cmp sl key (last (0 # level_nodes ht as (Suc i))) i
        (prev(Suc i := last (0 # level_nodes ht as (Suc i))))"
    by (subst FindGreaterOrEqual_level [where as = as and bs = bs and ht = ht and pre = pre and suf = suf,
          OF assms(1) Suc.prems(1) _ _ Suc.prems(2)])
      (use assms(3,4) in \<open>auto simp: Let_def\<close>)
  also have "\<dots> = Some (hd_opt bs, \<lambda>j. if j \<le> i then last (0 # level_nodes ht as j)
      else (prev(Suc i := last (0 # level_nodes ht as (Suc i)))) j)"
    using Suc.prems(1) by (intro Suc.IH [OF _ s]) simp
  finally show ?case by (auto simp: fun_eq_iff le_Suc_eq)
qed

lemma FindGreaterOrEqual_ends:
  assumes "sl_shape sl (as @ bs) ht"
    and "\<And>a. a \<in> set as \<Longrightarrow> cmp (sl_key sl a) key < 0" and "\<And>b. b \<in> set bs \<Longrightarrow> \<not> cmp (sl_key sl b) key < 0"
  shows "FindGreaterOrEqual cmp sl key prev =
    Some (hd_opt bs, \<lambda>j. if j < sl_max_height sl then last (0 # level_nodes ht as j) else prev j)"
proof -
  have h: "sl_max_height sl - 1 < kMaxHeight" "0 < sl_max_height sl" using assms(1) by (auto simp: sl_shape_def)
  have "FindGreaterOrEqual cmp sl key prev = Some (hd_opt bs, \<lambda>j. if j \<le> sl_max_height sl - 1
      then last (0 # level_nodes ht as j) else prev j)"
    unfolding FindGreaterOrEqual_def
    by (rule FindGreaterOrEqual_loop_ends [where bs = bs and pre = "[]", OF assms(1) h(1)]) (use assms(2,3) in auto)
  with h(2) show ?thesis by (auto simp: fun_eq_iff)
qed

lemma FindLessThan_loop_ends:
  assumes "sl_shape sl (as @ bs) ht" and "i < kMaxHeight"
    and "\<And>a. a \<in> set as \<Longrightarrow> cmp (sl_key sl a) key < 0" and "\<And>b. b \<in> set bs \<Longrightarrow> \<not> cmp (sl_key sl b) key < 0"
    and "0 # level_nodes ht as i = pre @ x # suf"
  shows "FindLessThan_loop cmp sl key x i = Some (Inr (last (0 # as)))"
  using assms(2,5)
proof (induction i arbitrary: pre x suf)
  case (0 pre x suf)
  have L: "level_nodes ht as 0 = as" "level_nodes ht bs 0 = bs" using assms(1) by (auto simp: sl_shape_def)
  show ?case using 0(2)
  proof (induction suf arbitrary: pre x)
    case Nil
    have x: "x = last (0 # as)" using Nil L by simp
    then have "x = 0 \<or> cmp (sl_key sl x) key < 0" using assms(3) by (cases as) auto
    moreover have "sl_next sl x 0 = hd_opt bs" using level_next [OF assms(1) 0(1) Nil] L by simp
    ultimately show ?case using assms(4) x
      by (subst FindLessThan_loop.simps) (cases bs; auto simp: Let_def not_less)
  next
    case (Cons z suf)
    have x: "x = 0 \<or> cmp (sl_key sl x) key < 0"
      using assms(3) level_before [OF Cons.prems] by blast
    have "sl_next sl x 0 = Some z" using level_next [OF assms(1) 0(1) Cons.prems] by simp
    with x assms(3) [OF level_suffix [OF Cons.prems]] Cons.IH [of "pre @ [x]" z] Cons.prems show ?case
      by (subst FindLessThan_loop.simps) (simp add: Let_def)
  qed
next
  case (Suc i pre x suf)
  obtain pre' suf' where s: "0 # level_nodes ht as i = pre' @ last (0 # level_nodes ht as (Suc i)) # suf'"
    using split_below [where ht = ht and as = as and i = "Suc i"] by auto
  show ?case using Suc.prems(2)
  proof (induction suf arbitrary: pre x)
    case Nil
    have y: "last (0 # level_nodes ht as (Suc i)) = x" using Nil by simp
    have x: "x = 0 \<or> cmp (sl_key sl x) key < 0"
      using assms(3) level_before [OF Nil] by blast
    have n: "sl_next sl x (Suc i) = hd_opt (level_nodes ht bs (Suc i))"
      using level_next [OF assms(1) Suc.prems(1) Nil] by simp
    have "sl_next sl x (Suc i) = None \<or> cmp (sl_key sl (the (sl_next sl x (Suc i)))) key \<ge> 0"
    proof (cases "sl_next sl x (Suc i)")
      case (Some b)
      then have "b \<in> set bs" using n by (metis hd_opt_level)
      with Some assms(4) [of b] show ?thesis by (simp add: not_less)
    qed simp
    with x have "FindLessThan_loop cmp sl key x (Suc i) = FindLessThan_loop cmp sl key x i"
      by (subst FindLessThan_loop.simps) (auto simp: Let_def)
    with Suc.IH [OF _ s] Suc.prems(1) y show ?case by simp
  next
    case (Cons z suf)
    have x: "x = 0 \<or> cmp (sl_key sl x) key < 0"
      using assms(3) level_before [OF Cons.prems] by blast
    have "sl_next sl x (Suc i) = Some z" using level_next [OF assms(1) Suc.prems(1) Cons.prems] by simp
    with x assms(3) [OF level_suffix [OF Cons.prems]] Cons.IH [of "pre @ [x]" z] Cons.prems show ?case
      by (subst FindLessThan_loop.simps) (simp add: Let_def)
  qed
qed

lemma FindLessThan_ends:
  assumes "sl_shape sl (as @ bs) ht"
    and "\<And>a. a \<in> set as \<Longrightarrow> cmp (sl_key sl a) key < 0" and "\<And>b. b \<in> set bs \<Longrightarrow> \<not> cmp (sl_key sl b) key < 0"
  shows "FindLessThan cmp sl key = Some (Inr (last (0 # as)))"
  unfolding FindLessThan_def
proof (rule FindLessThan_loop_ends [where bs = bs and pre = "[]", OF assms(1)])
  show "sl_max_height sl - 1 < kMaxHeight" using assms(1) by (auto simp: sl_shape_def)
qed (use assms(2,3) in auto)

lemma FindLast_loop_ends:
  assumes "sl_shape sl ns ht" and "i < kMaxHeight" and "0 # level_nodes ht ns i = pre @ x # suf"
  shows "FindLast_loop sl x i = Some (last (0 # ns))"
  using assms(2,3)
proof (induction i arbitrary: pre x suf)
  case (0 pre x suf)
  show ?case using 0(2)
  proof (induction suf arbitrary: pre x)
    case Nil
    then have "sl_next sl x 0 = None" using level_next [where bs = "[]" and as = ns, OF _ 0(1) Nil] assms(1) by simp
    moreover have "x = last (0 # ns)" using Nil level_0 [OF assms(1)] by simp
    ultimately show ?case by (subst FindLast_loop.simps) (simp add: Let_def)
  next
    case (Cons z suf)
    then have "sl_next sl x 0 = Some z"
      using level_next [where bs = "[]" and as = ns, OF _ 0(1) Cons.prems] assms(1) by simp
    with Cons.IH [of "pre @ [x]" z] Cons.prems show ?case by (subst FindLast_loop.simps) (simp add: Let_def)
  qed
next
  case (Suc i pre x suf)
  obtain pre' suf' where s: "0 # level_nodes ht ns i = pre' @ last (0 # level_nodes ht ns (Suc i)) # suf'"
    using split_below [where ht = ht and as = ns and i = "Suc i"] by auto
  show ?case using Suc.prems(2)
  proof (induction suf arbitrary: pre x)
    case Nil
    then have "sl_next sl x (Suc i) = None"
      using level_next [where bs = "[]" and as = ns, OF _ Suc.prems(1) Nil] assms(1) by simp
    moreover have "last (0 # level_nodes ht ns (Suc i)) = x" using Nil by simp
    ultimately show ?case
      using Suc.IH [OF _ s] Suc.prems(1) by (subst FindLast_loop.simps) (simp add: Let_def)
  next
    case (Cons z suf)
    then have "sl_next sl x (Suc i) = Some z"
      using level_next [where bs = "[]" and as = ns, OF _ Suc.prems(1) Cons.prems] assms(1) by simp
    with Cons.IH [of "pre @ [x]" z] Cons.prems show ?case by (subst FindLast_loop.simps) (simp add: Let_def)
  qed
qed

lemma FindLast_ends:
  assumes "sl_shape sl ns ht"
  shows "FindLast sl = Some (last (0 # ns))"
  unfolding FindLast_def
  by (rule FindLast_loop_ends [OF assms, where pre = "[]"]) (use assms in \<open>auto simp: sl_shape_def\<close>)

subsection \<open>Insertion keeps the shape\<close>

lemma RandomHeight_loop_bounds:
  "1 \<le> h \<Longrightarrow> h \<le> kMaxHeight \<Longrightarrow> 1 \<le> fst (RandomHeight_loop h rnd) \<and> fst (RandomHeight_loop h rnd) \<le> kMaxHeight"
proof (induction h rnd rule: RandomHeight_loop.induct)
  case (1 h rnd)
  then show ?case by (subst (1 2) RandomHeight_loop.simps) (auto simp: Let_def)
qed

lemma RandomHeight_bounds: "1 \<le> fst (RandomHeight rnd)" "fst (RandomHeight rnd) \<le> kMaxHeight"
  using RandomHeight_loop_bounds [of 1 rnd] by (simp_all add: RandomHeight_def kMaxHeight_def)

lemma link_levels_out: "j < i \<or> i + n \<le> j \<Longrightarrow> link_levels x prev i n nxt y j = nxt y j"
proof (induction n arbitrary: i nxt)
  case (Suc n)
  then show ?case using Suc.IH [of "Suc i"] by (auto simp: Let_def)
qed simp

lemma link_levels_in:
  "i \<le> j \<Longrightarrow> j < i + n \<Longrightarrow>
   (\<lambda>y. link_levels x prev i n nxt y j) = (\<lambda>y. nxt y j)(x := nxt (prev j) j, prev j := Some x)"
proof (induction n arbitrary: i nxt)
  case (Suc n)
  show ?case
  proof (cases "j = i")
    case True
    then show ?thesis by (auto simp: Let_def link_levels_out fun_eq_iff)
  next
    case False
    with Suc.prems have "Suc i \<le> j" "j < Suc i + n" by auto
    with Suc.IH False show ?thesis by (auto simp: Let_def fun_eq_iff)
  qed
qed simp

lemma sl_shape_insert:
  assumes s: "sl_shape sl (as @ bs) ht" and h: "1 \<le> height" "height \<le> kMaxHeight"
    and prev: "\<And>i. i < height \<Longrightarrow> prev i = last (0 # level_nodes ht as i)"
    and x: "x = sl_fresh sl"
    and sl': "sl_next sl' = link_levels x prev 0 height (sl_next sl)" "sl_fresh sl' = Suc x"
      "sl_max_height sl' = max height (sl_max_height sl)"
  shows "sl_shape sl' (as @ x # bs) (ht(x := height))"
proof -
  have x_new: "x \<noteq> 0" "x \<notin> set (as @ bs)" using s x by (auto simp: sl_shape_def)
  then have lv: "level_nodes (ht(x := height)) as i = level_nodes ht as i"
    "level_nodes (ht(x := height)) bs i = level_nodes ht bs i" for i
    by (auto intro!: filter_cong)
  have lvl: "level_nodes (ht(x := height)) (as @ x # bs) i =
      level_nodes ht as i @ (if i < height then [x] else []) @ level_nodes ht bs i" for i
    by (simp add: lv fun_upd_same del: fun_upd_apply)
  have "links (\<lambda>n. sl_next sl' n i) 0 (level_nodes (ht(x := height)) (as @ x # bs) i)" if i: "i < kMaxHeight" for i
  proof -
    have l: "links (\<lambda>n. sl_next sl n i) 0 (level_nodes ht as i @ level_nodes ht bs i)"
      using sl_shape_links [OF s i] by simp
    have d: "distinct (0 # level_nodes ht as i @ level_nodes ht bs i)" using s by (auto simp: sl_shape_def)
    show ?thesis
    proof (cases "i < height")
      case True
      then have "(\<lambda>n. sl_next sl' n i) =
          (\<lambda>n. sl_next sl n i)(x := sl_next sl (prev i) i, prev i := Some x)"
        unfolding sl' using link_levels_in [of 0 i height x prev "sl_next sl"] by simp
      moreover have "links ((\<lambda>n. sl_next sl n i)(x := sl_next sl (prev i) i, prev i := Some x)) 0
          (level_nodes ht as i @ x # level_nodes ht bs i)"
        by (rule links_insert [OF l d]) (use x_new prev [OF True] in auto)
      ultimately show ?thesis using True unfolding lvl by simp
    next
      case False
      then have "(\<lambda>n. sl_next sl' n i) = (\<lambda>n. sl_next sl n i)"
        unfolding sl' by (simp add: link_levels_out)
      with False l show ?thesis unfolding lvl by simp
    qed
  qed
  moreover have "n < sl_fresh sl' \<and> 0 < (ht(x := height)) n \<and> (ht(x := height)) n \<le> sl_max_height sl'"
    if "n \<in> set (as @ x # bs)" for n
  proof (cases "n = x")
    case False
    with that s have "n < sl_fresh sl \<and> 0 < ht n \<and> ht n \<le> sl_max_height sl" by (auto simp: sl_shape_def)
    with False x sl' show ?thesis by (simp add: max.coboundedI2)
  qed (use h sl' in simp)
  moreover have "distinct (0 # as @ x # bs)" using s x_new by (auto simp: sl_shape_def)
  moreover have "0 < sl_fresh sl'" "0 < sl_max_height sl'" "sl_max_height sl' \<le> kMaxHeight"
    using s h sl' by (auto simp: sl_shape_def)
  ultimately show ?thesis unfolding sl_shape_def by blast
qed

section \<open>Sorted lists\<close>

lemma sorted_wrt_insert:
  "sorted_wrt R (xs @ ys) \<Longrightarrow> (\<And>x. x \<in> set xs \<Longrightarrow> R x k) \<Longrightarrow> (\<And>y. y \<in> set ys \<Longrightarrow> R k y) \<Longrightarrow>
   sorted_wrt R (xs @ k # ys)"
  by (auto simp: sorted_wrt_append)

definition sl_rep :: "('k \<Rightarrow> 'k \<Rightarrow> int) \<Rightarrow> 'k SkipList \<Rightarrow> 'k list \<Rightarrow> bool" where
  "sl_rep cmp sl ks \<longleftrightarrow> (\<exists>ns ht. sl_shape sl ns ht \<and> ks = map (sl_key sl) ns) \<and> sorted_wrt (\<lambda>a b. cmp a b < 0) ks"

locale key_order =
  fixes cmp :: "'k \<Rightarrow> 'k \<Rightarrow> int" and valid :: "'k \<Rightarrow> bool"
  assumes cmp_swap: "valid a \<Longrightarrow> valid b \<Longrightarrow> cmp a b > 0 \<longleftrightarrow> cmp b a < 0"
    and cmp_less_trans: "valid a \<Longrightarrow> valid b \<Longrightarrow> valid d \<Longrightarrow> cmp a b < 0 \<Longrightarrow> cmp b d < 0 \<Longrightarrow> cmp a d < 0"
begin

abbreviation before_key :: "'k \<Rightarrow> 'k list \<Rightarrow> 'k list" where
  "before_key key ks \<equiv> takeWhile (\<lambda>k. cmp k key < 0) ks"

abbreviation from_key :: "'k \<Rightarrow> 'k list \<Rightarrow> 'k list" where
  "from_key key ks \<equiv> dropWhile (\<lambda>k. cmp k key < 0) ks"

lemma from_not_before:
  assumes "sorted_wrt (\<lambda>a b. cmp a b < 0) ks" and "\<forall>k \<in> set ks. valid k" and "valid key"
    and "b \<in> set (from_key key ks)"
  shows "\<not> cmp b key < 0"
  using assms
proof (induction ks)
  case (Cons k ks)
  show ?case
  proof (cases "cmp k key < 0")
    case False
    with Cons.prems consider "b = k" | "b \<in> set ks" by auto
    then show ?thesis
    proof cases
      case 2
      with Cons.prems have "cmp k b < 0" by auto
      with False Cons.prems 2 show ?thesis using cmp_less_trans [of k b key] by auto
    qed (use False in simp)
  qed (use Cons in simp)
qed simp

text \<open>What a search finds: the nodes split at the key, and the level lists end there.\<close>

lemma search_split:
  assumes "sl_rep cmp sl ks" and "\<forall>k \<in> set ks. valid k" and "valid key"
  obtains as bs ht where "sl_shape sl (as @ bs) ht" and "before_key key ks = map (sl_key sl) as"
    and "from_key key ks = map (sl_key sl) bs"
    and "\<And>prev. FindGreaterOrEqual cmp sl key prev =
      Some (hd_opt bs, \<lambda>j. if j < sl_max_height sl then last (0 # level_nodes ht as j) else prev j)"
    and "FindLessThan cmp sl key = Some (Inr (last (0 # as)))"
proof -
  from assms(1) obtain ns ht where s: "sl_shape sl ns ht" and ks: "ks = map (sl_key sl) ns"
    and sorted: "sorted_wrt (\<lambda>a b. cmp a b < 0) ks" by (auto simp: sl_rep_def)
  let ?p = "\<lambda>n. cmp (sl_key sl n) key < 0"
  have t: "before_key key ks = map (sl_key sl) (takeWhile ?p ns)" "from_key key ks = map (sl_key sl) (dropWhile ?p ns)"
    by (simp_all add: ks takeWhile_map dropWhile_map comp_def)
  have s': "sl_shape sl (takeWhile ?p ns @ dropWhile ?p ns) ht" using s by simp
  have a: "?p a" if "a \<in> set (takeWhile ?p ns)" for a using that by (rule set_takeWhileD [THEN conjunct2])
  have b: "\<not> ?p b" if "b \<in> set (dropWhile ?p ns)" for b
    using from_not_before [OF sorted assms(2,3), of "sl_key sl b"] that t(2) by simp
  show ?thesis
  proof (rule that [OF s' t])
    show "FindGreaterOrEqual cmp sl key prev = Some (hd_opt (dropWhile ?p ns), \<lambda>j. if j < sl_max_height sl
        then last (0 # level_nodes ht (takeWhile ?p ns) j) else prev j)" for prev
      using s' a b by (rule FindGreaterOrEqual_ends)
    show "FindLessThan cmp sl key = Some (Inr (last (0 # takeWhile ?p ns)))"
      using s' a b by (rule FindLessThan_ends)
  qed
qed

lemma sl_rep_insert:
  assumes rep: "sl_rep cmp sl ks" and v: "\<forall>k \<in> set ks. valid k" "valid key" and new: "\<forall>k \<in> set ks. cmp key k \<noteq> 0"
  shows "\<exists>sl'. SkipList_Insert cmp sl key = Some (Inr sl') \<and> sl_rep cmp sl' (before_key key ks @ key # from_key key ks)"
proof -
  obtain as bs ht where s: "sl_shape sl (as @ bs) ht" and ka: "before_key key ks = map (sl_key sl) as"
    and kb: "from_key key ks = map (sl_key sl) bs"
    and find: "\<And>prev. FindGreaterOrEqual cmp sl key prev =
      Some (hd_opt bs, \<lambda>j. if j < sl_max_height sl then last (0 # level_nodes ht as j) else prev j)"
    and less: "FindLessThan cmp sl key = Some (Inr (last (0 # as)))"
    using search_split [OF rep v] by blast
  obtain height rnd where hr: "RandomHeight (sl_rnd sl) = (height, rnd)" by fastforce
  then have h: "1 \<le> height" "height \<le> kMaxHeight" using RandomHeight_bounds [of "sl_rnd sl"] by auto
  let ?x = "sl_fresh sl" and ?mh = "sl_max_height sl"
  let ?prev0 = "\<lambda>j. if j < ?mh then last (0 # level_nodes ht as j) else 0"
  let ?prev = "if height > ?mh then (\<lambda>i. if ?mh \<le> i \<and> i < height then 0 else ?prev0 i) else ?prev0"
  let ?sl' = "sl\<lparr>sl_key := (sl_key sl)(?x := key), sl_next := link_levels ?x ?prev 0 height (sl_next sl),
     sl_max_height := (if height > ?mh then height else ?mh), sl_rnd := rnd, sl_fresh := Suc ?x\<rparr>"
  have kset: "ks = map (sl_key sl) as @ map (sl_key sl) bs" using ka kb by (metis takeWhile_dropWhile_id)
  have no_dup: "\<not> (hd_opt bs \<noteq> None \<and> cmp key (sl_key sl (the (hd_opt bs))) = 0)"
    using new kset by (cases bs) auto
  have ins: "SkipList_Insert cmp sl key = Some (Inr ?sl')"
    using no_dup by (simp add: SkipList_Insert_def find hr Let_def)
  have above: "level_nodes ht as i = []" if "?mh \<le> i" for i
  proof -
    have "\<forall>n \<in> set as. ht n \<le> ?mh" using s by (simp add: sl_shape_def)
    with that show ?thesis by (auto simp: filter_empty_conv)
  qed
  have prev: "?prev i = last (0 # level_nodes ht as i)" if "i < height" for i
    using that above [of i] by auto
  have shape: "sl_shape ?sl' (as @ ?x # bs) (ht(?x := height))"
    by (rule sl_shape_insert [OF s h prev refl]) (auto simp: max_def)
  have fresh: "?x \<notin> set (as @ bs)" using s by (auto simp: sl_shape_def)
  then have keys: "before_key key ks @ key # from_key key ks = map (sl_key ?sl') (as @ ?x # bs)"
    by (auto simp: ka kb)
  have srt: "sorted_wrt (\<lambda>a b. cmp a b < 0) ks" using rep by (simp add: sl_rep_def)
  have below: "cmp k key < 0" if "k \<in> set (before_key key ks)" for k using that by (auto dest: set_takeWhileD)
  have beyond: "cmp key k < 0" if k: "k \<in> set (from_key key ks)" for k
  proof -
    have mem: "k \<in> set ks" using k by (rule set_dropWhileD)
    then have "\<not> cmp k key < 0" "cmp key k \<noteq> 0" using from_not_before [OF srt v k] new by auto
    with mem v cmp_swap [of key k] show ?thesis by auto
  qed
  have "sorted_wrt (\<lambda>a b. cmp a b < 0) (before_key key ks @ from_key key ks)" using srt by simp
  then have "sorted_wrt (\<lambda>a b. cmp a b < 0) (before_key key ks @ key # from_key key ks)"
    using below beyond by (rule sorted_wrt_insert)
  then have "sl_rep cmp ?sl' (before_key key ks @ key # from_key key ks)"
    unfolding sl_rep_def using shape keys by blast
  with ins show ?thesis by blast
qed

lemma sl_rep_duplicate:
  assumes rep: "sl_rep cmp sl ks" and v: "\<forall>k \<in> set ks. valid k" "valid key" and dup: "k \<in> set ks" "cmp key k = 0"
  shows "SkipList_Contains cmp sl key = Some True \<and> SkipList_Insert cmp sl key = Some (Inl Assert_failed)"
proof -
  obtain as bs ht where s: "sl_shape sl (as @ bs) ht" and ka: "before_key key ks = map (sl_key sl) as"
    and kb: "from_key key ks = map (sl_key sl) bs"
    and find: "\<And>prev. FindGreaterOrEqual cmp sl key prev =
      Some (hd_opt bs, \<lambda>j. if j < sl_max_height sl then last (0 # level_nodes ht as j) else prev j)"
    and less: "FindLessThan cmp sl key = Some (Inr (last (0 # as)))"
    using search_split [OF rep v] by blast
  have srt: "sorted_wrt (\<lambda>a b. cmp a b < 0) ks" using rep by (simp add: sl_rep_def)
  have k0: "\<not> cmp k key < 0" using cmp_swap [of key k] dup v by auto
  have "k \<in> set (before_key key ks) \<or> k \<in> set (from_key key ks)"
    using dup(1) takeWhile_dropWhile_id [of "\<lambda>k. cmp k key < 0" ks] by (metis Un_iff set_append)
  then have kf: "k \<in> set (from_key key ks)" using k0 by (auto dest: set_takeWhileD)
  then obtain b bs' where bs: "bs = b # bs'" using kb by (cases bs) auto
  have "sl_key sl b \<in> set ks" using kb bs by (metis list.set_intros(1) list.simps(9) set_dropWhileD)
  moreover have "\<not> cmp (sl_key sl b) key < 0"
    using from_not_before [OF srt v, of "sl_key sl b"] kb bs by simp
  moreover have "\<not> cmp key (sl_key sl b) < 0"
  proof
    assume less: "cmp key (sl_key sl b) < 0"
    have "k = sl_key sl b \<or> cmp (sl_key sl b) k < 0"
      using sorted_wrt_dropWhile [OF srt, of "\<lambda>k. cmp k key < 0"] kf kb bs by auto
    then have "cmp key k < 0" using less cmp_less_trans [of key "sl_key sl b" k] calculation(1) v dup by auto
    with dup show False by simp
  qed
  ultimately have "cmp key (sl_key sl b) = 0" using cmp_swap [of key "sl_key sl b"] v by force
  then show ?thesis by (simp add: SkipList_Contains_def SkipList_Insert_def find bs)
qed

lemma sl_rep_contains:
  assumes rep: "sl_rep cmp sl ks" and v: "\<forall>k \<in> set ks. valid k" "valid key"
  shows "SkipList_Contains cmp sl key = Some (\<exists>k \<in> set ks. cmp key k = 0)"
proof (cases "\<exists>k \<in> set ks. cmp key k = 0")
  case True
  then show ?thesis using sl_rep_duplicate [OF rep v] by auto
next
  case False
  obtain as bs ht where s: "sl_shape sl (as @ bs) ht" and ka: "before_key key ks = map (sl_key sl) as"
    and kb: "from_key key ks = map (sl_key sl) bs"
    and find: "\<And>prev. FindGreaterOrEqual cmp sl key prev =
      Some (hd_opt bs, \<lambda>j. if j < sl_max_height sl then last (0 # level_nodes ht as j) else prev j)"
    and less: "FindLessThan cmp sl key = Some (Inr (last (0 # as)))"
    using search_split [OF rep v] by blast
  have "set (map (sl_key sl) bs) \<subseteq> set ks" using kb by (metis set_dropWhileD subsetI)
  with False show ?thesis by (cases bs) (auto simp: SkipList_Contains_def find)
qed

lemma sl_rep_seek:
  assumes "sl_rep cmp sl ks" and "\<forall>k \<in> set ks. valid k" and "valid key"
  shows "\<exists>it. Iter_Seek cmp sl key = Some it \<and>
    (case it of None \<Rightarrow> from_key key ks = [] | Some n \<Rightarrow> \<exists>rest. from_key key ks = sl_key sl n # rest)"
proof -
  obtain as bs ht where s: "sl_shape sl (as @ bs) ht" and ka: "before_key key ks = map (sl_key sl) as"
    and kb: "from_key key ks = map (sl_key sl) bs"
    and find: "\<And>prev. FindGreaterOrEqual cmp sl key prev =
      Some (hd_opt bs, \<lambda>j. if j < sl_max_height sl then last (0 # level_nodes ht as j) else prev j)"
    and less: "FindLessThan cmp sl key = Some (Inr (last (0 # as)))"
    using search_split [OF assms] by blast
  from kb show ?thesis by (cases bs) (auto simp: Iter_Seek_def find)
qed

end

lemma sl_rep_make: "sl_rep cmp (SkipList_make k) []"
  unfolding sl_rep_def
  by (intro conjI exI [of _ "[]"] exI [of _ "\<lambda>_. 0"]) (auto simp: sl_shape_def SkipList_make_def kMaxHeight_def)

section \<open>Iterating\<close>

text \<open>Steps of an iterator over the nodes of a well-formed list.\<close>

lemma Iter_first: "sl_shape sl ns ht \<Longrightarrow> Iter_SeekToFirst sl = hd_opt ns"
  using sl_shape_links [of sl ns ht 0] level_0 [of sl ns ht] by (cases ns) (auto simp: Iter_SeekToFirst_def kMaxHeight_def)

lemma Iter_next:
  assumes "sl_shape sl (xs @ n # ys) ht"
  shows "Iter_Next sl (Some n) = Inr (hd_opt ys)"
proof -
  have l: "links (\<lambda>n. sl_next sl n 0) 0 (xs @ n # ys)"
    using sl_shape_links [OF assms, of 0] level_0 [OF assms] by (simp add: kMaxHeight_def)
  have "(\<lambda>n. sl_next sl n 0) n = hd_opt ys" by (rule links_next [OF l, of "0 # xs"]) simp
  then show ?thesis by (simp add: Iter_Next_def)
qed

lemma Iter_last: "sl_shape sl ns ht \<Longrightarrow> Iter_SeekToLast sl = Some (if ns = [] then None else Some (last ns))"
proof -
  assume s: "sl_shape sl ns ht"
  then have "0 \<notin> set ns" by (simp add: sl_shape_def)
  then have "ns = [] \<or> last ns \<noteq> 0" by (metis last_in_set)
  then show ?thesis by (auto simp: Iter_SeekToLast_def FindLast_ends [OF s])
qed

section \<open>Properties\<close>

lemma coprime_factor: "(2147483647 :: nat) dvd n * 16807 \<longleftrightarrow> 2147483647 dvd n"
proof -
  have "coprime (2147483647 :: nat) 16807"
  proof (rule coprimeI)
    fix d :: nat assume "d dvd 2147483647" and "d dvd 16807"
    then have "d dvd 16807 * 1407677000 - 2147483647 * 11017" by (intro dvd_diff_nat dvd_mult2)
    then show "is_unit d" by simp
  qed
  then show ?thesis by (rule coprime_dvd_mult_left_iff)
qed

lemma mersenne_mod:
  fixes p :: nat
  assumes "p < 2 ^ 46" and "\<not> 2147483647 dvd p"
  defines "s \<equiv> p div 2 ^ 31 + p mod 2 ^ 31"
  shows "p mod 2147483647 = (if s > 2147483647 then s - 2147483647 else s)" and "s < 2 ^ 32"
proof -
  have p: "p = p div 2 ^ 31 * 2147483647 + s"
    using div_mult_mod_eq [of p "2 ^ 31"] by (simp add: s_def)
  have q: "p div 2 ^ 31 < 2 ^ 15" using assms(1) by (intro less_mult_imp_div_less) simp
  then show bound: "s < 2 ^ 32" by (simp add: s_def)
  have "p mod 2147483647 = s mod 2147483647" by (subst p) (rule mod_mult_self3)
  moreover have "s \<noteq> 2147483647"
  proof
    assume "s = 2147483647"
    then have "p = (p div 2 ^ 31 + 1) * 2147483647" using p by simp
    then show False using assms(2) by (metis dvd_triv_right)
  qed
  moreover have "s < 2 * 2147483647"
    using q mod_less_divisor [of "2 ^ 31" p] unfolding s_def by simp
  then have "s mod 2147483647 = s - 2147483647" if "s > 2147483647"
    using that by (simp add: mod_if [of s])
  ultimately show "p mod 2147483647 = (if s > 2147483647 then s - 2147483647 else s)" by simp
qed

text \<open>
  \<open>Random::Next\<close>, which reduces modulo \<open>2 ^ 31 - 1\<close> by shifts and one subtraction,
  computes the Lehmer step \<open>seed * 16807 mod (2 ^ 31 - 1)\<close> for every seed that its constructor leaves, and the
  result is such a seed again.
\<close>

lemma random_next_is_lehmer:
  assumes "0 < unat seed" and "unat seed < 2147483647"
  shows "unat (Random_Next seed) = unat seed * 16807 mod 2147483647 \<and>
    0 < unat (Random_Next seed) \<and> unat (Random_Next seed) < 2147483647"
proof -
  let ?p = "(ucast seed :: u64) * 16807" and ?n = "unat seed * 16807"
  have n: "?n < 2 ^ 46" using assms(2) by simp
  have us: "unat (ucast seed :: u64) = unat seed"
    using assms(2) by (simp add: unsigned_ucast_eq take_bit_nat_eq_self)
  have p: "unat ?p = ?n" using n by (subst unat_mult_lem [THEN iffD1]) (simp_all add: us)
  have nd: "\<not> 2147483647 dvd ?n" unfolding coprime_factor using assms by (auto dest: dvd_imp_le)
  define s where "s = ?n div 2 ^ 31 + ?n mod 2 ^ 31"
  note mm = mersenne_mod [OF n nd, folded s_def]
  have d: "unat (drop_bit 31 ?p) = ?n div 2 ^ 31" by (simp only: unat_drop_bit p)
  have m: "?p AND ucast Random_M = take_bit 31 ?p" by (simp add: Random_M_def take_bit_eq_mask mask_eq_exp_minus_1)
  have t: "unat (take_bit 31 ?p) = ?n mod 2 ^ 31" unfolding unsigned_take_bit_eq p by (rule take_bit_eq_mod)
  have sum: "unat (drop_bit 31 ?p + take_bit 31 ?p) = s"
    unfolding s_def using mm(2) by (subst unat_add_lem [THEN iffD1]) (simp_all only: d t, simp_all add: s_def)
  have u: "unat (ucast (drop_bit 31 ?p + (?p AND ucast Random_M)) :: u32) = s"
    unfolding m using mm(2) by (simp only: unsigned_ucast_eq sum) (simp add: take_bit_nat_eq_self)
  have "unat (Random_Next seed) = (if s > 2147483647 then s - 2147483647 else s)"
    using u unfolding Random_Next_def Let_def by (simp add: word_less_nat_alt Random_M_def unat_sub word_le_nat_alt)
  then have "unat (Random_Next seed) = ?n mod 2147483647" using mm(1) by simp
  moreover have "0 < ?n mod 2147483647" using nd by (simp add: dvd_eq_mod_eq_0)
  ultimately show ?thesis by simp
qed

end
