(* ===== verification/Coding.thy ===== *)
theory Coding
  imports Prelude
begin

text \<open>
  \<open>src/database/leveldb/util/coding.h\<close> and \<open>coding.cc\<close>: fixed-width little-endian integers, varints and
  length-prefixed strings. A pointer pair \<open>p\<close>, \<open>limit\<close> is the list of the bytes between them; a parser
  returns the value and the bytes after it, \<open>None\<close> standing for the null pointer or \<open>false\<close>.
\<close>

section \<open>Fixed-width integers\<close>

definition EncodeFixed32 :: "u32 \<Rightarrow> bytes" where
  "EncodeFixed32 v = [ucast v, ucast (drop_bit 8 v), ucast (drop_bit 16 v), ucast (drop_bit 24 v)]"

definition EncodeFixed64 :: "u64 \<Rightarrow> bytes" where
  "EncodeFixed64 v = [ucast v, ucast (drop_bit 8 v), ucast (drop_bit 16 v), ucast (drop_bit 24 v),
     ucast (drop_bit 32 v), ucast (drop_bit 40 v), ucast (drop_bit 48 v), ucast (drop_bit 56 v)]"

definition DecodeFixed32 :: "bytes \<Rightarrow> u32" where
  "DecodeFixed32 b = ucast (b ! 0) OR push_bit 8 (ucast (b ! 1)) OR push_bit 16 (ucast (b ! 2)) OR
     push_bit 24 (ucast (b ! 3))"

definition DecodeFixed64 :: "bytes \<Rightarrow> u64" where
  "DecodeFixed64 b = ucast (b ! 0) OR push_bit 8 (ucast (b ! 1)) OR push_bit 16 (ucast (b ! 2)) OR
     push_bit 24 (ucast (b ! 3)) OR push_bit 32 (ucast (b ! 4)) OR push_bit 40 (ucast (b ! 5)) OR
     push_bit 48 (ucast (b ! 6)) OR push_bit 56 (ucast (b ! 7))"

definition PutFixed32 :: "bytes \<Rightarrow> u32 \<Rightarrow> bytes" where
  "PutFixed32 dst v = dst @ EncodeFixed32 v"

definition PutFixed64 :: "bytes \<Rightarrow> u64 \<Rightarrow> bytes" where
  "PutFixed64 dst v = dst @ EncodeFixed64 v"

lemma length_EncodeFixed [simp]: "length (EncodeFixed32 v) = 4" "length (EncodeFixed64 w) = 8"
  by (simp_all add: EncodeFixed32_def EncodeFixed64_def)

lemma EncodeFixed32_le32: "EncodeFixed32 = le32"
  by (simp add: fun_eq_iff EncodeFixed32_def le32_def)

lemma DecodeFixed32_un_le32: "DecodeFixed32 = un_le32"
  by (simp add: fun_eq_iff DecodeFixed32_def un_le32_def)

lemma DecodeFixed32_Encode [simp]: "DecodeFixed32 (EncodeFixed32 v @ bs) = v"
  by (simp add: EncodeFixed32_le32 DecodeFixed32_un_le32)

lemma DecodeFixed32_Encode_Nil [simp]: "DecodeFixed32 (EncodeFixed32 v) = v"
  using DecodeFixed32_Encode [of v "[]"] by simp

lemma low_byte: "ucast (ucast v :: byte) = take_bit 8 (v :: u64)"
  by (rule bit_word_eqI) (auto simp: bit_simps)

lemma join_byte: "take_bit a v OR push_bit a (take_bit 8 (drop_bit a v)) = take_bit (a + 8) (v :: u64)"
proof (rule bit_word_eqI)
  fix n assume "n < LENGTH(64)"
  then show "bit (take_bit a v OR push_bit a (take_bit 8 (drop_bit a v))) n = bit (take_bit (a + 8) v) n"
    by (cases "n < a") (auto simp: bit_simps)
qed

lemma DecodeFixed64_Encode [simp]: "DecodeFixed64 (EncodeFixed64 v @ bs) = v"
proof -
  have "DecodeFixed64 (EncodeFixed64 v @ bs) = take_bit 64 v"
    using join_byte [of 8 v] join_byte [of 16 v] join_byte [of 24 v] join_byte [of 32 v] join_byte [of 40 v]
      join_byte [of 48 v] join_byte [of 56 v]
    by (simp add: DecodeFixed64_def EncodeFixed64_def low_byte flip: or.assoc)
  then show ?thesis using take_bit_length_eq [of v] by simp
qed

lemma DecodeFixed64_Encode_Nil [simp]: "DecodeFixed64 (EncodeFixed64 v) = v"
  using DecodeFixed64_Encode [of v "[]"] by simp

section \<open>Varints\<close>

definition EncodeVarint32 :: "u32 \<Rightarrow> bytes" where
  "EncodeVarint32 v =
     (if v < 2 ^ 7 then [ucast v]
      else if v < 2 ^ 14 then [ucast (v OR 128), ucast (drop_bit 7 v)]
      else if v < 2 ^ 21 then [ucast (v OR 128), ucast (drop_bit 7 v OR 128), ucast (drop_bit 14 v)]
      else if v < 2 ^ 28
      then [ucast (v OR 128), ucast (drop_bit 7 v OR 128), ucast (drop_bit 14 v OR 128), ucast (drop_bit 21 v)]
      else [ucast (v OR 128), ucast (drop_bit 7 v OR 128), ucast (drop_bit 14 v OR 128),
            ucast (drop_bit 21 v OR 128), ucast (drop_bit 28 v)])"

text \<open>The loop of \<open>EncodeVarint64\<close>, at any width.\<close>

function varint :: "'a::len word \<Rightarrow> bytes" where
  "varint v = (if 128 \<le> unat v then ucast (v OR 128) # varint (drop_bit 7 v) else [ucast v])"
  by auto
termination
  by (relation "measure unat") (auto simp: unat_drop_bit)

declare varint.simps [simp del]

definition EncodeVarint64 :: "u64 \<Rightarrow> bytes" where
  "EncodeVarint64 v = varint v"

function VarintLength_loop :: "u64 \<Rightarrow> nat \<Rightarrow> nat" where
  "VarintLength_loop v len = (if 128 \<le> unat v then VarintLength_loop (drop_bit 7 v) (Suc len) else len)"
  by auto
termination
  by (relation "measure (\<lambda>(v, len). unat v)") (auto simp: unat_drop_bit)

declare VarintLength_loop.simps [simp del]

definition VarintLength :: "u64 \<Rightarrow> nat" where
  "VarintLength v = VarintLength_loop v 1"

definition PutVarint32 :: "bytes \<Rightarrow> u32 \<Rightarrow> bytes" where
  "PutVarint32 dst v = dst @ EncodeVarint32 v"

definition PutVarint64 :: "bytes \<Rightarrow> u64 \<Rightarrow> bytes" where
  "PutVarint64 dst v = dst @ EncodeVarint64 v"

text \<open>
  The loop that \<open>GetVarint32PtrFallback\<close> and \<open>GetVarint64Ptr\<close> share; \<open>m\<close> is the last shift they allow.
\<close>

fun get_varint :: "nat \<Rightarrow> bytes \<Rightarrow> nat \<Rightarrow> 'a::len word \<Rightarrow> ('a word \<times> bytes) option" where
  "get_varint m [] shift result = None"
| "get_varint m (b # bs) shift result =
     (if shift \<le> m then
        let byte = ucast b in
        if byte AND 128 \<noteq> 0 then get_varint m bs (shift + 7) (result OR push_bit shift (byte AND 127))
        else Some (result OR push_bit shift byte, bs)
      else None)"

definition GetVarint32PtrFallback :: "bytes \<Rightarrow> (u32 \<times> bytes) option" where
  "GetVarint32PtrFallback p = get_varint 28 p 0 0"

definition GetVarint32Ptr :: "bytes \<Rightarrow> (u32 \<times> bytes) option" where
  "GetVarint32Ptr p =
     (case p of b # bs \<Rightarrow> if (ucast b :: u32) AND 128 = 0 then Some (ucast b, bs) else GetVarint32PtrFallback p
      | [] \<Rightarrow> GetVarint32PtrFallback p)"

definition GetVarint32 :: "bytes \<Rightarrow> (u32 \<times> bytes) option" where
  "GetVarint32 input = GetVarint32Ptr input"

definition GetVarint64Ptr :: "bytes \<Rightarrow> (u64 \<times> bytes) option" where
  "GetVarint64Ptr p = get_varint 63 p 0 0"

definition GetVarint64 :: "bytes \<Rightarrow> (u64 \<times> bytes) option" where
  "GetVarint64 input = GetVarint64Ptr input"

lemma GetVarint32Ptr_fast: "GetVarint32Ptr p = GetVarint32PtrFallback p"
  by (cases p) (auto simp: GetVarint32Ptr_def GetVarint32PtrFallback_def)

section \<open>Length-prefixed strings\<close>

definition PutLengthPrefixedSlice :: "bytes \<Rightarrow> bytes \<Rightarrow> bytes" where
  "PutLengthPrefixedSlice dst value = PutVarint32 dst (of_nat (length value)) @ value"

definition GetLengthPrefixedSlice :: "bytes \<Rightarrow> (bytes \<times> bytes) option" where
  "GetLengthPrefixedSlice input =
     (case GetVarint32 input of
        None \<Rightarrow> None
      | Some (len, rest) \<Rightarrow>
          if unat len \<le> length rest then Some (take (unat len) rest, drop (unat len) rest) else None)"

section \<open>Round trips\<close>

lemma bit_128: "bit (128 :: int) n \<longleftrightarrow> n = 7"
  using bit_exp_iff [where ?'a = int, of 7 n] by auto

lemma bit_127: "bit (127 :: int) n \<longleftrightarrow> n < 7"
  using bit_mask_iff [where ?'a = int, of 7 n] by (simp add: mask_eq_exp_minus_1)

lemmas byte_bits = bit_128 bit_127 bit_and_iff bit_or_iff bit_unsigned_iff bit_take_bit_iff
  bit_push_bit_iff bit_drop_bit_eq

lemma low_byte_continues:
  assumes "8 \<le> LENGTH('a::len)"
  shows "(ucast (ucast (v OR 128 :: 'a word) :: byte) :: 'a word) AND 128 \<noteq> 0"
proof
  assume "(ucast (ucast (v OR 128 :: 'a word) :: byte) :: 'a word) AND 128 = 0"
  then have "\<not> bit ((ucast (ucast (v OR 128 :: 'a word) :: byte) :: 'a word) AND 128) 7" by simp
  then show False using assms by (simp add: byte_bits)
qed

lemma low_byte_bits:
  assumes "8 \<le> LENGTH('a::len)"
  shows "(ucast (ucast (v OR 128 :: 'a word) :: byte) :: 'a word) AND 127 = take_bit 7 v"
  by (rule bit_word_eqI) (use assms in \<open>auto simp: byte_bits\<close>)

lemma last_byte:
  assumes "8 \<le> LENGTH('a::len)" and "unat (v :: 'a word) < 128"
  shows "(ucast (ucast v :: byte) :: 'a word) = v" and "(ucast (ucast v :: byte) :: 'a word) AND 128 = 0"
proof -
  have b: "\<not> bit v n" if "7 \<le> n" for n
    using small_word_bits [of v 7 n] that assms(2) by simp
  show eq: "(ucast (ucast v :: byte) :: 'a word) = v"
  proof (rule bit_word_eqI)
    fix n assume "n < LENGTH('a)"
    then show "bit (ucast (ucast v :: byte) :: 'a word) n = bit v n"
      using b [of n] by (cases "7 \<le> n") (auto simp: byte_bits)
  qed
  show "(ucast (ucast v :: byte) :: 'a word) AND 128 = 0"
    unfolding eq by (rule bit_word_eqI) (use b in \<open>auto simp: byte_bits\<close>)
qed

lemma split_low: "take_bit n v OR push_bit n (drop_bit n v) = (v :: 'a::len word)"
proof (rule bit_word_eqI)
  fix k assume "k < LENGTH('a)"
  then show "bit (take_bit n v OR push_bit n (drop_bit n v)) k = bit v k"
    by (cases "k < n") (auto simp: byte_bits)
qed

lemma get_varint_varint:
  assumes "8 \<le> LENGTH('a::len)" and "unat (v :: 'a word) < 2 ^ (LENGTH('a) - shift)"
    and "shift < LENGTH('a)" and "7 dvd shift" and "m = 7 * ((LENGTH('a) - 1) div 7)"
  shows "get_varint m (varint v @ bs) shift acc = Some (acc OR push_bit shift v, bs)"
  using assms
proof (induction v arbitrary: shift acc rule: varint.induct)
  case (1 v)
  have le: "shift \<le> m"
    using 1(4-6) by (auto elim!: dvdE)
  show ?case
  proof (cases "128 \<le> unat v")
    case True
    have big: "7 < LENGTH('a) - shift"
    proof (rule ccontr)
      assume "\<not> ?thesis"
      then have "(2::nat) ^ (LENGTH('a) - shift) \<le> 2 ^ 7" by (intro power_increasing) auto
      with True 1(3) show False by simp
    qed
    have small: "unat (drop_bit 7 v) < 2 ^ (LENGTH('a) - (shift + 7))"
    proof -
      have "LENGTH('a) - shift = LENGTH('a) - (shift + 7) + 7" using big by simp
      then have "(2::nat) ^ (LENGTH('a) - shift) = 2 ^ (LENGTH('a) - (shift + 7)) * 2 ^ 7"
        by (metis power_add)
      with 1(3) have "unat v < 2 ^ (LENGTH('a) - (shift + 7)) * 2 ^ 7" by simp
      then show ?thesis by (simp add: unat_drop_bit less_mult_imp_div_less)
    qed
    have "get_varint m (varint v @ bs) shift acc =
        get_varint m (varint (drop_bit 7 v) @ bs) (shift + 7) (acc OR push_bit shift (take_bit 7 v))"
      using le True low_byte_continues [of v] low_byte_bits [of v] 1(2)
      by (subst varint.simps) (simp add: Let_def)
    also have "\<dots> = Some (acc OR push_bit shift (take_bit 7 v) OR push_bit (shift + 7) (drop_bit 7 v), bs)"
      using 1(1) [OF True] small big 1(2,4-6) by (simp add: or.assoc)
    also have "acc OR push_bit shift (take_bit 7 v) OR push_bit (shift + 7) (drop_bit 7 v) =
        acc OR push_bit shift (take_bit 7 v OR push_bit 7 (drop_bit 7 v))"
      by (simp add: push_bit_or push_bit_push_bit or.assoc)
    finally show ?thesis by (simp add: split_low)
  next
    case False
    with le last_byte [of v] 1(2) show ?thesis by (subst varint.simps) (simp add: Let_def)
  qed
qed

lemma EncodeVarint32_varint: "EncodeVarint32 v = varint v"
proof -
  have u: "v < 2 ^ 7 \<longleftrightarrow> unat v < 128" "v < 2 ^ 14 \<longleftrightarrow> unat v < 128 * 128"
    "v < 2 ^ 21 \<longleftrightarrow> unat v < 128 * 128 * 128" "v < 2 ^ 28 \<longleftrightarrow> unat v < 128 * 128 * 128 * 128"
    by (simp_all add: word_less_nat_alt)
  have top: "unat v < 2 ^ 32" using unsigned_less [of v] by simp
  have d: "unat (drop_bit 7 v) = unat v div 128" "unat (drop_bit 14 v) = unat v div (128 * 128)"
    "unat (drop_bit 21 v) = unat v div (128 * 128 * 128)" "unat (drop_bit 28 v) = unat v div (128 * 128 * 128 * 128)"
    by (simp_all add: unat_drop_bit)
  have "varint v = (if unat v < 128 then [ucast v] else ucast (v OR 128) # varint (drop_bit 7 v))"
    by (subst varint.simps) simp
  moreover have "varint (drop_bit 7 v) = (if unat v < 128 * 128 then [ucast (drop_bit 7 v)]
      else ucast (drop_bit 7 v OR 128) # varint (drop_bit 14 v))"
    by (subst varint.simps) (auto simp: d drop_bit_drop_bit)
  moreover have "varint (drop_bit 14 v) = (if unat v < 128 * 128 * 128 then [ucast (drop_bit 14 v)]
      else ucast (drop_bit 14 v OR 128) # varint (drop_bit 21 v))"
    by (subst varint.simps) (auto simp: d drop_bit_drop_bit)
  moreover have "varint (drop_bit 21 v) = (if unat v < 128 * 128 * 128 * 128 then [ucast (drop_bit 21 v)]
      else ucast (drop_bit 21 v OR 128) # varint (drop_bit 28 v))"
    by (subst varint.simps) (auto simp: d drop_bit_drop_bit)
  moreover have "varint (drop_bit 28 v) = [ucast (drop_bit 28 v)]"
    using top by (subst varint.simps) (auto simp: d)
  ultimately show ?thesis
    unfolding EncodeVarint32_def u by simp
qed

lemma GetVarint32_Encode [simp]: "GetVarint32 (EncodeVarint32 v @ bs) = Some (v, bs)"
  using get_varint_varint [of v 0 28 bs 0] unsigned_less [of v]
  by (simp add: GetVarint32_def GetVarint32Ptr_fast GetVarint32PtrFallback_def EncodeVarint32_varint)

lemma GetVarint64_Encode [simp]: "GetVarint64 (EncodeVarint64 v @ bs) = Some (v, bs)"
  using get_varint_varint [of v 0 63 bs 0] unsigned_less [of v]
  by (simp add: GetVarint64_def GetVarint64Ptr_def EncodeVarint64_def)

lemma get_varint_rest: "get_varint m p s r = Some (v, q) \<Longrightarrow> \<exists>b. b \<noteq> [] \<and> p = b @ q"
proof (induction m p s r rule: get_varint.induct)
  case (2 m b bs shift result)
  then show ?case
    by (auto simp: Let_def split: if_splits intro: exI [of _ "b # _"])
qed simp

lemma GetVarint32_rest: "GetVarint32 p = Some (v, q) \<Longrightarrow> \<exists>b. b \<noteq> [] \<and> p = b @ q"
  using get_varint_rest by (auto simp: GetVarint32_def GetVarint32Ptr_fast GetVarint32PtrFallback_def)

lemma GetVarint64_rest: "GetVarint64 p = Some (v, q) \<Longrightarrow> \<exists>b. b \<noteq> [] \<and> p = b @ q"
  using get_varint_rest by (auto simp: GetVarint64_def GetVarint64Ptr_def)

lemma GetLengthPrefixedSlice_rest:
  "GetLengthPrefixedSlice p = Some (v, q) \<Longrightarrow> \<exists>b. b \<noteq> [] \<and> p = b @ v @ q"
  by (auto simp: GetLengthPrefixedSlice_def split: option.splits if_splits dest!: GetVarint32_rest)

lemma GetLengthPrefixedSlice_Put [simp]:
  "length value < 2 ^ 32 \<Longrightarrow>
   GetLengthPrefixedSlice (EncodeVarint32 (of_nat (length value)) @ value @ bs) = Some (value, bs)"
  by (simp add: GetLengthPrefixedSlice_def unat_of_nat take_bit_nat_eq_self)

lemma varint_not_Nil [simp]: "varint v \<noteq> []"
  by (subst varint.simps) simp

lemma VarintLength_loop: "VarintLength_loop v len + 1 = len + length (varint v)"
proof (induction v len rule: VarintLength_loop.induct)
  case (1 v len)
  then show ?case by (subst VarintLength_loop.simps, subst varint.simps) simp
qed

lemma VarintLength_length: "VarintLength v = length (EncodeVarint64 v)"
  using VarintLength_loop [of v 1] by (simp add: VarintLength_def EncodeVarint64_def)

lemma length_varint_le: "unat v < 2 ^ (7 * n) \<Longrightarrow> 0 < n \<Longrightarrow> length (varint v) \<le> n"
proof (induction n arbitrary: v)
  case (Suc n)
  show ?case
  proof (cases "128 \<le> unat v")
    case True
    then have n: "0 < n" using Suc.prems(1) by (cases n) auto
    have "unat v < 2 ^ (7 * n) * 2 ^ 7" using Suc.prems(1) by (simp add: power_add)
    then have "unat (drop_bit 7 v) < 2 ^ (7 * n)" unfolding unat_drop_bit by (rule less_mult_imp_div_less)
    from Suc.IH [OF this n] True show ?thesis by (subst varint.simps) simp
  qed (subst varint.simps, simp)
qed simp

section \<open>Properties\<close>

text \<open>
  C35: what the four \<open>Put\<close> functions append to an empty string, followed by any bytes, is read
  back by their counterparts with exactly those bytes left over; strings of fewer than \<open>2 ^ 32\<close> bytes likewise.
\<close>

theorem coding_round_trips:
  assumes "length value < 2 ^ 32"
  shows "DecodeFixed32 (PutFixed32 [] v @ bs) = v \<and> DecodeFixed64 (PutFixed64 [] w @ bs) = w \<and>
    GetVarint32 (PutVarint32 [] v @ bs) = Some (v, bs) \<and> GetVarint64 (PutVarint64 [] w @ bs) = Some (w, bs) \<and>
    GetLengthPrefixedSlice (PutLengthPrefixedSlice [] value @ bs) = Some (value, bs)"
  using assms
  by (simp add: PutFixed32_def PutFixed64_def PutVarint32_def PutVarint64_def PutLengthPrefixedSlice_def)

theorem coding_round_trips_witness:
  "DecodeFixed32 (PutFixed32 [] 0xdeadbeef @ [1]) = 0xdeadbeef \<and> DecodeFixed64 (PutFixed64 [] 5 @ [1]) = 5 \<and>
    GetVarint32 (PutVarint32 [] 0xdeadbeef @ [1]) = Some (0xdeadbeef, [1]) \<and>
    GetVarint64 (PutVarint64 [] 5 @ [1]) = Some (5, [1]) \<and>
    GetLengthPrefixedSlice (PutLengthPrefixedSlice [] [7, 8, 9] @ [1]) = Some ([7, 8, 9], [1])"
  by (rule coding_round_trips) simp

text \<open>
  The lengths of varints: \<open>VarintLength\<close> is the number of bytes \<open>EncodeVarint64\<close> writes, which is between one and
  ten, and \<open>EncodeVarint32\<close> writes between one and five, the size of the buffers \<open>PutVarint64\<close> and \<open>PutVarint32\<close>
  give them.
\<close>

lemma varint_length_bounds:
  "VarintLength v = length (EncodeVarint64 v) \<and> 1 \<le> VarintLength v \<and> VarintLength v \<le> 10 \<and>
   1 \<le> length (EncodeVarint32 w) \<and> length (EncodeVarint32 w) \<le> 5"
proof -
  have "unat v < 2 ^ 64" using unsigned_less [of v] by simp
  then have "unat v < 2 ^ (7 * 10)" by (rule less_trans) simp
  then have "length (EncodeVarint64 v) \<le> 10" unfolding EncodeVarint64_def by (rule length_varint_le) simp
  moreover have "1 \<le> length (EncodeVarint64 v)"
    unfolding EncodeVarint64_def using varint_not_Nil [of v] by (cases "varint v") auto
  moreover have "1 \<le> length (EncodeVarint32 w)" "length (EncodeVarint32 w) \<le> 5" by (auto simp: EncodeVarint32_def)
  ultimately show ?thesis by (simp add: VarintLength_length)
qed

end
