(* ===== verification/Db_Format.thy ===== *)
theory Db_Format
  imports Coding
begin

text \<open>
  LevelDB's status values (\<open>include/leveldb/status.h\<close>, \<open>util/status.cc\<close>), the byte order of slices
  (\<open>include/leveldb/slice.h\<close>, \<open>util/comparator.cc\<close>) and the internal keys built over user keys
  (\<open>db/dbformat.h\<close>, \<open>db/dbformat.cc\<close>). A comparator object is a record of its virtual functions; what the
  rest of LevelDB expects of one is the locale \<open>comparator\<close>, and the internal key comparator over any such
  user comparator is shown to order internal keys and to keep the assertions of its two shortening functions.
  A \<open>Slice\<close> and a \<open>std::string\<close> are their bytes.
\<close>

section \<open>Status\<close>

datatype Code = kOk | kNotFound | kCorruption | kNotSupported | kInvalidArgument | kIOError

text \<open>A null \<open>state_\<close> is \<open>None\<close>; otherwise the state holds the code and the message.\<close>

type_synonym Status = "(Code \<times> string) option"

definition Status_make :: "Code \<Rightarrow> string \<Rightarrow> string \<Rightarrow> Status" where
  "Status_make code msg msg2 = Some (code, msg @ (if msg2 = [] then [] else '': '' @ msg2))"

definition Status_OK :: Status where "Status_OK = None"
definition Status_NotFound :: "string \<Rightarrow> Status" where "Status_NotFound msg = Status_make kNotFound msg []"
definition Status_Corruption :: "string \<Rightarrow> Status" where "Status_Corruption msg = Status_make kCorruption msg []"
definition Status_IOError :: "string \<Rightarrow> string \<Rightarrow> Status" where
  "Status_IOError msg msg2 = Status_make kIOError msg msg2"

definition Status_ok :: "Status \<Rightarrow> bool" where "Status_ok s \<longleftrightarrow> s = None"

definition Status_code :: "Status \<Rightarrow> Code" where
  "Status_code s = (case s of None \<Rightarrow> kOk | Some (c, _) \<Rightarrow> c)"

definition Status_IsNotFound :: "Status \<Rightarrow> bool" where
  "Status_IsNotFound s \<longleftrightarrow> Status_code s = kNotFound"

fun code_text :: "Code \<Rightarrow> string" where
  "code_text kOk = ''OK''"
| "code_text kNotFound = ''NotFound: ''"
| "code_text kCorruption = ''Corruption: ''"
| "code_text kNotSupported = ''Not implemented: ''"
| "code_text kInvalidArgument = ''Invalid argument: ''"
| "code_text kIOError = ''IO error: ''"

definition Status_ToString :: "Status \<Rightarrow> string" where
  "Status_ToString s = (case s of None \<Rightarrow> ''OK'' | Some (c, msg) \<Rightarrow> code_text c @ msg)"

lemmas status_defs = Status_make_def Status_OK_def Status_NotFound_def Status_Corruption_def Status_IOError_def
  Status_ok_def Status_code_def Status_IsNotFound_def

section \<open>The byte order of slices\<close>

text \<open>The sign of \<open>memcmp\<close> on two runs of the same length.\<close>

fun memcmp :: "bytes \<Rightarrow> bytes \<Rightarrow> int" where
  "memcmp (a # as) (b # bs) = (if a < b then -1 else if b < a then 1 else memcmp as bs)"
| "memcmp _ _ = 0"

definition Slice_compare :: "bytes \<Rightarrow> bytes \<Rightarrow> int" where
  "Slice_compare a b =
     (let min_len = (if length a < length b then length a else length b);
          r = memcmp (take min_len a) (take min_len b) in
      if r = 0 then if length a < length b then -1 else if length a > length b then 1 else r else r)"

definition Slice_starts_with :: "bytes \<Rightarrow> bytes \<Rightarrow> bool" where
  "Slice_starts_with s x \<longleftrightarrow> length x \<le> length s \<and> memcmp (take (length x) s) x = 0"

lemma Slice_compare_simps [simp]:
  "Slice_compare [] [] = 0"
  "Slice_compare [] (b # bs) = -1"
  "Slice_compare (a # as) [] = 1"
  "Slice_compare (a # as) (b # bs) = (if a < b then -1 else if b < a then 1 else Slice_compare as bs)"
  by (auto simp: Slice_compare_def Let_def)

lemma Slice_compare_lexordp:
  "Slice_compare a b < 0 \<longleftrightarrow> ord_class.lexordp a b" "Slice_compare a b > 0 \<longleftrightarrow> ord_class.lexordp b a"
  by (induction a b rule: list_induct2') auto

lemma Slice_compare_eq [simp]: "Slice_compare a b = 0 \<longleftrightarrow> a = b"
  by (induction a b rule: list_induct2') auto

lemma Slice_compare_refl [simp]: "Slice_compare a a = 0"
  by simp

lemma memcmp_eq: "length a = length b \<Longrightarrow> memcmp a b = 0 \<longleftrightarrow> a = b"
  by (induction a b rule: list_induct2) auto

lemma Slice_starts_with_iff: "Slice_starts_with s x \<longleftrightarrow> (\<exists>rest. s = x @ rest)"
proof
  assume "Slice_starts_with s x"
  then have "take (length x) s = x" using memcmp_eq [of "take (length x) s" x] by (simp add: Slice_starts_with_def)
  then show "\<exists>rest. s = x @ rest" by (metis append_take_drop_id)
qed (auto simp: Slice_starts_with_def memcmp_eq)

section \<open>Comparators\<close>

record Comparator =
  Compare :: "bytes \<Rightarrow> bytes \<Rightarrow> int"
  FindShortestSeparator :: "bytes \<Rightarrow> bytes \<Rightarrow> bytes result"
  FindShortSuccessor :: "bytes \<Rightarrow> bytes result"

text \<open>
  The contract of \<open>include/leveldb/comparator.h\<close>. The separator of a string and itself is that string: the
  internal key comparator calls its user comparator with equal user keys.
\<close>

locale comparator =
  fixes c :: Comparator
  assumes cmp_eq: "Compare c a b = 0 \<longleftrightarrow> a = b"
    and cmp_anti: "Compare c a b > 0 \<longleftrightarrow> Compare c b a < 0"
    and cmp_trans: "Compare c a b < 0 \<Longrightarrow> Compare c b d < 0 \<Longrightarrow> Compare c a d < 0"
    and sep_between: "Compare c start limit < 0 \<Longrightarrow>
      \<exists>s. FindShortestSeparator c start limit = Inr s \<and> Compare c start s \<le> 0 \<and> Compare c s limit < 0"
    and sep_same: "FindShortestSeparator c start start = Inr start"
    and succ_above: "\<exists>s. FindShortSuccessor c key = Inr s \<and> Compare c key s \<le> 0"
begin

lemma cmp_refl: "Compare c a a = 0"
  by (simp add: cmp_eq)

lemma cmp_le_trans: "Compare c a b \<le> 0 \<Longrightarrow> Compare c b d \<le> 0 \<Longrightarrow> Compare c a d \<le> 0"
  using cmp_trans [of a b d] cmp_eq [of a b] cmp_eq [of b d] by (cases "a = b"; cases "b = d") auto

lemma cmp_total: "Compare c a b < 0 \<or> a = b \<or> Compare c b a < 0"
  using cmp_anti [of a b] cmp_eq [of a b] by linarith

end

subsection \<open>The bytewise comparator\<close>

fun diff_index :: "bytes \<Rightarrow> bytes \<Rightarrow> nat \<Rightarrow> nat" where
  "diff_index (a # as) (b # bs) i = (if a = b then diff_index as bs (Suc i) else i)"
| "diff_index _ _ i = i"

definition Bytewise_FindShortestSeparator :: "bytes \<Rightarrow> bytes \<Rightarrow> bytes result" where
  "Bytewise_FindShortestSeparator start limit =
     (let min_length = min (length start) (length limit);
          diff = diff_index start limit 0 in
      if min_length \<le> diff then Inr start
      else
        let diff_byte = start ! diff in
        if diff_byte < 0xff \<and> unat diff_byte + 1 < unat (limit ! diff) then
          let start' = take (diff + 1) (start[diff := start ! diff + 1]) in
          and_then (check (Slice_compare start' limit < 0) Assert_failed) (\<lambda>_. Inr start')
        else Inr start)"

fun Bytewise_FindShortSuccessor_loop :: "bytes \<Rightarrow> nat \<Rightarrow> nat \<Rightarrow> bytes" where
  "Bytewise_FindShortSuccessor_loop key i 0 = key"
| "Bytewise_FindShortSuccessor_loop key i (Suc n) =
     (let byte = key ! i in
      if byte \<noteq> 0xff then take (i + 1) (key[i := byte + 1])
      else Bytewise_FindShortSuccessor_loop key (Suc i) n)"

definition Bytewise_FindShortSuccessor :: "bytes \<Rightarrow> bytes result" where
  "Bytewise_FindShortSuccessor key = Inr (Bytewise_FindShortSuccessor_loop key 0 (length key))"

definition BytewiseComparator :: Comparator where
  "BytewiseComparator = \<lparr>Compare = Slice_compare, FindShortestSeparator = Bytewise_FindShortestSeparator,
     FindShortSuccessor = Bytewise_FindShortSuccessor\<rparr>"

lemma Slice_compare_prefix [simp]: "Slice_compare (p @ a) (p @ b) = Slice_compare a b"
  by (induction p) auto

lemma diff_index_split:
  "diff_index a b i < i + min (length a) (length b) \<Longrightarrow>
   \<exists>p x r y r'. a = p @ x # r \<and> b = p @ y # r' \<and> x \<noteq> y \<and> diff_index a b i = i + length p"
proof (induction a b i rule: diff_index.induct)
  case (1 a as b bs i)
  show ?case
  proof (cases "a = b")
    case True
    with 1 obtain p x r y r' where "as = p @ x # r" "bs = p @ y # r'" "x \<noteq> y"
      "diff_index as bs (Suc i) = Suc i + length p" by auto
    with True show ?thesis by (intro exI [of _ "a # p"]) auto
  next
    case False
    then show ?thesis by (intro exI [of _ "[]"]) auto
  qed
qed auto

lemma diff_index_same: "diff_index a a i = i + length a"
  by (induction a arbitrary: i) auto

lemma next_byte: "x < 0xff \<Longrightarrow> x < x + (1 :: byte) \<and> unat (x + 1) = unat x + 1"
  by (auto simp: word_less_nat_alt unat_word_ariths)

lemma next_byte_neq: "x \<noteq> 0xff \<Longrightarrow> x < (0xff :: byte)"
proof -
  assume "x \<noteq> 0xff"
  then have "unat x \<noteq> unat (0xff :: byte)" by (metis word_unat_eq_iff)
  moreover have "unat x < 256" using unsigned_less [of x] by simp
  ultimately show ?thesis by (simp add: word_less_nat_alt)
qed

lemma Bytewise_separator:
  "\<exists>s. Bytewise_FindShortestSeparator start limit = Inr s \<and> Slice_compare start s \<le> 0 \<and>
     (Slice_compare start limit < 0 \<longrightarrow> Slice_compare s limit < 0)"
proof (cases "min (length start) (length limit) \<le> diff_index start limit 0")
  case True
  then show ?thesis by (simp add: Bytewise_FindShortestSeparator_def Let_def)
next
  case False
  then have "diff_index start limit 0 < 0 + min (length start) (length limit)" by linarith
  from diff_index_split [OF this] obtain p x r y r' where s: "start = p @ x # r" and l: "limit = p @ y # r'"
    and d: "diff_index start limit 0 = 0 + length p" by blast
  show ?thesis
  proof (cases "x < 0xff \<and> unat x + 1 < unat y")
    case True
    then have lt: "x < x + 1" "x + 1 < y" using next_byte [of x] by (auto simp: word_less_nat_alt)
    then have "Slice_compare (p @ [x + 1]) limit < 0" "Slice_compare start (p @ [x + 1]) < 0"
      by (simp_all add: s l)
    moreover have "Bytewise_FindShortestSeparator start limit = Inr (p @ [x + 1])"
      using False True lt by (simp add: Bytewise_FindShortestSeparator_def Let_def d nth_append) (simp add: s l nth_append)
    ultimately show ?thesis by auto
  next
    case no: False
    with False have "Bytewise_FindShortestSeparator start limit = Inr start"
      by (auto simp: Bytewise_FindShortestSeparator_def Let_def d nth_append) (auto simp: s l nth_append)
    then show ?thesis by simp
  qed
qed

lemma Bytewise_successor_loop:
  "i + n = length key \<Longrightarrow> Slice_compare key (Bytewise_FindShortSuccessor_loop key i n) \<le> 0"
proof (induction n arbitrary: i)
  case (Suc n)
  then have i: "i < length key" by simp
  then have k: "key = take i key @ key ! i # drop (Suc i) key" by (simp add: id_take_nth_drop)
  show ?case
  proof (cases "key ! i = 0xff")
    case False
    have "take (i + 1) (key[i := key ! i + 1]) = take i key @ [key ! i + 1]"
      using i by (simp add: take_Suc_conv_app_nth)
    moreover have "Slice_compare key (take i key @ [key ! i + 1]) < 0"
      using next_byte [OF next_byte_neq [OF False]] by (subst k) simp
    ultimately show ?thesis using False by (simp add: Let_def)
  qed (use Suc in \<open>simp add: Let_def\<close>)
qed simp

interpretation bytewise: comparator BytewiseComparator
proof
  fix a b d start limit key :: bytes
  show "(Compare BytewiseComparator a b = 0) = (a = b)" by (simp add: BytewiseComparator_def)
  show "(0 < Compare BytewiseComparator a b) = (Compare BytewiseComparator b a < 0)"
    by (simp add: BytewiseComparator_def Slice_compare_lexordp)
  show "Compare BytewiseComparator a b < 0 \<Longrightarrow> Compare BytewiseComparator b d < 0 \<Longrightarrow>
      Compare BytewiseComparator a d < 0"
    by (simp add: BytewiseComparator_def Slice_compare_lexordp) (rule lexordp_trans)
  show "Compare BytewiseComparator start limit < 0 \<Longrightarrow>
      \<exists>s. FindShortestSeparator BytewiseComparator start limit = Inr s \<and>
        Compare BytewiseComparator start s \<le> 0 \<and> Compare BytewiseComparator s limit < 0"
    using Bytewise_separator [of start limit] by (auto simp: BytewiseComparator_def)
  show "FindShortestSeparator BytewiseComparator start start = Inr start"
    by (simp add: BytewiseComparator_def Bytewise_FindShortestSeparator_def diff_index_same)
  show "\<exists>s. FindShortSuccessor BytewiseComparator key = Inr s \<and> Compare BytewiseComparator key s \<le> 0"
    using Bytewise_successor_loop [of 0 "length key" key]
    by (simp add: BytewiseComparator_def Bytewise_FindShortSuccessor_def)
qed

section \<open>Internal keys\<close>

datatype ValueType = kTypeDeletion | kTypeValue

fun type_byte :: "ValueType \<Rightarrow> u64" where
  "type_byte kTypeDeletion = 0"
| "type_byte kTypeValue = 1"

definition kValueTypeForSeek :: ValueType where "kValueTypeForSeek = kTypeValue"
definition kMaxSequenceNumber :: u64 where "kMaxSequenceNumber = push_bit 56 1 - 1"

record ParsedInternalKey =
  pik_user_key :: bytes
  pik_sequence :: u64
  pik_type :: ValueType

definition InternalKeyEncodingLength :: "ParsedInternalKey \<Rightarrow> nat" where
  "InternalKeyEncodingLength key = length (pik_user_key key) + 8"

definition PackSequenceAndType :: "u64 \<Rightarrow> ValueType \<Rightarrow> u64 result" where
  "PackSequenceAndType seq t =
     and_then (check (seq \<le> kMaxSequenceNumber) Assert_failed) (\<lambda>_.
     and_then (check (type_byte t \<le> type_byte kValueTypeForSeek) Assert_failed) (\<lambda>_.
     Inr (push_bit 8 seq OR type_byte t)))"

definition AppendInternalKey :: "bytes \<Rightarrow> ParsedInternalKey \<Rightarrow> bytes result" where
  "AppendInternalKey res key =
     and_then (PackSequenceAndType (pik_sequence key) (pik_type key)) (\<lambda>tag.
     Inr (PutFixed64 (res @ pik_user_key key) tag))"

definition ParseInternalKey :: "bytes \<Rightarrow> ParsedInternalKey option" where
  "ParseInternalKey internal_key =
     (let n = length internal_key in
      if n < 8 then None
      else
        let num = DecodeFixed64 (drop (n - 8) internal_key);
            c = num AND 0xff in
        if c \<le> type_byte kTypeValue then
          Some \<lparr>pik_user_key = take (n - 8) internal_key, pik_sequence = drop_bit 8 num,
                pik_type = (if c = 0 then kTypeDeletion else kTypeValue)\<rparr>
        else None)"

definition ExtractUserKey :: "bytes \<Rightarrow> bytes result" where
  "ExtractUserKey internal_key =
     and_then (check (8 \<le> length internal_key) Assert_failed) (\<lambda>_.
     Inr (take (length internal_key - 8) internal_key))"

text \<open>The number in the last eight bytes, as \<open>Compare\<close> reads it.\<close>

definition key_tag :: "bytes \<Rightarrow> u64" where
  "key_tag k = DecodeFixed64 (drop (length k - 8) k)"

definition InternalKey_Compare :: "Comparator \<Rightarrow> bytes \<Rightarrow> bytes \<Rightarrow> int result" where
  "InternalKey_Compare c akey bkey =
     and_then (ExtractUserKey akey) (\<lambda>ua.
     and_then (ExtractUserKey bkey) (\<lambda>ub.
     let r = Compare c ua ub in
     Inr (if r = 0 then
            if key_tag akey > key_tag bkey then -1 else if key_tag akey < key_tag bkey then 1 else r
          else r)))"

text \<open>\<open>assert(this->Compare(a, b) < 0)\<close>.\<close>

definition assert_before :: "Comparator \<Rightarrow> bytes \<Rightarrow> bytes \<Rightarrow> unit result" where
  "assert_before c a b = and_then (InternalKey_Compare c a b) (\<lambda>r. check (r < 0) Assert_failed)"

definition InternalKey_FindShortestSeparator :: "Comparator \<Rightarrow> bytes \<Rightarrow> bytes \<Rightarrow> bytes result" where
  "InternalKey_FindShortestSeparator c start limit =
     and_then (ExtractUserKey start) (\<lambda>user_start.
     and_then (ExtractUserKey limit) (\<lambda>user_limit.
     and_then (FindShortestSeparator c user_start user_limit) (\<lambda>tmp.
     if length tmp < length user_start \<and> Compare c user_start tmp < 0 then
       and_then (PackSequenceAndType kMaxSequenceNumber kValueTypeForSeek) (\<lambda>tag.
       let tmp = PutFixed64 tmp tag in
       and_then (assert_before c start tmp) (\<lambda>_.
       and_then (assert_before c tmp limit) (\<lambda>_.
       Inr tmp)))
     else Inr start)))"

definition InternalKey_FindShortSuccessor :: "Comparator \<Rightarrow> bytes \<Rightarrow> bytes result" where
  "InternalKey_FindShortSuccessor c key =
     and_then (ExtractUserKey key) (\<lambda>user_key.
     and_then (FindShortSuccessor c user_key) (\<lambda>tmp.
     if length tmp < length user_key \<and> Compare c user_key tmp < 0 then
       and_then (PackSequenceAndType kMaxSequenceNumber kValueTypeForSeek) (\<lambda>tag.
       let tmp = PutFixed64 tmp tag in
       and_then (assert_before c key tmp) (\<lambda>_.
       Inr tmp))
     else Inr key))"

record LookupKey =
  lk_start :: bytes
  lk_kstart :: nat

definition LookupKey_make :: "bytes \<Rightarrow> u64 \<Rightarrow> LookupKey result" where
  "LookupKey_make user_key s =
     (let len = EncodeVarint32 (of_nat (length user_key + 8)) in
      and_then (PackSequenceAndType s kValueTypeForSeek) (\<lambda>tag.
      Inr \<lparr>lk_start = len @ user_key @ EncodeFixed64 tag, lk_kstart = length len\<rparr>))"

definition memtable_key :: "LookupKey \<Rightarrow> bytes" where "memtable_key k = lk_start k"

definition lk_internal_key :: "LookupKey \<Rightarrow> bytes" where
  "lk_internal_key k = drop (lk_kstart k) (lk_start k)"

definition lk_user_key :: "LookupKey \<Rightarrow> bytes" where
  "lk_user_key k = take (length (lk_start k) - lk_kstart k - 8) (drop (lk_kstart k) (lk_start k))"

subsection \<open>Packing\<close>

definition ikey :: "bytes \<Rightarrow> u64 \<Rightarrow> ValueType \<Rightarrow> bytes" where
  "ikey u s t = u @ EncodeFixed64 (push_bit 8 s OR type_byte t)"

lemma unat_kMaxSequenceNumber: "unat kMaxSequenceNumber = 2 ^ 56 - 1"
  by (simp add: kMaxSequenceNumber_def)

lemma type_byte_le [simp]: "type_byte t \<le> type_byte kValueTypeForSeek" "unat (type_byte t) < 2"
  by (cases t; simp add: kValueTypeForSeek_def)+

lemma seq_small: "s \<le> kMaxSequenceNumber \<longleftrightarrow> unat s < 2 ^ 56"
  by (auto simp: word_le_nat_alt unat_kMaxSequenceNumber)

lemma PackSequenceAndType_Inr:
  "s \<le> kMaxSequenceNumber \<Longrightarrow> PackSequenceAndType s t = Inr (push_bit 8 s OR type_byte t)"
  by (simp add: PackSequenceAndType_def)

lemma tag_parts:
  assumes "s \<le> kMaxSequenceNumber"
  shows "(push_bit 8 s OR type_byte t) AND 0xff = type_byte t" and "drop_bit 8 (push_bit 8 s OR type_byte t) = s"
proof -
  have s: "n < 56" if "bit s n" for n
    using small_word_bits [of s 56 n] assms that by (auto simp: seq_small not_le [symmetric])
  have t: "n = 0" if "bit (type_byte t) n" for n
    using small_word_bits [of "type_byte t" 1 n] that by (cases n) auto
  have m: "(0xff :: u64) = mask 8" by (simp add: mask_eq_exp_minus_1)
  show "(push_bit 8 s OR type_byte t) AND 0xff = type_byte t"
    unfolding m by (rule bit_word_eqI) (auto simp: bit_simps not_less dest: t)
  show "drop_bit 8 (push_bit 8 s OR type_byte t) = s"
    by (rule bit_word_eqI) (auto simp: bit_simps not_less dest: s t)
qed

lemma type_byte_eq_0 [simp]: "type_byte t = 0 \<longleftrightarrow> t = kTypeDeletion"
  by (cases t) auto

lemma ParseInternalKey_ikey:
  "s \<le> kMaxSequenceNumber \<Longrightarrow>
   ParseInternalKey (ikey u s t) = Some \<lparr>pik_user_key = u, pik_sequence = s, pik_type = t\<rparr>"
  using tag_parts [of s t] by (cases t) (simp_all add: ParseInternalKey_def ikey_def Let_def)

lemma EncodeFixed64_le64: "EncodeFixed64 = le64"
proof (rule ext)
  fix v
  show "EncodeFixed64 v = le64 v"
    unfolding EncodeFixed64_def le64_def le32_def
    by simp (intro conjI bit_word_eqI; auto simp: bit_simps)
qed

lemma EncodeFixed64_Decode:
  assumes "length b = 8"
  shows "EncodeFixed64 (DecodeFixed64 b) = b"
proof -
  have "EncodeFixed64 (un_le64 b) = b" using assms by (simp add: EncodeFixed64_le64 le64_un_le64)
  then show ?thesis by (metis DecodeFixed64_Encode_Nil)
qed

lemma key_split:
  assumes "8 \<le> length k"
  shows "k = take (length k - 8) k @ EncodeFixed64 (key_tag k)"
  using assms EncodeFixed64_Decode [of "drop (length k - 8) k"] by (simp add: key_tag_def)

lemma key_tag_append [simp]: "key_tag (u @ EncodeFixed64 v) = v"
  by (simp add: key_tag_def)

subsection \<open>The order of internal keys\<close>

definition internal_before :: "Comparator \<Rightarrow> bytes \<Rightarrow> bytes \<Rightarrow> bool" where
  "internal_before c a b \<longleftrightarrow> (case InternalKey_Compare c a b of Inl _ \<Rightarrow> False | Inr r \<Rightarrow> r < 0)"

abbreviation user_part :: "bytes \<Rightarrow> bytes" where
  "user_part k \<equiv> take (length k - 8) k"

lemma ExtractUserKey_Inr: "8 \<le> length k \<Longrightarrow> ExtractUserKey k = Inr (user_part k)"
  by (simp add: ExtractUserKey_def)

lemma InternalKey_Compare_Inr:
  assumes "8 \<le> length a" and "8 \<le> length b"
  shows "InternalKey_Compare c a b = Inr
    (if Compare c (user_part a) (user_part b) = 0 then
       if key_tag b < key_tag a then -1 else if key_tag a < key_tag b then 1 else 0
     else Compare c (user_part a) (user_part b))"
  using assms by (simp add: InternalKey_Compare_def ExtractUserKey_Inr Let_def)

lemma internal_before_iff:
  assumes "8 \<le> length a" and "8 \<le> length b"
  shows "internal_before c a b \<longleftrightarrow> Compare c (user_part a) (user_part b) < 0 \<or>
    Compare c (user_part a) (user_part b) = 0 \<and> key_tag b < key_tag a"
  using assms by (auto simp: internal_before_def InternalKey_Compare_Inr)

lemma assert_before_iff: "assert_before c a b = Inr u \<longleftrightarrow> internal_before c a b"
  by (auto simp: assert_before_def internal_before_def split: sum.splits)

context comparator
begin

lemma internal_eq:
  assumes "8 \<le> length a" and "8 \<le> length b"
  shows "InternalKey_Compare c a b = Inr 0 \<longleftrightarrow> a = b"
proof
  assume "InternalKey_Compare c a b = Inr 0"
  then have "user_part a = user_part b" and "key_tag a = key_tag b"
    using assms by (auto simp: InternalKey_Compare_Inr cmp_eq split: if_splits)
  then show "a = b" using key_split [OF assms(1)] key_split [OF assms(2)] by simp
next
  assume "a = b" then show "InternalKey_Compare c a b = Inr 0"
    using assms by (simp add: InternalKey_Compare_Inr cmp_refl)
qed

lemma internal_trans:
  assumes "8 \<le> length a" and "8 \<le> length b" and "8 \<le> length d"
    and "internal_before c a b" and "internal_before c b d"
  shows "internal_before c a d"
proof -
  let ?a = "user_part a" and ?b = "user_part b" and ?d = "user_part d"
  have ab: "Compare c ?a ?b < 0 \<or> ?a = ?b \<and> key_tag b < key_tag a"
    and bd: "Compare c ?b ?d < 0 \<or> ?b = ?d \<and> key_tag d < key_tag b"
    using assms by (simp_all add: internal_before_iff cmp_eq)
  have "Compare c ?a ?d < 0 \<or> ?a = ?d \<and> key_tag d < key_tag a"
    using ab bd cmp_trans [of ?a ?b ?d] by auto
  then show ?thesis using assms by (simp add: internal_before_iff cmp_eq)
qed

lemma internal_total:
  assumes "8 \<le> length a" and "8 \<le> length b"
  shows "internal_before c a b \<or> a = b \<or> internal_before c b a"
proof -
  let ?a = "user_part a" and ?b = "user_part b"
  consider "Compare c ?a ?b < 0" | "?a = ?b" | "Compare c ?b ?a < 0" using cmp_total by blast
  then show ?thesis
  proof cases
    case 2
    have "key_tag a < key_tag b \<or> key_tag a = key_tag b \<or> key_tag b < key_tag a" by auto
    with 2 key_split [OF assms(1)] key_split [OF assms(2)] assms show ?thesis
      by (simp add: internal_before_iff cmp_eq) metis
  qed (use assms in \<open>simp_all add: internal_before_iff\<close>)
qed

lemma internal_asym:
  assumes "8 \<le> length a" and "8 \<le> length b" and "internal_before c a b"
  shows "\<not> internal_before c b a"
  using assms internal_trans [of a b a] by (auto simp: internal_before_iff cmp_refl)

lemma internal_separator:
  assumes "8 \<le> length start" and "8 \<le> length limit" and lt: "internal_before c start limit"
  shows "\<exists>s. InternalKey_FindShortestSeparator c start limit = Inr s \<and> 8 \<le> length s \<and> length s \<le> length start \<and>
    (s = start \<or> internal_before c start s) \<and> internal_before c s limit"
proof -
  let ?u = "user_part start" and ?l = "user_part limit"
  let ?tag = "push_bit 8 kMaxSequenceNumber OR type_byte kValueTypeForSeek"
  consider (less) "Compare c ?u ?l < 0" | (same) "?u = ?l"
    using lt assms by (auto simp: internal_before_iff cmp_eq)
  then obtain tmp where tmp: "FindShortestSeparator c ?u ?l = Inr tmp"
    and below: "Compare c ?u tmp < 0 \<Longrightarrow> Compare c tmp ?l < 0"
    using sep_between [of ?u ?l] sep_same [of ?u] by cases (auto simp: cmp_refl)
  show ?thesis
  proof (cases "length tmp < length ?u \<and> Compare c ?u tmp < 0")
    case True
    let ?s = "tmp @ EncodeFixed64 ?tag"
    have "internal_before c start ?s" and "internal_before c ?s limit"
      using True below assms(1,2) by (simp_all add: internal_before_iff)
    moreover from this have "InternalKey_FindShortestSeparator c start limit = Inr ?s"
      using True tmp assms(1,2)
      by (simp add: InternalKey_FindShortestSeparator_def ExtractUserKey_Inr PackSequenceAndType_Inr Let_def
          PutFixed64_def assert_before_iff)
    ultimately show ?thesis using True assms(1) by (intro exI [of _ ?s]) auto
  next
    case False
    then have "InternalKey_FindShortestSeparator c start limit = Inr start"
      using tmp assms(1,2) by (auto simp: InternalKey_FindShortestSeparator_def ExtractUserKey_Inr)
    then show ?thesis using lt assms by simp
  qed
qed

lemma internal_successor:
  assumes "8 \<le> length key"
  shows "\<exists>s. InternalKey_FindShortSuccessor c key = Inr s \<and> 8 \<le> length s \<and> length s \<le> length key \<and>
    (s = key \<or> internal_before c key s)"
proof -
  let ?u = "user_part key" and ?tag = "push_bit 8 kMaxSequenceNumber OR type_byte kValueTypeForSeek"
  obtain tmp where tmp: "FindShortSuccessor c ?u = Inr tmp" using succ_above [of ?u] by blast
  show ?thesis
  proof (cases "length tmp < length ?u \<and> Compare c ?u tmp < 0")
    case True
    let ?s = "tmp @ EncodeFixed64 ?tag"
    have "internal_before c key ?s" using True assms by (simp add: internal_before_iff)
    moreover from this have "InternalKey_FindShortSuccessor c key = Inr ?s"
      using True tmp assms
      by (simp add: InternalKey_FindShortSuccessor_def ExtractUserKey_Inr PackSequenceAndType_Inr Let_def
          PutFixed64_def assert_before_iff)
    ultimately show ?thesis using True assms by (intro exI [of _ ?s]) auto
  next
    case False
    then have "InternalKey_FindShortSuccessor c key = Inr key"
      using tmp assms by (auto simp: InternalKey_FindShortSuccessor_def ExtractUserKey_Inr)
    then show ?thesis using assms by simp
  qed
qed

end

lemma LookupKey_make_Inr:
  assumes "s \<le> kMaxSequenceNumber"
  shows "LookupKey_make u s = Inr \<lparr>lk_start = EncodeVarint32 (of_nat (length u + 8)) @ ikey u s kTypeValue,
      lk_kstart = length (EncodeVarint32 (of_nat (length u + 8)))\<rparr>"
  using assms by (simp add: LookupKey_make_def PackSequenceAndType_Inr Let_def ikey_def kValueTypeForSeek_def)

lemma LookupKey_parts:
  assumes "LookupKey_make u s = Inr k"
  shows "lk_internal_key k = ikey u s kTypeValue" and "lk_user_key k = u"
    and "memtable_key k = EncodeVarint32 (of_nat (length u + 8)) @ ikey u s kTypeValue"
  using assms
  by (auto simp: LookupKey_make_def PackSequenceAndType_def Let_def lk_internal_key_def lk_user_key_def
      memtable_key_def ikey_def kValueTypeForSeek_def)

section \<open>Properties\<close>

text \<open>
  C34: an internal key that \<open>AppendInternalKey\<close> can build, that is one whose sequence
  number is at most \<open>kMaxSequenceNumber\<close>, is parsed back to the same user key, sequence number and type, and its
  user key is extracted from it; a larger sequence number fails the assertion.
\<close>

theorem internal_key_round_trip:
  "(if pik_sequence key \<le> kMaxSequenceNumber then
      \<exists>k. AppendInternalKey [] key = Inr k \<and> ParseInternalKey k = Some key \<and> ExtractUserKey k = Inr (pik_user_key key) \<and>
        length k = InternalKeyEncodingLength key
    else AppendInternalKey [] key = Inl Assert_failed)"
proof (cases "pik_sequence key \<le> kMaxSequenceNumber")
  case True
  have "AppendInternalKey [] key = Inr (ikey (pik_user_key key) (pik_sequence key) (pik_type key))"
    using True by (simp add: AppendInternalKey_def PackSequenceAndType_Inr PutFixed64_def ikey_def)
  then show ?thesis
    using True ParseInternalKey_ikey [OF True, of "pik_user_key key" "pik_type key"]
    by (simp add: ExtractUserKey_def InternalKeyEncodingLength_def) (simp add: ikey_def)
qed (simp add: AppendInternalKey_def PackSequenceAndType_def check_def)

text \<open>
  C33: over the bytewise comparator, the internal comparator's shortening functions never
  fail their assertions: for internal keys \<open>start\<close> before \<open>limit\<close> the separator is at or after \<open>start\<close>, before
  \<open>limit\<close> and no longer than \<open>start\<close>, and the successor of a key is at or after it and no longer.
\<close>

theorem internal_key_separators:
  assumes "8 \<le> length start" and "8 \<le> length limit" and "internal_before BytewiseComparator start limit"
  shows "\<exists>s t. InternalKey_FindShortestSeparator BytewiseComparator start limit = Inr s \<and> length s \<le> length start \<and>
    (s = start \<or> internal_before BytewiseComparator start s) \<and> internal_before BytewiseComparator s limit \<and>
    InternalKey_FindShortSuccessor BytewiseComparator start = Inr t \<and> length t \<le> length start \<and>
    (t = start \<or> internal_before BytewiseComparator start t)"
  using bytewise.internal_separator [OF assms] bytewise.internal_successor [OF assms(1)] by blast

theorem internal_key_separators_witness:
  "\<exists>s t. InternalKey_FindShortestSeparator BytewiseComparator (ikey [1, 2, 3] 5 kTypeValue) (ikey [1, 9] 5 kTypeValue) = Inr s \<and>
    length s \<le> length (ikey [1, 2, 3] 5 kTypeValue) \<and>
    (s = ikey [1, 2, 3] 5 kTypeValue \<or> internal_before BytewiseComparator (ikey [1, 2, 3] 5 kTypeValue) s) \<and>
    internal_before BytewiseComparator s (ikey [1, 9] 5 kTypeValue) \<and>
    InternalKey_FindShortSuccessor BytewiseComparator (ikey [1, 2, 3] 5 kTypeValue) = Inr t \<and>
    length t \<le> length (ikey [1, 2, 3] 5 kTypeValue) \<and>
    (t = ikey [1, 2, 3] 5 kTypeValue \<or> internal_before BytewiseComparator (ikey [1, 2, 3] 5 kTypeValue) t)"
proof (rule internal_key_separators)
  show "internal_before BytewiseComparator (ikey [1, 2, 3] 5 kTypeValue) (ikey [1, 9] 5 kTypeValue)"
    by (subst internal_before_iff) (simp_all add: ikey_def BytewiseComparator_def)
qed (simp_all add: ikey_def)

end
