(* ===== verification/Write_Batch.thy ===== *)
theory Write_Batch
  imports Db_Format
begin

text \<open>
  LevelDB's write batches (\<open>db/write_batch.cc\<close>): a string \<open>rep_\<close> that starts with an 8-byte sequence number
  and a 4-byte count and continues with one record per update. A \<open>Handler\<close> is the pair of functions that
  \<open>Iterate\<close> calls, acting on a state of their own. The counters are the 32-bit words that the code keeps in
  \<open>int\<close>s.
\<close>

definition kHeader :: nat where "kHeader = 12"

definition WriteBatch_Clear :: bytes where
  "WriteBatch_Clear = replicate kHeader 0"

definition ApproximateSize :: "bytes \<Rightarrow> nat" where "ApproximateSize rep = length rep"

text \<open>\<open>EncodeFixed32(&rep_[i], v)\<close>: bytes of \<open>rep_\<close> overwritten in place.\<close>

definition put_at :: "bytes \<Rightarrow> nat \<Rightarrow> bytes \<Rightarrow> bytes" where
  "put_at rep i bs = take i rep @ bs @ drop (i + length bs) rep"

definition Count :: "bytes \<Rightarrow> u32" where "Count rep = DecodeFixed32 (drop 8 rep)"
definition SetCount :: "bytes \<Rightarrow> u32 \<Rightarrow> bytes" where "SetCount rep n = put_at rep 8 (EncodeFixed32 n)"
definition Sequence :: "bytes \<Rightarrow> u64" where "Sequence rep = DecodeFixed64 rep"
definition SetSequence :: "bytes \<Rightarrow> u64 \<Rightarrow> bytes" where
  "SetSequence rep seq = put_at rep 0 (EncodeFixed64 seq)"

definition tag_of :: "ValueType \<Rightarrow> byte" where "tag_of t = ucast (type_byte t)"

definition WriteBatch_Put :: "bytes \<Rightarrow> bytes \<Rightarrow> bytes \<Rightarrow> bytes" where
  "WriteBatch_Put rep key val =
     (let rep = SetCount rep (Count rep + 1);
          rep = rep @ [tag_of kTypeValue];
          rep = PutLengthPrefixedSlice rep key in
      PutLengthPrefixedSlice rep val)"

definition WriteBatch_Delete :: "bytes \<Rightarrow> bytes \<Rightarrow> bytes" where
  "WriteBatch_Delete rep key =
     (let rep = SetCount rep (Count rep + 1);
          rep = rep @ [tag_of kTypeDeletion] in
      PutLengthPrefixedSlice rep key)"

definition WriteBatch_Append :: "bytes \<Rightarrow> bytes \<Rightarrow> bytes result" where
  "WriteBatch_Append dst src =
     (let dst = SetCount dst (Count dst + Count src) in
      and_then (check (kHeader \<le> length src) Assert_failed) (\<lambda>_.
      Inr (dst @ drop kHeader src)))"

definition SetContents :: "bytes \<Rightarrow> bytes result" where
  "SetContents contents = and_then (check (kHeader \<le> length contents) Assert_failed) (\<lambda>_. Inr contents)"

record 'h Handler =
  h_Put :: "bytes \<Rightarrow> bytes \<Rightarrow> 'h \<Rightarrow> 'h"
  h_Delete :: "bytes \<Rightarrow> 'h \<Rightarrow> 'h"

function Iterate_loop :: "'h Handler \<Rightarrow> bytes \<Rightarrow> u32 \<Rightarrow> 'h \<Rightarrow> Status \<times> u32 \<times> 'h" where
  "Iterate_loop handler [] found h = (Status_OK, found, h)"
| "Iterate_loop handler (tag # input) found h =
     (let found = found + 1 in
      if tag = tag_of kTypeValue then
        case GetLengthPrefixedSlice input of
          None \<Rightarrow> (Status_Corruption ''bad WriteBatch Put'', found, h)
        | Some (key, input) \<Rightarrow>
            (case GetLengthPrefixedSlice input of
               None \<Rightarrow> (Status_Corruption ''bad WriteBatch Put'', found, h)
             | Some (val, input) \<Rightarrow> Iterate_loop handler input found (h_Put handler key val h))
      else if tag = tag_of kTypeDeletion then
        case GetLengthPrefixedSlice input of
          None \<Rightarrow> (Status_Corruption ''bad WriteBatch Delete'', found, h)
        | Some (key, input) \<Rightarrow> Iterate_loop handler input found (h_Delete handler key h)
      else (Status_Corruption ''unknown WriteBatch tag'', found, h))"
  by pat_completeness auto
termination
  by (relation "measure (\<lambda>(_, input, _, _). length input)") (auto dest!: GetLengthPrefixedSlice_rest)

definition Iterate :: "'h Handler \<Rightarrow> bytes \<Rightarrow> 'h \<Rightarrow> Status \<times> 'h" where
  "Iterate handler rep h =
     (if length rep < kHeader then (Status_Corruption ''malformed WriteBatch (too small)'', h)
      else
        case Iterate_loop handler (drop kHeader rep) 0 h of (s, found, h) \<Rightarrow>
          if \<not> Status_ok s then (s, h)
          else if found \<noteq> Count rep then (Status_Corruption ''WriteBatch has wrong count'', h)
          else (Status_OK, h))"

section \<open>Batches as lists of updates\<close>

datatype wb_op = Op_Put bytes bytes | Op_Delete bytes

fun add_op :: "bytes \<Rightarrow> wb_op \<Rightarrow> bytes" where
  "add_op rep (Op_Put k v) = WriteBatch_Put rep k v"
| "add_op rep (Op_Delete k) = WriteBatch_Delete rep k"

fun apply_op :: "'h Handler \<Rightarrow> wb_op \<Rightarrow> 'h \<Rightarrow> 'h" where
  "apply_op handler (Op_Put k v) h = h_Put handler k v h"
| "apply_op handler (Op_Delete k) h = h_Delete handler k h"

fun op_fits :: "wb_op \<Rightarrow> bool" where
  "op_fits (Op_Put k v) \<longleftrightarrow> length k < 2 ^ 32 \<and> length v < 2 ^ 32"
| "op_fits (Op_Delete k) \<longleftrightarrow> length k < 2 ^ 32"

fun op_record :: "wb_op \<Rightarrow> bytes" where
  "op_record (Op_Put k v) = tag_of kTypeValue # EncodeVarint32 (of_nat (length k)) @ k @
     EncodeVarint32 (of_nat (length v)) @ v"
| "op_record (Op_Delete k) = tag_of kTypeDeletion # EncodeVarint32 (of_nat (length k)) @ k"

definition batch :: "u64 \<Rightarrow> wb_op list \<Rightarrow> bytes" where
  "batch seq ops = EncodeFixed64 seq @ EncodeFixed32 (of_nat (length ops)) @ concat (map op_record ops)"

lemma tags_differ [simp]: "tag_of kTypeDeletion \<noteq> tag_of kTypeValue"
  by (simp add: tag_of_def)

lemma Clear_batch: "WriteBatch_Clear = batch 0 []"
  by (simp add: WriteBatch_Clear_def batch_def kHeader_def EncodeFixed64_def EncodeFixed32_def eval_nat_numeral)

lemma Count_batch [simp]: "Count (batch seq ops) = of_nat (length ops)"
  by (simp add: Count_def batch_def)

lemma SetCount_batch:
  "SetCount (batch seq ops) n = EncodeFixed64 seq @ EncodeFixed32 n @ concat (map op_record ops)"
  by (simp add: SetCount_def batch_def put_at_def)

lemma Sequence_batch [simp]: "Sequence (batch seq ops) = seq"
  by (simp add: Sequence_def batch_def)

lemma SetSequence_batch [simp]: "SetSequence (batch seq ops) seq' = batch seq' ops"
  by (simp add: SetSequence_def batch_def put_at_def)

lemma length_batch: "kHeader \<le> length (batch seq ops)"
  by (simp add: batch_def kHeader_def)

lemma drop_batch: "drop kHeader (batch seq ops) = concat (map op_record ops)"
  by (simp add: batch_def kHeader_def)

lemma add_op_batch: "add_op (batch seq ops) op = batch seq (ops @ [op])"
  by (cases op)
    (simp_all add: WriteBatch_Put_def WriteBatch_Delete_def PutLengthPrefixedSlice_def PutVarint32_def
      Let_def SetCount_batch, simp_all add: batch_def add.commute)

lemma Append_batch: "WriteBatch_Append (batch seq ops) (batch seq' ops') = Inr (batch seq (ops @ ops'))"
  by (simp add: WriteBatch_Append_def length_batch SetCount_batch drop_batch Let_def) (simp add: batch_def)

lemma foldl_add_op: "foldl add_op (batch seq ops) ops' = batch seq (ops @ ops')"
  by (induction ops' arbitrary: ops) (simp_all add: add_op_batch)

lemma Iterate_loop_records:
  "\<forall>op \<in> set ops. op_fits op \<Longrightarrow>
   Iterate_loop handler (concat (map op_record ops)) found h =
     (Status_OK, found + of_nat (length ops), fold (apply_op handler) ops h)"
proof (induction ops arbitrary: found h)
  case (Cons op ops)
  then show ?case
    by (cases op) (simp_all add: Let_def add.assoc)
qed simp

lemma Iterate_batch:
  "\<forall>op \<in> set ops. op_fits op \<Longrightarrow> Iterate handler (batch seq ops) h = (Status_OK, fold (apply_op handler) ops h)"
  using length_batch [of seq ops]
  by (simp add: Iterate_def drop_batch Iterate_loop_records status_defs not_less [symmetric])

text \<open>Whatever the bytes are, an accepted batch is a batch of updates.\<close>

lemma Iterate_loop_OK:
  "Iterate_loop handler input found h = (s, found', h') \<Longrightarrow> Status_ok s \<Longrightarrow>
   \<exists>ops. h' = fold (apply_op handler) ops h \<and> found' = found + of_nat (length ops)"
proof (induction handler input found h rule: Iterate_loop.induct)
  case (1 handler found h)
  then show ?case by (intro exI [of _ "[]"]) simp
next
  case (2 handler tag input found h)
  let ?k = "\<lambda>op ops. h' = fold (apply_op handler) (op # ops) h \<and> found' = found + of_nat (length (op # ops))"
  show ?case
  proof (cases "tag = tag_of kTypeValue")
    case True
    with 2(3,4) obtain key r val r' where k: "GetLengthPrefixedSlice input = Some (key, r)"
      and v: "GetLengthPrefixedSlice r = Some (val, r')"
      and l: "Iterate_loop handler r' (found + 1) (h_Put handler key val h) = (s, found', h')"
      by (auto simp: Let_def status_defs split: option.splits)
    from 2(1) [OF refl True k refl v refl l 2(4)] obtain ops where "?k (Op_Put key val) ops"
      by (auto simp: add.assoc)
    then show ?thesis by blast
  next
    case False
    with 2(3,4) obtain key r where t: "tag = tag_of kTypeDeletion" and k: "GetLengthPrefixedSlice input = Some (key, r)"
      and l: "Iterate_loop handler r (found + 1) (h_Delete handler key h) = (s, found', h')"
      by (auto simp: Let_def status_defs split: option.splits if_splits)
    from 2(2) [OF refl False t k refl l 2(4)] obtain ops where "?k (Op_Delete key) ops"
      by (auto simp: add.assoc)
    then show ?thesis by blast
  qed
qed

section \<open>Properties\<close>

text \<open>
  C32: a batch built by any sequence of \<open>Put\<close> and \<open>Delete\<close> calls on a cleared batch, whose
  sequence number is then set, keeps that sequence number, counts its updates, and \<open>Iterate\<close> accepts it and
  hands every update to the handler once, in the order of the calls, for keys and values of fewer than
  \<open>2 ^ 32\<close> bytes.
\<close>

theorem write_batch_replays:
  assumes "\<forall>op \<in> set ops. op_fits op"
  shows "let rep = SetSequence (foldl add_op WriteBatch_Clear ops) seq in
    Sequence rep = seq \<and> Count rep = of_nat (length ops) \<and>
    Iterate handler rep h = (Status_OK, fold (apply_op handler) ops h)"
  using assms by (simp add: Clear_batch foldl_add_op Iterate_batch Let_def)

theorem write_batch_replays_witness:
  "let rep = SetSequence (foldl add_op WriteBatch_Clear [Op_Put [1] [7, 8], Op_Delete [1]]) 5 in
    Sequence rep = 5 \<and> Count rep = 2 \<and>
    Iterate \<lparr>h_Put = (\<lambda>k v m. m(k \<mapsto> v)), h_Delete = (\<lambda>k m. m(k := None))\<rparr> rep Map.empty =
      (Status_OK, Map.empty)"
  using write_batch_replays [of "[Op_Put [1] [7, 8], Op_Delete [1]]" 5
      "\<lparr>h_Put = (\<lambda>k v m. m(k \<mapsto> v)), h_Delete = (\<lambda>k m. m(k := None))\<rparr>" Map.empty]
  by (simp add: Let_def fun_upd_idem)

text \<open>
  Appending a second batch gives the batch of both update sequences under the first
  batch's sequence number, so iterating over it is iterating over the first and then the second.
\<close>

lemma write_batch_append:
  assumes "\<forall>op \<in> set ops. op_fits op" and "\<forall>op \<in> set ops'. op_fits op"
  shows "\<exists>rep. WriteBatch_Append (foldl add_op WriteBatch_Clear ops) (foldl add_op WriteBatch_Clear ops') = Inr rep \<and>
    Iterate handler rep h =
      (let (s, h1) = Iterate handler (foldl add_op WriteBatch_Clear ops) h in
       Iterate handler (foldl add_op WriteBatch_Clear ops') h1)"
proof -
  have "\<forall>op \<in> set (ops @ ops'). op_fits op" using assms by auto
  then show ?thesis
    using assms by (simp add: Clear_batch foldl_add_op Append_batch Iterate_batch)
qed

end
