(* ===== verification/Memtable.thy ===== *)
theory Memtable
  imports Skip_List Write_Batch
begin

text \<open>
  LevelDB's memtable (\<open>db/memtable.h\<close>, \<open>db/memtable.cc\<close>): entries that hold a length-prefixed internal key and
  a length-prefixed value, kept in a skip list under the order of their internal keys, and the insertion of a
  write batch (\<open>MemTableInserter\<close> in \<open>db/write_batch.cc\<close>). A \<open>const char*\<close> into the arena is the list of the
  bytes from there on. The specification of a memtable is the list of the updates that were added to it.
\<close>

section \<open>Entries\<close>

text \<open>The length at the start of \<open>data\<close>, read from at most five bytes, and the bytes after it.\<close>

definition entry_length :: "bytes \<Rightarrow> (nat \<times> bytes) result" where
  "entry_length data =
     (case GetVarint32Ptr (take 5 data) of
        None \<Rightarrow> Inl Out_of_bounds
      | Some (len, q) \<Rightarrow> Inr (unat len, drop (length (take 5 data) - length q) data))"

definition entry_slice :: "bytes \<Rightarrow> bytes result" where
  "entry_slice data =
     and_then (entry_length data) (\<lambda>(len, p). if len \<le> length p then Inr (take len p) else Inl Out_of_bounds)"

definition KeyComparator :: "Comparator \<Rightarrow> bytes \<Rightarrow> bytes \<Rightarrow> int result" where
  "KeyComparator c aptr bptr =
     and_then (entry_slice aptr) (\<lambda>a. and_then (entry_slice bptr) (\<lambda>b. InternalKey_Compare c a b))"

text \<open>
  The comparison that the skip list calls. A fault stands for a result that is never seen: every pointer the
  list compares is an entry, on which \<open>KeyComparator\<close> returns.
\<close>

definition table_cmp :: "Comparator \<Rightarrow> bytes \<Rightarrow> bytes \<Rightarrow> int" where
  "table_cmp c a b = (case KeyComparator c a b of Inr r \<Rightarrow> r | Inl _ \<Rightarrow> 0)"

definition EncodeKey :: "bytes \<Rightarrow> bytes" where
  "EncodeKey target = PutVarint32 [] (of_nat (length target)) @ target"

record MemTable =
  mt_comparator :: Comparator
  mt_refs :: int
  mt_table :: "bytes SkipList"

definition MemTable_make :: "Comparator \<Rightarrow> MemTable" where
  "MemTable_make c = \<lparr>mt_comparator = c, mt_refs = 0, mt_table = SkipList_make []\<rparr>"

definition MemTable_Ref :: "MemTable \<Rightarrow> MemTable" where
  "MemTable_Ref mt = mt\<lparr>mt_refs := mt_refs mt + 1\<rparr>"

text \<open>\<open>None\<close>: the table deleted itself.\<close>

definition MemTable_Unref :: "MemTable \<Rightarrow> MemTable option result" where
  "MemTable_Unref mt =
     (let mt = mt\<lparr>mt_refs := mt_refs mt - 1\<rparr> in
      and_then (check (0 \<le> mt_refs mt) Assert_failed) (\<lambda>_. Inr (if mt_refs mt \<le> 0 then None else Some mt)))"

definition MemTable_Add :: "MemTable \<Rightarrow> u64 \<Rightarrow> ValueType \<Rightarrow> bytes \<Rightarrow> bytes \<Rightarrow> MemTable result option" where
  "MemTable_Add mt s type key val =
     (let key_size = length key;
          val_size = length val;
          internal_key_size = key_size + 8;
          encoded_len = VarintLength (of_nat internal_key_size) + internal_key_size +
            VarintLength (of_nat val_size) + val_size;
          buf = EncodeVarint32 (of_nat internal_key_size) @ key @ EncodeFixed64 (push_bit 8 s OR type_byte type) @
            EncodeVarint32 (of_nat val_size) @ val in
      if length buf \<noteq> encoded_len then Some (Inl Assert_failed)
      else map_option (\<lambda>r. and_then r (\<lambda>sl. Inr (mt\<lparr>mt_table := sl\<rparr>)))
        (SkipList_Insert (table_cmp (mt_comparator mt)) (mt_table mt) buf))"

datatype mt_answer = Not_here | Has_value bytes | Is_deleted Status

definition MemTable_Get :: "MemTable \<Rightarrow> LookupKey \<Rightarrow> mt_answer result option" where
  "MemTable_Get mt key =
     (case Iter_Seek (table_cmp (mt_comparator mt)) (mt_table mt) (memtable_key key) of
        None \<Rightarrow> None
      | Some None \<Rightarrow> Some (Inr Not_here)
      | Some (Some n) \<Rightarrow>
          let entry = sl_key (mt_table mt) n in
          Some (and_then (entry_length entry) (\<lambda>(key_length, key_ptr).
            if Compare (mt_comparator mt) (take (key_length - 8) key_ptr) (lk_user_key key) = 0 then
              let tag = DecodeFixed64 (drop (key_length - 8) key_ptr) in
              if tag AND 0xff = type_byte kTypeValue then
                and_then (entry_slice (drop key_length key_ptr)) (\<lambda>v. Inr (Has_value v))
              else if tag AND 0xff = type_byte kTypeDeletion then Inr (Is_deleted (Status_NotFound []))
              else Inr Not_here
            else Inr Not_here)))"

text \<open>\<open>MemTableInserter\<close>: the handler keeps the next sequence number and the table, or how \<open>Add\<close> failed.\<close>

definition inserter_add :: "ValueType \<Rightarrow> bytes \<Rightarrow> bytes \<Rightarrow> u64 \<times> MemTable result option \<Rightarrow> u64 \<times> MemTable result option" where
  "inserter_add t k v = (\<lambda>(seq, r).
     (seq + 1, case r of None \<Rightarrow> None | Some (Inl e) \<Rightarrow> Some (Inl e) | Some (Inr mt) \<Rightarrow> MemTable_Add mt seq t k v))"

definition MemTableInserter :: "(u64 \<times> MemTable result option) Handler" where
  "MemTableInserter = \<lparr>h_Put = inserter_add kTypeValue, h_Delete = (\<lambda>k. inserter_add kTypeDeletion k [])\<rparr>"

definition InsertInto :: "bytes \<Rightarrow> MemTable \<Rightarrow> Status \<times> MemTable result option" where
  "InsertInto b mt = (case Iterate MemTableInserter b (Sequence b, Some (Inr mt)) of (s, _, r) \<Rightarrow> (s, r))"

section \<open>Reading what was written\<close>

lemma length_EncodeVarint32: "length (EncodeVarint32 v) \<le> 5" "0 < length (EncodeVarint32 v)"
  by (auto simp: EncodeVarint32_def)

lemma length_varint_unat: "unat v = unat w \<Longrightarrow> length (varint v) = length (varint (w :: 'b::len word))"
proof (induction v arbitrary: w rule: varint.induct)
  case (1 v)
  show ?case
  proof (cases "128 \<le> unat v")
    case True
    have "unat (drop_bit 7 v) = unat (drop_bit 7 w)" using 1(2) by (simp add: unat_drop_bit)
    with 1(1) [OF True] True 1(2) show ?thesis by (subst (1 2) varint.simps) simp
  next
    case False
    with 1(2) show ?thesis by (subst (1 2) varint.simps) simp
  qed
qed

lemma VarintLength_32: "n < 2 ^ 32 \<Longrightarrow> VarintLength (of_nat n) = length (EncodeVarint32 (of_nat n))"
  unfolding VarintLength_length EncodeVarint64_def EncodeVarint32_varint
  by (rule length_varint_unat) (simp add: unat_of_nat take_bit_nat_eq_self)

lemma entry_length_Encode:
  "n < 2 ^ 32 \<Longrightarrow> entry_length (EncodeVarint32 (of_nat n) @ rest) = Inr (n, rest)"
proof -
  assume n: "n < 2 ^ 32"
  let ?e = "EncodeVarint32 (of_nat n)"
  have t: "take 5 (?e @ rest) = ?e @ take (5 - length ?e) rest" using length_EncodeVarint32(1) [of "of_nat n"] by simp
  have "GetVarint32Ptr (take 5 (?e @ rest)) = Some (of_nat n, take (5 - length ?e) rest)"
    unfolding t using GetVarint32_Encode [of "of_nat n" "take (5 - length ?e) rest"] by (simp add: GetVarint32_def)
  then show ?thesis using n t by (simp add: entry_length_def unat_of_nat take_bit_nat_eq_self)
qed

lemma entry_slice_Encode:
  "length k < 2 ^ 32 \<Longrightarrow> entry_slice (EncodeVarint32 (of_nat (length k)) @ k @ rest) = Inr k"
  by (simp add: entry_slice_def entry_length_Encode)

definition entry_valid :: "bytes \<Rightarrow> bool" where
  "entry_valid e \<longleftrightarrow> (\<exists>k. entry_slice e = Inr k \<and> 8 \<le> length k)"

lemma table_cmp_valid:
  "entry_slice a = Inr ka \<Longrightarrow> entry_slice b = Inr kb \<Longrightarrow>
   table_cmp c a b = (case InternalKey_Compare c ka kb of Inr r \<Rightarrow> r | Inl _ \<Rightarrow> 0)"
  by (simp add: table_cmp_def KeyComparator_def)

lemma table_cmp_before:
  "entry_slice a = Inr ka \<Longrightarrow> entry_slice b = Inr kb \<Longrightarrow> table_cmp c a b < 0 \<longleftrightarrow> internal_before c ka kb"
  by (auto simp: table_cmp_valid internal_before_def split: sum.splits)

lemma swap_ties:
  fixes x y :: "'a::linorder" and r r' :: int
  assumes "r = 0 \<longleftrightarrow> r' = (0::int)" and "r > 0 \<longleftrightarrow> r' < (0::int)"
  shows "(0 < (if r = 0 then if y < x then -1 else if x < y then 1 else 0 else r)) =
    ((if r' = 0 then if x < y then -1 else if y < x then 1 else 0 else r') < (0::int))"
  using assms by (cases x y rule: linorder_cases) auto

context comparator
begin

lemma table_cmp_swap:
  assumes "entry_valid a" and "entry_valid b"
  shows "table_cmp c a b > 0 \<longleftrightarrow> table_cmp c b a < 0"
proof -
  from assms obtain ka kb where k: "entry_slice a = Inr ka" "entry_slice b = Inr kb" "8 \<le> length ka" "8 \<le> length kb"
    by (auto simp: entry_valid_def)
  let ?r = "Compare c (user_part ka) (user_part kb)" and ?r' = "Compare c (user_part kb) (user_part ka)"
  have ab: "table_cmp c a b =
      (if ?r = 0 then if key_tag kb < key_tag ka then -1 else if key_tag ka < key_tag kb then 1 else 0 else ?r)"
    by (simp only: table_cmp_valid [OF k(1,2)] InternalKey_Compare_Inr [OF k(3,4)] sum.case)
  have ba: "table_cmp c b a =
      (if ?r' = 0 then if key_tag ka < key_tag kb then -1 else if key_tag kb < key_tag ka then 1 else 0 else ?r')"
    by (simp only: table_cmp_valid [OF k(2,1)] InternalKey_Compare_Inr [OF k(4,3)] sum.case)
  have "?r = 0 \<longleftrightarrow> ?r' = 0" unfolding cmp_eq by auto
  moreover have "?r > 0 \<longleftrightarrow> ?r' < 0" by (rule cmp_anti)
  ultimately show ?thesis unfolding ab ba by (rule swap_ties)
qed

lemma table_cmp_trans:
  assumes "entry_valid a" and "entry_valid b" and "entry_valid d" and "table_cmp c a b < 0" and "table_cmp c b d < 0"
  shows "table_cmp c a d < 0"
proof -
  from assms(1) obtain ka where a: "entry_slice a = Inr ka" "8 \<le> length ka" by (auto simp: entry_valid_def)
  from assms(2) obtain kb where b: "entry_slice b = Inr kb" "8 \<le> length kb" by (auto simp: entry_valid_def)
  from assms(3) obtain kd where d: "entry_slice d = Inr kd" "8 \<le> length kd" by (auto simp: entry_valid_def)
  have "internal_before c ka kb" "internal_before c kb kd"
    using assms(4,5) table_cmp_before [OF a(1) b(1)] table_cmp_before [OF b(1) d(1)] by simp_all
  then have "internal_before c ka kd" by (rule internal_trans [OF a(2) b(2) d(2)])
  then show ?thesis using table_cmp_before [OF a(1) d(1)] by simp
qed

end

sublocale comparator \<subseteq> table: key_order "table_cmp c" entry_valid
proof
  fix a b d
  assume "entry_valid a" and "entry_valid b"
  then show "(0 < table_cmp c a b) = (table_cmp c b a < 0)" by (rule table_cmp_swap)
next
  fix a b d
  assume "entry_valid a" and "entry_valid b" and "entry_valid d" and "table_cmp c a b < 0" and "table_cmp c b d < 0"
  then show "table_cmp c a d < 0" by (rule table_cmp_trans)
qed

section \<open>The specification: the updates that were added\<close>

type_synonym update = "bytes \<times> u64 \<times> ValueType \<times> bytes"

abbreviation upd_key :: "update \<Rightarrow> bytes" where "upd_key e \<equiv> fst e"
abbreviation upd_seq :: "update \<Rightarrow> u64" where "upd_seq e \<equiv> fst (snd e)"
abbreviation upd_type :: "update \<Rightarrow> ValueType" where "upd_type e \<equiv> fst (snd (snd e))"
abbreviation upd_val :: "update \<Rightarrow> bytes" where "upd_val e \<equiv> snd (snd (snd e))"

definition upd_ok :: "update \<Rightarrow> bool" where
  "upd_ok e \<longleftrightarrow> upd_seq e \<le> kMaxSequenceNumber \<and> length (upd_key e) + 8 < 2 ^ 32 \<and> length (upd_val e) < 2 ^ 32"

definition upd_ikey :: "update \<Rightarrow> bytes" where
  "upd_ikey e = ikey (upd_key e) (upd_seq e) (upd_type e)"

definition upd_entry :: "update \<Rightarrow> bytes" where
  "upd_entry e = EncodeVarint32 (of_nat (length (upd_key e) + 8)) @ upd_ikey e @
     EncodeVarint32 (of_nat (length (upd_val e))) @ upd_val e"

definition mt_holds :: "Comparator \<Rightarrow> MemTable \<Rightarrow> update list \<Rightarrow> bool" where
  "mt_holds c mt es \<longleftrightarrow> mt_comparator mt = c \<and>
     (\<exists>ks. sl_rep (table_cmp c) (mt_table mt) ks \<and> set ks = upd_entry ` set es)"

text \<open>The newest update of \<open>u\<close> that a reader at sequence number \<open>s\<close> may see.\<close>

definition newest :: "bytes \<Rightarrow> u64 \<Rightarrow> update list \<Rightarrow> update option" where
  "newest u s es = find (\<lambda>e. upd_key e = u \<and> upd_seq e \<le> s) (rev es)"

definition answer :: "update option \<Rightarrow> mt_answer" where
  "answer r = (case r of None \<Rightarrow> Not_here
     | Some e \<Rightarrow> if upd_type e = kTypeValue then Has_value (upd_val e) else Is_deleted (Status_NotFound []))"

abbreviation increasing :: "update list \<Rightarrow> bool" where
  "increasing es \<equiv> sorted_wrt (\<lambda>a b. upd_seq a < upd_seq b) es"

lemma length_ikey [simp]: "length (ikey u s t) = length u + 8"
  by (simp add: ikey_def)

lemma upd_ikey_length: "length (upd_ikey e) = length (upd_key e) + 8"
  by (simp add: upd_ikey_def)

lemma entry_slice_upd: "upd_ok e \<Longrightarrow> entry_slice (upd_entry e) = Inr (upd_ikey e)"
  using entry_slice_Encode [of "upd_ikey e"] by (simp add: upd_entry_def upd_ikey_length upd_ok_def)

lemma entry_valid_upd: "upd_ok e \<Longrightarrow> entry_valid (upd_entry e)"
  by (simp add: entry_valid_def entry_slice_upd upd_ikey_length)

lemma ikey_parts [simp]: "user_part (ikey u s t) = u" "key_tag (ikey u s t) = push_bit 8 s OR type_byte t"
  by (simp_all add: ikey_def)

lemma take_ikey [simp]: "take (length u) (ikey u s t) = u"
  by (simp add: ikey_def)

lemma internal_before_ikey:
  "internal_before c (ikey u s t) (ikey u' s' t') \<longleftrightarrow> Compare c u u' < 0 \<or>
    Compare c u u' = 0 \<and> push_bit 8 s' OR type_byte t' < push_bit 8 s OR type_byte t"
  using internal_before_iff [of "ikey u s t" "ikey u' s' t'" c] by simp

lemma unat_tag:
  assumes "s \<le> kMaxSequenceNumber"
  shows "unat (push_bit 8 s OR type_byte t) = 256 * unat s + unat (type_byte t)"
proof -
  let ?g = "push_bit 8 s OR type_byte t"
  have "unat ?g div 256 = unat s"
    using tag_parts(2) [OF assms, of t] unat_drop_bit [of 8 ?g] by simp
  moreover have "unat ?g mod 256 = unat (type_byte t)"
  proof -
    have "(0xff :: u64) = mask 8" by (simp add: mask_eq_exp_minus_1)
    then have "take_bit 8 ?g = type_byte t" using tag_parts(1) [OF assms, of t] by (simp add: take_bit_eq_mask)
    then have "unat (take_bit 8 ?g) = unat (type_byte t)" by (rule arg_cong)
    then have "take_bit 8 (unat ?g) = unat (type_byte t)" unfolding unsigned_take_bit_eq .
    then show ?thesis unfolding take_bit_eq_mod by simp
  qed
  ultimately show ?thesis by (metis mult_div_mod_eq)
qed

lemma radix_less:
  "a \<noteq> b \<Longrightarrow> x < 2 \<Longrightarrow> y < 2 \<Longrightarrow> 256 * a + x < 256 * b + y \<longleftrightarrow> a < (b :: nat)"
  "y < 2 \<Longrightarrow> 256 * a + 1 < 256 * b + y \<longleftrightarrow> a < (b :: nat)"
  by (rule iffI; linarith)+

lemma tag_less_iff:
  assumes "s \<le> kMaxSequenceNumber" and "s' \<le> kMaxSequenceNumber" and "s \<noteq> s'"
  shows "push_bit 8 s OR type_byte t < push_bit 8 s' OR type_byte t' \<longleftrightarrow> s < s'"
proof -
  have "unat s \<noteq> unat s'" using assms(3) by (metis word_unat_eq_iff)
  then show ?thesis
    unfolding word_less_nat_alt unat_tag [OF assms(1)] unat_tag [OF assms(2)]
    by (rule radix_less(1)) (rule type_byte_le(2))+
qed

lemma seek_tag_less_iff:
  assumes "s \<le> kMaxSequenceNumber" and "s' \<le> kMaxSequenceNumber"
  shows "push_bit 8 s OR type_byte kTypeValue < push_bit 8 s' OR type_byte t' \<longleftrightarrow> s < s'"
  unfolding word_less_nat_alt unat_tag [OF assms(1)] unat_tag [OF assms(2)]
  using radix_less(2) [OF type_byte_le(2)] by simp

lemma find_newest:
  assumes "increasing es" and "e \<in> set es" and "upd_key e = u" and "upd_seq e \<le> s"
    and "\<And>x. x \<in> set es \<Longrightarrow> upd_key x = u \<Longrightarrow> upd_seq x \<le> s \<Longrightarrow> upd_seq x \<le> upd_seq e"
  shows "newest u s es = Some e"
  using assms
proof (induction es rule: rev_induct)
  case (snoc x xs)
  show ?case
  proof (cases "upd_key x = u \<and> upd_seq x \<le> s")
    case True
    with snoc.prems(5) [of x] have le: "upd_seq x \<le> upd_seq e" by simp
    have "e = x"
    proof (rule ccontr)
      assume "e \<noteq> x"
      with snoc.prems(1,2) have "upd_seq e < upd_seq x" by (auto simp: sorted_wrt_append)
      with le show False by simp
    qed
    with True show ?thesis by (simp add: newest_def)
  next
    case False
    with snoc.prems have "newest u s xs = Some e" by (intro snoc.IH) (auto simp: sorted_wrt_append)
    with False show ?thesis by (auto simp: newest_def)
  qed
qed simp

lemma find_newest_None:
  "(\<And>x. x \<in> set es \<Longrightarrow> \<not> (upd_key x = u \<and> upd_seq x \<le> s)) \<Longrightarrow> newest u s es = None"
  by (auto simp: newest_def find_None_iff)

context comparator
begin

lemma add_entry:
  assumes "mt_holds c mt es" and "\<forall>e \<in> set es. upd_ok e" and "upd_ok new"
    and "\<forall>e \<in> set es. upd_seq e \<noteq> upd_seq new"
  shows "\<exists>mt'. MemTable_Add mt (upd_seq new) (upd_type new) (upd_key new) (upd_val new) = Some (Inr mt') \<and>
    mt_holds c mt' (es @ [new])"
proof -
  from assms(1) obtain ks where mc: "mt_comparator mt = c" and rep: "sl_rep (table_cmp c) (mt_table mt) ks"
    and ks: "set ks = upd_entry ` set es" by (auto simp: mt_holds_def)
  have valid: "\<forall>k \<in> set ks. entry_valid k" using ks assms(2) entry_valid_upd by auto
  have fresh: "\<forall>k \<in> set ks. table_cmp c (upd_entry new) k \<noteq> 0"
  proof
    fix k assume "k \<in> set ks"
    then obtain e where e: "e \<in> set es" "k = upd_entry e" "upd_ok e" using ks assms(2) by auto
    have "key_tag (upd_ikey new) \<noteq> key_tag (upd_ikey e)"
      unfolding upd_ikey_def ikey_parts using assms(3,4) e upd_ok_def by (metis tag_parts(2))
    then have "InternalKey_Compare c (upd_ikey new) (upd_ikey e) \<noteq> Inr 0"
      using internal_eq [of "upd_ikey new" "upd_ikey e"] by (auto simp: upd_ikey_length)
    moreover have "\<exists>r. InternalKey_Compare c (upd_ikey new) (upd_ikey e) = Inr r"
      using InternalKey_Compare_Inr [of "upd_ikey new" "upd_ikey e" c] by (simp add: upd_ikey_length)
    ultimately show "table_cmp c (upd_entry new) k \<noteq> 0"
      using table_cmp_valid [OF entry_slice_upd entry_slice_upd, of new e c] assms(3) e by auto
  qed
  from table.sl_rep_insert [OF rep valid entry_valid_upd [OF assms(3)] fresh] obtain sl' where
    ins: "SkipList_Insert (table_cmp c) (mt_table mt) (upd_entry new) = Some (Inr sl')" and
    rep': "sl_rep (table_cmp c) sl' (table.before_key (upd_entry new) ks @ upd_entry new # table.from_key (upd_entry new) ks)"
    by blast
  have "set (table.before_key (upd_entry new) ks @ upd_entry new # table.from_key (upd_entry new) ks) =
      insert (upd_entry new) (set ks)"
    using takeWhile_dropWhile_id [of "\<lambda>k. table_cmp c k (upd_entry new) < 0" ks]
    by (metis Un_insert_right list.simps(15) set_append)
  then have holds: "mt_holds c (mt\<lparr>mt_table := sl'\<rparr>) (es @ [new])"
    using rep' mc ks by (auto simp: mt_holds_def)
  have len: "length (upd_entry new) =
      VarintLength (of_nat (length (upd_key new) + 8)) + (length (upd_key new) + 8) +
      VarintLength (of_nat (length (upd_val new))) + length (upd_val new)"
    using assms(3) by (simp only: upd_ok_def upd_entry_def length_append upd_ikey_length VarintLength_32)
  have buf: "EncodeVarint32 (of_nat (length (upd_key new) + 8)) @ upd_key new @
      EncodeFixed64 (push_bit 8 (upd_seq new) OR type_byte (upd_type new)) @
      EncodeVarint32 (of_nat (length (upd_val new))) @ upd_val new = upd_entry new"
    by (simp add: upd_entry_def upd_ikey_def ikey_def)
  have "MemTable_Add mt (upd_seq new) (upd_type new) (upd_key new) (upd_val new) = Some (Inr (mt\<lparr>mt_table := sl'\<rparr>))"
    unfolding MemTable_Add_def Let_def buf len mc ins by simp
  with holds show ?thesis by blast
qed

lemma entry_before_seek:
  assumes "upd_ok e" and "s \<le> kMaxSequenceNumber"
  shows "internal_before c (upd_ikey e) (ikey u s kTypeValue) \<longleftrightarrow>
    Compare c (upd_key e) u < 0 \<or> upd_key e = u \<and> s < upd_seq e"
proof -
  have "internal_before c (upd_ikey e) (ikey u s kTypeValue) \<longleftrightarrow> Compare c (upd_key e) u < 0 \<or>
      Compare c (upd_key e) u = 0 \<and> push_bit 8 s OR type_byte kTypeValue <
        push_bit 8 (upd_seq e) OR type_byte (upd_type e)"
    unfolding upd_ikey_def by (rule internal_before_ikey)
  then show ?thesis
    using assms by (simp only: upd_ok_def cmp_eq seek_tag_less_iff)
qed

lemma entry_before_entry:
  assumes "upd_ok e" and "upd_ok e'" and "internal_before c (upd_ikey e) (upd_ikey e')"
  shows "Compare c (upd_key e) (upd_key e') < 0 \<or> upd_key e = upd_key e' \<and> upd_seq e' \<le> upd_seq e"
proof -
  have "Compare c (upd_key e) (upd_key e') < 0 \<or> Compare c (upd_key e) (upd_key e') = 0 \<and>
      push_bit 8 (upd_seq e') OR type_byte (upd_type e') < push_bit 8 (upd_seq e) OR type_byte (upd_type e)"
    using assms(3) unfolding upd_ikey_def internal_before_ikey .
  moreover have "upd_seq e' \<le> upd_seq e"
    if "push_bit 8 (upd_seq e') OR type_byte (upd_type e') < push_bit 8 (upd_seq e) OR type_byte (upd_type e)"
    using that tag_less_iff [of "upd_seq e'" "upd_seq e"] assms(1,2) by (cases "upd_seq e' = upd_seq e") (auto simp: upd_ok_def)
  ultimately show ?thesis unfolding cmp_eq by blast
qed

text \<open>What \<open>Get\<close> makes of the entry it lands on.\<close>

lemma read_entry:
  assumes "upd_ok e"
  obtains L p where "entry_length (upd_entry e) = Inr (L, p)" and "take (L - 8) p = upd_key e"
    and "DecodeFixed64 (drop (L - 8) p) AND 0xff = type_byte (upd_type e)"
    and "entry_slice (drop L p) = Inr (upd_val e)"
proof
  let ?v = "EncodeVarint32 (of_nat (length (upd_val e))) @ upd_val e"
  let ?L = "length (upd_key e) + 8" and ?p = "upd_ikey e @ ?v"
  have tag: "drop (?L - 8) ?p = EncodeFixed64 (push_bit 8 (upd_seq e) OR type_byte (upd_type e)) @ ?v"
    by (simp add: upd_ikey_def ikey_def)
  show "entry_length (upd_entry e) = Inr (?L, ?p)"
    unfolding upd_entry_def by (rule entry_length_Encode) (use assms in \<open>simp add: upd_ok_def\<close>)
  show "take (?L - 8) ?p = upd_key e" by (simp add: upd_ikey_def)
  show "DecodeFixed64 (drop (?L - 8) ?p) AND 0xff = type_byte (upd_type e)"
    unfolding tag using assms by (simp only: DecodeFixed64_Encode tag_parts(1) upd_ok_def)
  show "entry_slice (drop ?L ?p) = Inr (upd_val e)"
    using entry_slice_Encode [of "upd_val e" "[]"] assms by (simp add: upd_ok_def upd_ikey_length [symmetric])
qed

lemma Get_entry:
  assumes "mt_comparator mt = c" and "upd_ok e" and "LookupKey_make u s = Inr lk"
    and "Iter_Seek (table_cmp c) (mt_table mt) (memtable_key lk) = Some (Some n)"
    and "sl_key (mt_table mt) n = upd_entry e"
  shows "MemTable_Get mt lk = Some (Inr (if upd_key e = u then answer (Some e) else Not_here))"
proof -
  obtain L p where "entry_length (upd_entry e) = Inr (L, p)" and "take (L - 8) p = upd_key e"
    and "DecodeFixed64 (drop (L - 8) p) AND 0xff = type_byte (upd_type e)"
    and "entry_slice (drop L p) = Inr (upd_val e)"
    using read_entry [OF assms(2)] .
  then show ?thesis
    unfolding MemTable_Get_def assms(1,4)
    by (cases "upd_type e") (simp_all add: assms(5) Let_def LookupKey_parts(2) [OF assms(3)] cmp_eq answer_def)
qed

lemma get_newest:
  assumes holds: "mt_holds c mt es" and ok: "\<forall>e \<in> set es. upd_ok e" and inc: "increasing es"
    and s: "s \<le> kMaxSequenceNumber" and u: "length u + 8 < 2 ^ 32" and lk: "LookupKey_make u s = Inr lk"
  shows "MemTable_Get mt lk = Some (Inr (answer (newest u s es)))"
proof -
  from holds obtain ks where mc: "mt_comparator mt = c" and rep: "sl_rep (table_cmp c) (mt_table mt) ks"
    and ks: "set ks = upd_entry ` set es" by (auto simp: mt_holds_def)
  have valid: "\<forall>k \<in> set ks. entry_valid k" using ks ok entry_valid_upd by auto
  let ?t = "memtable_key lk"
  have ts: "entry_slice ?t = Inr (ikey u s kTypeValue)"
    using entry_slice_Encode [of "ikey u s kTypeValue" "[]"] u LookupKey_parts(3) [OF lk] by simp
  then have tv: "entry_valid ?t" by (simp add: entry_valid_def)
  have before: "table_cmp c (upd_entry e) ?t < 0 \<longleftrightarrow> Compare c (upd_key e) u < 0 \<or> upd_key e = u \<and> s < upd_seq e"
    if "e \<in> set es" for e
    using table_cmp_before [OF entry_slice_upd ts] entry_before_seek [OF _ s] ok that by simp
  have srt: "sorted_wrt (\<lambda>a b. table_cmp c a b < 0) ks" using rep by (simp add: sl_rep_def)
  from table.sl_rep_seek [OF rep valid tv] obtain it where it: "Iter_Seek (table_cmp c) (mt_table mt) ?t = Some it"
    and land: "case it of None \<Rightarrow> table.from_key ?t ks = []
      | Some n \<Rightarrow> \<exists>rest. table.from_key ?t ks = sl_key (mt_table mt) n # rest" by blast
  have visible: "upd_entry x \<in> set (table.from_key ?t ks)" if x: "x \<in> set es" "upd_key x = u" "upd_seq x \<le> s" for x
  proof -
    have "\<not> table_cmp c (upd_entry x) ?t < 0" using before [OF x(1)] x by (auto simp: cmp_refl)
    moreover have "upd_entry x \<in> set ks" using ks x by auto
    ultimately show ?thesis
      using takeWhile_dropWhile_id [of "\<lambda>k. table_cmp c k ?t < 0" ks] by (metis Un_iff set_append set_takeWhileD)
  qed
  show ?thesis
  proof (cases it)
    case None
    then have "table.from_key ?t ks = []" using land by simp
    then have "newest u s es = None" using visible by (intro find_newest_None) (metis empty_iff empty_set)
    then show ?thesis using it None by (simp add: MemTable_Get_def mc answer_def)
  next
    case (Some n)
    then obtain rest where rest: "table.from_key ?t ks = sl_key (mt_table mt) n # rest" using land by auto
    then have "sl_key (mt_table mt) n \<in> set ks" by (metis list.set_intros(1) set_dropWhileD)
    then obtain e where e: "e \<in> set es" and k: "sl_key (mt_table mt) n = upd_entry e" using ks by auto
    have eok: "upd_ok e" using e ok by blast
    have "\<not> table_cmp c (upd_entry e) ?t < 0"
      using table.from_not_before [OF srt valid tv, of "upd_entry e"] rest k by simp
    then have e_at: "\<not> Compare c (upd_key e) u < 0" "upd_key e = u \<Longrightarrow> upd_seq e \<le> s"
      using before [OF e] by auto
    have first: "upd_key e = u \<and> upd_seq x \<le> upd_seq e" if x: "x \<in> set es" "upd_key x = u" "upd_seq x \<le> s" for x
    proof -
      have xok: "upd_ok x" using x ok by blast
      have "upd_entry x = upd_entry e \<or> table_cmp c (upd_entry e) (upd_entry x) < 0"
        using visible [OF x] sorted_wrt_dropWhile [OF srt, of "\<lambda>k. table_cmp c k ?t < 0"] unfolding rest k by auto
      then consider "upd_ikey x = upd_ikey e" | "internal_before c (upd_ikey e) (upd_ikey x)"
        using entry_slice_upd [OF xok] entry_slice_upd [OF eok] table_cmp_before [OF entry_slice_upd entry_slice_upd] xok eok
        by (metis sum.inject(2))
      then show ?thesis
      proof cases
        case 1
        then have "upd_key x = upd_key e" "upd_seq x = upd_seq e"
          using tag_parts(2) [of "upd_seq x" "upd_type x"] tag_parts(2) [of "upd_seq e" "upd_type e"] xok eok
          unfolding upd_ikey_def upd_ok_def by (metis ikey_parts)+
        then show ?thesis using x by simp
      next
        case 2
        with entry_before_entry [OF eok xok] x e_at show ?thesis by auto
      qed
    qed
    show ?thesis
    proof (cases "upd_key e = u")
      case True
      then have "newest u s es = Some e" by (intro find_newest [OF inc e]) (use e_at first in auto)
      then show ?thesis using Get_entry [OF mc eok lk it [unfolded Some] k] True by simp
    next
      case False
      then have "newest u s es = None" using first by (intro find_newest_None) blast
      then show ?thesis using Get_entry [OF mc eok lk it [unfolded Some] k] False by (simp add: answer_def)
    qed
  qed
qed

end

section \<open>Sequences of updates and batches\<close>

definition add_update :: "MemTable result option \<Rightarrow> update \<Rightarrow> MemTable result option" where
  "add_update r e =
     (case r of None \<Rightarrow> None | Some (Inl f) \<Rightarrow> Some (Inl f)
      | Some (Inr mt) \<Rightarrow> MemTable_Add mt (upd_seq e) (upd_type e) (upd_key e) (upd_val e))"

lemma mt_holds_make: "mt_holds c (MemTable_make c) []"
  by (simp add: mt_holds_def MemTable_make_def) (use sl_rep_make in fastforce)

lemma seqs_differ: "increasing (es @ e # es') \<Longrightarrow> \<forall>x \<in> set es. upd_seq x \<noteq> upd_seq e"
  by (auto simp: sorted_wrt_append)

lemma add_updates:
  assumes "mt_holds BytewiseComparator mt es" and "\<forall>e \<in> set (es @ es'). upd_ok e" and "increasing (es @ es')"
  shows "\<exists>mt'. foldl add_update (Some (Inr mt)) es' = Some (Inr mt') \<and> mt_holds BytewiseComparator mt' (es @ es')"
  using assms
proof (induction es' arbitrary: mt es)
  case (Cons e es')
  then obtain mt' where "MemTable_Add mt (upd_seq e) (upd_type e) (upd_key e) (upd_val e) = Some (Inr mt')"
    and "mt_holds BytewiseComparator mt' (es @ [e])"
    using bytewise.add_entry [of mt es e] seqs_differ [of es e es'] by auto
  with Cons.IH [of mt' "es @ [e]"] Cons.prems show ?case by (simp add: add_update_def)
qed simp

fun op_key :: "wb_op \<Rightarrow> bytes" where
  "op_key (Op_Put k v) = k"
| "op_key (Op_Delete k) = k"

fun op_update :: "u64 \<Rightarrow> wb_op \<Rightarrow> update" where
  "op_update s (Op_Put k v) = (k, s, kTypeValue, v)"
| "op_update s (Op_Delete k) = (k, s, kTypeDeletion, [])"

fun updates :: "u64 \<Rightarrow> wb_op list \<Rightarrow> update list" where
  "updates s [] = []"
| "updates s (op # ops) = op_update s op # updates (s + 1) ops"

lemma updates_append: "updates s (xs @ ys) = updates s xs @ updates (s + of_nat (length xs)) ys"
  by (induction xs arbitrary: s) (simp_all add: add.assoc)

lemma op_update_parts [simp]: "upd_key (op_update s op) = op_key op" "upd_seq (op_update s op) = s"
  by (cases op; simp)+

lemma inserter_fold:
  "fold (apply_op MemTableInserter) ops (s, r) = (s + of_nat (length ops), foldl add_update r (updates s ops))"
proof (induction ops arbitrary: s r)
  case (Cons op ops)
  have "apply_op MemTableInserter op (s, r) = (s + 1, add_update r (op_update s op))"
    by (cases op) (simp_all add: MemTableInserter_def inserter_add_def add_update_def split: option.splits sum.splits)
  with Cons show ?case by (simp add: add.assoc)
qed simp

lemma InsertInto_batch:
  "\<forall>op \<in> set ops. op_fits op \<Longrightarrow>
   InsertInto (batch s ops) mt = (Status_OK, foldl add_update (Some (Inr mt)) (updates s ops))"
  by (simp add: InsertInto_def Iterate_batch inserter_fold)

lemma unat_Suc_seq: "unat s + Suc n \<le> 2 ^ 56 \<Longrightarrow> unat (s + 1 :: u64) = Suc (unat s)"
  by (subst unat_add_lem [THEN iffD1]) auto

lemma updates_seqs:
  "unat s + length ops \<le> 2 ^ 56 \<Longrightarrow> e \<in> set (updates s ops) \<Longrightarrow>
   unat s \<le> unat (upd_seq e) \<and> unat (upd_seq e) < unat s + length ops"
proof (induction ops arbitrary: s)
  case (Cons op ops)
  then have n: "unat (s + 1) = Suc (unat s)" by (intro unat_Suc_seq [of s "length ops"]) simp
  from Cons.prems consider "e = op_update s op" | "e \<in> set (updates (s + 1) ops)" by auto
  then show ?case using Cons.IH [of "s + 1"] Cons.prems(1) n by cases auto
qed simp

lemma updates_increasing: "unat s + length ops \<le> 2 ^ 56 \<Longrightarrow> increasing (updates s ops)"
proof (induction ops arbitrary: s)
  case (Cons op ops)
  then have n: "unat (s + 1) = Suc (unat s)" by (intro unat_Suc_seq [of s "length ops"]) simp
  have "s < upd_seq e" if "e \<in> set (updates (s + 1) ops)" for e
    using updates_seqs [OF _ that] Cons.prems n by (simp add: word_less_nat_alt)
  with Cons n show ?case by simp
qed simp

lemma updates_ok:
  assumes "unat s + length ops \<le> 2 ^ 56" and "\<forall>op \<in> set ops. op_fits op \<and> length (op_key op) + 8 < 2 ^ 32"
    and "e \<in> set (updates s ops)"
  shows "upd_ok e"
proof -
  from assms(3) have "\<exists>op \<in> set ops. \<exists>s'. e = op_update s' op" by (induction ops arbitrary: s) auto
  then obtain op s' where "op \<in> set ops" "e = op_update s' op" by blast
  moreover have "upd_seq e \<le> kMaxSequenceNumber"
    using updates_seqs [OF assms(1,3)] assms(1) by (simp add: seq_small)
  ultimately show ?thesis using assms(2) by (cases op rule: wb_op.exhaust) (auto simp: upd_ok_def)
qed

text \<open>What the updates, in order, say of a key.\<close>

definition last_word :: "bytes \<Rightarrow> wb_op list \<Rightarrow> mt_answer" where
  "last_word u ops = (case find (\<lambda>op. op_key op = u) (rev ops) of
     None \<Rightarrow> Not_here | Some (Op_Put k v) \<Rightarrow> Has_value v | Some (Op_Delete k) \<Rightarrow> Is_deleted (Status_NotFound []))"

lemma last_word_snoc:
  "last_word u (ops @ [op]) = (if op_key op = u then answer (Some (op_update s op)) else last_word u ops)"
  by (cases op) (auto simp: last_word_def answer_def)

lemma newest_updates:
  "\<forall>e \<in> set (updates s ops). upd_seq e \<le> s' \<Longrightarrow> answer (newest u s' (updates s ops)) = last_word u ops"
proof (induction ops rule: rev_induct)
  case Nil
  then show ?case by (simp add: newest_def answer_def last_word_def)
next
  case (snoc op ops)
  then show ?case
    unfolding last_word_snoc [where s = "s + of_nat (length ops)"] by (simp add: updates_append newest_def)
qed

section \<open>Properties\<close>

text \<open>
  C29: after any sequence of \<open>Add\<close> calls with increasing sequence numbers, with keys and
  values whose lengths fit their prefixes, every call having returned, \<open>Get\<close> at a sequence number returns and
  answers with the newest update of the key that is not newer than that number: its value, or the deletion, and
  that the table knows nothing when there is none.
\<close>

theorem memtable_get_newest:
  assumes "\<forall>e \<in> set es. upd_ok e" and "increasing es"
    and "s \<le> kMaxSequenceNumber" and "length u + 8 < 2 ^ 32"
  shows "\<exists>mt lk. foldl add_update (Some (Inr (MemTable_make BytewiseComparator))) es = Some (Inr mt) \<and>
    LookupKey_make u s = Inr lk \<and> MemTable_Get mt lk = Some (Inr (answer (newest u s es)))"
proof -
  obtain mt where mt: "foldl add_update (Some (Inr (MemTable_make BytewiseComparator))) es = Some (Inr mt)"
    and holds: "mt_holds BytewiseComparator mt es"
    using add_updates [OF mt_holds_make, of es] assms by auto
  obtain lk where lk: "LookupKey_make u s = Inr lk" using LookupKey_make_Inr [OF assms(3)] by blast
  from bytewise.get_newest [OF holds assms(1-4) lk] mt lk show ?thesis by blast
qed

theorem memtable_get_newest_witness:
  "\<exists>mt lk. foldl add_update (Some (Inr (MemTable_make BytewiseComparator)))
      [([1], 3, kTypeValue, [7]), ([1], 5, kTypeDeletion, [])] = Some (Inr mt) \<and>
    LookupKey_make [1] 4 = Inr lk \<and> MemTable_Get mt lk = Some (Inr (Has_value [7]))"
proof -
  have "answer (newest [1] 4 [([1], 3, kTypeValue, [7]), ([1], 5, kTypeDeletion, [])]) = Has_value [7]"
    by (simp add: answer_def newest_def)
  then show ?thesis
    using memtable_get_newest [of "[([1], 3, kTypeValue, [7]), ([1], 5, kTypeDeletion, [])]" 4 "[1]"]
    by (simp add: upd_ok_def seq_small)
qed

text \<open>
  C30: a write batch inserted into an empty memtable under a sequence number is accepted, and a
  lookup that may see all of it answers what the batch's last update of the key says.
\<close>

theorem batch_then_get:
  assumes "\<forall>op \<in> set ops. op_fits op \<and> length (op_key op) + 8 < 2 ^ 32"
    and "unat seq + length ops \<le> 2 ^ 56" and "s \<le> kMaxSequenceNumber" and "unat seq + length ops \<le> unat s + 1"
    and "length u + 8 < 2 ^ 32"
  shows "\<exists>mt lk. InsertInto (SetSequence (foldl add_op WriteBatch_Clear ops) seq) (MemTable_make BytewiseComparator) =
      (Status_OK, Some (Inr mt)) \<and>
    LookupKey_make u s = Inr lk \<and> MemTable_Get mt lk = Some (Inr (last_word u ops))"
proof -
  have ok: "\<forall>e \<in> set (updates seq ops). upd_ok e" using updates_ok [OF assms(2,1)] by blast
  note inc = updates_increasing [OF assms(2)]
  obtain mt where mt: "foldl add_update (Some (Inr (MemTable_make BytewiseComparator))) (updates seq ops) = Some (Inr mt)"
    and holds: "mt_holds BytewiseComparator mt (updates seq ops)"
    using add_updates [OF mt_holds_make, of "updates seq ops"] ok inc by auto
  obtain lk where lk: "LookupKey_make u s = Inr lk" using LookupKey_make_Inr [OF assms(3)] by blast
  have "\<forall>e \<in> set (updates seq ops). upd_seq e \<le> s"
    using updates_seqs [OF assms(2)] assms(4) by (fastforce simp: word_le_nat_alt)
  from newest_updates [OF this] bytewise.get_newest [OF holds ok inc assms(3,5) lk]
  have "MemTable_Get mt lk = Some (Inr (last_word u ops))" by simp
  moreover have "InsertInto (SetSequence (foldl add_op WriteBatch_Clear ops) seq) (MemTable_make BytewiseComparator) =
      (Status_OK, Some (Inr mt))"
    using InsertInto_batch [of ops seq] assms(1) mt by (simp add: Clear_batch foldl_add_op)
  ultimately show ?thesis using lk by blast
qed

theorem batch_then_get_witness:
  "\<exists>mt lk. InsertInto (SetSequence (foldl add_op WriteBatch_Clear [Op_Put [1] [7], Op_Put [1] [8]]) 5)
      (MemTable_make BytewiseComparator) = (Status_OK, Some (Inr mt)) \<and>
    LookupKey_make [1] 6 = Inr lk \<and> MemTable_Get mt lk = Some (Inr (last_word [1] [Op_Put [1] [7], Op_Put [1] [8]]))"
  by (rule batch_then_get) (simp_all add: seq_small)

end
