(* ===== verification/Write_Log.thy ===== *)
theory Write_Log
  imports Db_Format Crc32c
begin

text \<open>
  LevelDB's write-ahead log (\<open>db/log_format.h\<close>, \<open>db/log_writer.cc\<close>, \<open>db/log_reader.cc\<close>): records are cut into
  fragments that never cross a 32 KiB block, each with a checksum, a length and a type. The files are
  parameters: what an \<open>Append\<close>, a \<open>Flush\<close> or a \<open>Read\<close> answers is part of the file's value, and an \<open>Append\<close> may
  fail after writing some other bytes. Checksums are those of \<^theory_text>\<open>crc32c\<close>, which \<open>crc32c::Extend\<close> computes.
\<close>

section \<open>Format\<close>

datatype RecordType = kZeroType | kFullType | kFirstType | kMiddleType | kLastType

fun type_num :: "RecordType \<Rightarrow> nat" where
  "type_num kZeroType = 0"
| "type_num kFullType = 1"
| "type_num kFirstType = 2"
| "type_num kMiddleType = 3"
| "type_num kLastType = 4"

definition kMaxRecordType :: nat where "kMaxRecordType = type_num kLastType"
definition kBlockSize :: nat where "kBlockSize = 32768"
definition kHeaderSize :: nat where "kHeaderSize = 4 + 2 + 1"
definition kEof :: u32 where "kEof = of_nat (kMaxRecordType + 1)"
definition kBadRecord :: u32 where "kBadRecord = of_nat (kMaxRecordType + 2)"

section \<open>The writer\<close>

record WritableFile =
  wf_data :: bytes
  wf_calls :: nat
  wf_append :: "nat \<Rightarrow> bytes \<Rightarrow> Status \<times> bytes"
  wf_flush :: "nat \<Rightarrow> Status"

definition File_Append :: "WritableFile \<Rightarrow> bytes \<Rightarrow> Status \<times> WritableFile" where
  "File_Append f data =
     (let (s, written) = wf_append f (wf_calls f) data in
      (s, f\<lparr>wf_data := wf_data f @ written, wf_calls := Suc (wf_calls f)\<rparr>))"

definition File_Flush :: "WritableFile \<Rightarrow> Status \<times> WritableFile" where
  "File_Flush f = (wf_flush f (wf_calls f), f\<lparr>wf_calls := Suc (wf_calls f)\<rparr>)"

record LogWriter =
  lw_dest :: WritableFile
  lw_block_offset :: nat
  lw_type_crc :: "u32 list"

definition InitTypeCrc :: "u32 list" where
  "InitTypeCrc = map (\<lambda>i. crc32c 0 [of_nat i]) [0..<kMaxRecordType + 1]"

definition LogWriter_make :: "WritableFile \<Rightarrow> LogWriter" where
  "LogWriter_make dest = \<lparr>lw_dest = dest, lw_block_offset = 0, lw_type_crc = InitTypeCrc\<rparr>"

definition LogWriter_make_at :: "WritableFile \<Rightarrow> nat \<Rightarrow> LogWriter" where
  "LogWriter_make_at dest dest_length =
     \<lparr>lw_dest = dest, lw_block_offset = dest_length mod kBlockSize, lw_type_crc = InitTypeCrc\<rparr>"

definition record_header :: "u32 \<Rightarrow> RecordType \<Rightarrow> nat \<Rightarrow> bytes" where
  "record_header crc t n = EncodeFixed32 crc @ [of_nat n, of_nat (n div 256), of_nat (type_num t)]"

definition EmitPhysicalRecord :: "LogWriter \<Rightarrow> RecordType \<Rightarrow> bytes \<Rightarrow> (Status \<times> LogWriter) result" where
  "EmitPhysicalRecord w t data =
     and_then (check (length data \<le> 0xffff) Assert_failed) (\<lambda>_.
     and_then (check (lw_block_offset w + kHeaderSize + length data \<le> kBlockSize) Assert_failed) (\<lambda>_.
     let crc = Mask (crc32c (lw_type_crc w ! type_num t) data);
         (s, dest) = File_Append (lw_dest w) (record_header crc t (length data));
         (s, dest) = (if Status_ok s then
             (case File_Append dest data of (s, dest) \<Rightarrow> if Status_ok s then File_Flush dest else (s, dest))
           else (s, dest)) in
     Inr (s, w\<lparr>lw_dest := dest, lw_block_offset := lw_block_offset w + kHeaderSize + length data\<rparr>)))"

definition fragment_type :: "bool \<Rightarrow> bool \<Rightarrow> RecordType" where
  "fragment_type is_begin is_end =
     (if is_begin \<and> is_end then kFullType else if is_begin then kFirstType
      else if is_end then kLastType else kMiddleType)"

text \<open>A block without room for a header is filled with zeros and left.\<close>

definition switch_block :: "LogWriter \<Rightarrow> LogWriter" where
  "switch_block w =
     (let leftover = kBlockSize - lw_block_offset w in
      if leftover < kHeaderSize then
        w\<lparr>lw_dest := (if leftover > 0 then snd (File_Append (lw_dest w) (replicate leftover 0)) else lw_dest w),
          lw_block_offset := 0\<rparr>
      else w)"

lemma EmitPhysicalRecord_offset:
  "EmitPhysicalRecord w t data = Inr (s, w') \<Longrightarrow> lw_block_offset w' = lw_block_offset w + kHeaderSize + length data"
  by (auto simp: EmitPhysicalRecord_def Let_def split: prod.splits)

definition at_header_end :: "LogWriter \<Rightarrow> nat" where
  "at_header_end w = (if lw_block_offset w + kHeaderSize = kBlockSize then 1 else 0)"

function AddRecord_loop :: "LogWriter \<Rightarrow> bool \<Rightarrow> bytes \<Rightarrow> (Status \<times> LogWriter) result" where
  "AddRecord_loop w is_begin left =
     (if kBlockSize < lw_block_offset w then Inl Assert_failed
      else
        let w = switch_block w;
            avail = kBlockSize - lw_block_offset w - kHeaderSize;
            fragment_length = (if length left < avail then length left else avail);
            is_end = (length left = fragment_length) in
        case EmitPhysicalRecord w (fragment_type is_begin is_end) (take fragment_length left) of
          Inl e \<Rightarrow> Inl e
        | Inr (s, w') \<Rightarrow>
            if Status_ok s \<and> drop fragment_length left \<noteq> [] then AddRecord_loop w' False (drop fragment_length left)
            else Inr (s, w'))"
  by auto
termination
proof (relation "measure (\<lambda>(w, _, left). 2 * length left + at_header_end w)", goal_cases)
  case (2 w is_begin left w1 avail fl is_end sw s w')
  have o: "lw_block_offset w' = lw_block_offset w1 + kHeaderSize + length (take fl left)"
    by (rule EmitPhysicalRecord_offset) (use 2 in auto)
  have fl: "fl = (if length left < avail then length left else avail)"
    and av: "avail = kBlockSize - lw_block_offset w1 - kHeaderSize" using 2 by auto
  have ne: "drop fl left \<noteq> []" using 2 by auto
  show ?case
  proof (cases "fl = 0")
    case True
    with ne fl av have "kBlockSize \<le> lw_block_offset w1 + kHeaderSize" by (auto split: if_splits)
    moreover have "lw_block_offset w1 + kHeaderSize \<le> kBlockSize"
      using 2 by (auto simp: switch_block_def Let_def kBlockSize_def kHeaderSize_def split: if_splits)
    ultimately have e: "lw_block_offset w1 + kHeaderSize = kBlockSize" by simp
    then have "lw_block_offset w + kHeaderSize = kBlockSize"
      using 2 by (auto simp: switch_block_def Let_def kBlockSize_def kHeaderSize_def split: if_splits)
    moreover have "lw_block_offset w' + kHeaderSize \<noteq> kBlockSize" using o e True by (simp add: kHeaderSize_def)
    ultimately show ?thesis using True by (simp add: at_header_end_def)
  next
    case False
    then show ?thesis using ne by (auto simp: at_header_end_def)
  qed
qed auto

declare AddRecord_loop.simps [simp del]

definition AddRecord :: "LogWriter \<Rightarrow> bytes \<Rightarrow> (Status \<times> LogWriter) result" where
  "AddRecord w data = AddRecord_loop w True data"

section \<open>The reader\<close>

record SequentialFile =
  sf_data :: bytes
  sf_calls :: nat
  sf_status :: "nat \<Rightarrow> Status"

text \<open>A read that succeeds returns what is there, up to \<open>n\<close> bytes.\<close>

definition File_Read :: "SequentialFile \<Rightarrow> nat \<Rightarrow> Status \<times> bytes \<times> SequentialFile" where
  "File_Read f n =
     (let s = sf_status f (sf_calls f); f = f\<lparr>sf_calls := Suc (sf_calls f)\<rparr> in
      if Status_ok s then (s, take n (sf_data f), f\<lparr>sf_data := drop n (sf_data f)\<rparr>) else (s, [], f))"

definition File_Skip :: "SequentialFile \<Rightarrow> u64 \<Rightarrow> Status \<times> SequentialFile" where
  "File_Skip f n =
     (let s = sf_status f (sf_calls f); f = f\<lparr>sf_calls := Suc (sf_calls f)\<rparr> in
      if Status_ok s then (s, f\<lparr>sf_data := drop (unat n) (sf_data f)\<rparr>) else (s, f))"

record LogReader =
  lr_file :: SequentialFile
  lr_checksum :: bool
  lr_buffer :: bytes
  lr_eof :: bool
  lr_last_record_offset :: u64
  lr_end_of_buffer_offset :: u64
  lr_initial_offset :: u64
  lr_resyncing :: bool
  lr_reporter :: "(u64 \<times> Status) list option"

definition LogReader_make :: "SequentialFile \<Rightarrow> bool \<Rightarrow> bool \<Rightarrow> u64 \<Rightarrow> LogReader" where
  "LogReader_make file has_reporter checksum initial_offset =
     \<lparr>lr_file = file, lr_checksum = checksum, lr_buffer = [], lr_eof = False, lr_last_record_offset = 0,
      lr_end_of_buffer_offset = 0, lr_initial_offset = initial_offset, lr_resyncing = (initial_offset > 0),
      lr_reporter = (if has_reporter then Some [] else None)\<rparr>"

definition ReportDrop :: "u64 \<Rightarrow> Status \<Rightarrow> LogReader \<Rightarrow> LogReader" where
  "ReportDrop n reason r =
     (case lr_reporter r of
        None \<Rightarrow> r
      | Some reports \<Rightarrow>
          if lr_end_of_buffer_offset r - of_nat (length (lr_buffer r)) - n \<ge> lr_initial_offset r
          then r\<lparr>lr_reporter := Some (reports @ [(n, reason)])\<rparr> else r)"

definition ReportCorruption :: "nat \<Rightarrow> string \<Rightarrow> LogReader \<Rightarrow> LogReader" where
  "ReportCorruption n reason r = ReportDrop (of_nat n) (Status_Corruption reason) r"

definition SkipToInitialBlock :: "LogReader \<Rightarrow> bool \<times> LogReader" where
  "SkipToInitialBlock r =
     (let offset_in_block = lr_initial_offset r mod of_nat kBlockSize;
          block_start_location = lr_initial_offset r - offset_in_block;
          block_start_location =
            (if offset_in_block > of_nat (kBlockSize - 6) then block_start_location + of_nat kBlockSize
             else block_start_location);
          r = r\<lparr>lr_end_of_buffer_offset := block_start_location\<rparr> in
      if block_start_location > 0 then
        let (skip_status, file) = File_Skip (lr_file r) block_start_location;
            r = r\<lparr>lr_file := file\<rparr> in
        if \<not> Status_ok skip_status then (False, ReportDrop block_start_location skip_status r) else (True, r)
      else (True, r))"

text \<open>Parsing a record at the front of a buffer of at least a header.\<close>

definition header_type :: "bytes \<Rightarrow> u32" where "header_type h = scast (h ! 6)"
definition header_length :: "bytes \<Rightarrow> u32" where
  "header_length h = (ucast (h ! 4) AND 0xff) OR push_bit 8 (ucast (h ! 5) AND 0xff)"

definition ParsePhysicalRecord :: "LogReader \<Rightarrow> u32 \<times> bytes \<times> LogReader" where
  "ParsePhysicalRecord r =
     (let header = lr_buffer r;
          type = header_type header;
          len = header_length header;
          drop_size = length (lr_buffer r) in
      if kHeaderSize + unat len > length (lr_buffer r) then
        let r = r\<lparr>lr_buffer := []\<rparr> in
        if \<not> lr_eof r then (kBadRecord, [], ReportCorruption drop_size ''bad record length'' r)
        else (kEof, [], r)
      else if type = of_nat (type_num kZeroType) \<and> len = 0 then (kBadRecord, [], r\<lparr>lr_buffer := []\<rparr>)
      else if lr_checksum r \<and>
        crc32c 0 (take (1 + unat len) (drop 6 header)) \<noteq> Unmask (DecodeFixed32 header)
      then (kBadRecord, [], ReportCorruption drop_size ''checksum mismatch'' (r\<lparr>lr_buffer := []\<rparr>))
      else
        let r = r\<lparr>lr_buffer := drop (kHeaderSize + unat len) (lr_buffer r)\<rparr> in
        if lr_end_of_buffer_offset r - of_nat (length (lr_buffer r)) - of_nat kHeaderSize - ucast len < lr_initial_offset r
        then (kBadRecord, [], r)
        else (type, take (unat len) (drop kHeaderSize header), r))"

function ReadPhysicalRecord :: "LogReader \<Rightarrow> u32 \<times> bytes \<times> LogReader" where
  "ReadPhysicalRecord r =
     (if length (lr_buffer r) < kHeaderSize then
        if \<not> lr_eof r then
          let r = r\<lparr>lr_buffer := []\<rparr>;
              (status, buffer, file) = File_Read (lr_file r) kBlockSize;
              r = r\<lparr>lr_buffer := buffer, lr_file := file,
                    lr_end_of_buffer_offset := lr_end_of_buffer_offset r + of_nat (length buffer)\<rparr> in
          if \<not> Status_ok status then
            (kEof, [], (ReportDrop (of_nat kBlockSize) status (r\<lparr>lr_buffer := []\<rparr>))\<lparr>lr_eof := True\<rparr>)
          else if length buffer < kBlockSize then ReadPhysicalRecord (r\<lparr>lr_eof := True\<rparr>)
          else ReadPhysicalRecord r
        else (kEof, [], r\<lparr>lr_buffer := []\<rparr>)
      else ParsePhysicalRecord r)"
  by auto
termination
  by (relation "measure (\<lambda>r. if length (lr_buffer r) < kHeaderSize \<and> \<not> lr_eof r then 1 else 0)")
    (auto simp: kHeaderSize_def kBlockSize_def)

declare ReadPhysicalRecord.simps [simp del]

definition unread :: "LogReader \<Rightarrow> nat" where
  "unread r = length (sf_data (lr_file r)) + length (lr_buffer r)"

lemma Report_fields [simp]:
  "unread (ReportDrop n s r) = unread r" "unread (ReportCorruption m t r) = unread r"
  "unread (r\<lparr>lr_eof := b\<rparr>) = unread r" "unread (r\<lparr>lr_resyncing := b\<rparr>) = unread r"
  by (auto simp: ReportDrop_def ReportCorruption_def unread_def split: option.splits)

lemma Report_buffer [simp]:
  "lr_buffer (ReportDrop n s r) = lr_buffer r" "lr_file (ReportDrop n s r) = lr_file r"
  "lr_buffer (ReportCorruption m t r) = lr_buffer r" "lr_file (ReportCorruption m t r) = lr_file r"
  by (auto simp: ReportDrop_def ReportCorruption_def split: option.splits)

lemma ParsePhysicalRecord_unread:
  "kHeaderSize \<le> length (lr_buffer r) \<Longrightarrow> unread (snd (snd (ParsePhysicalRecord r))) < unread r"
  by (auto simp: ParsePhysicalRecord_def Let_def unread_def kHeaderSize_def)

lemma ReadPhysicalRecord_loaded:
  "lr_eof r \<or> kHeaderSize \<le> length (lr_buffer r) \<Longrightarrow>
   ReadPhysicalRecord r = (if length (lr_buffer r) < kHeaderSize then (kEof, [], r\<lparr>lr_buffer := []\<rparr>) else ParsePhysicalRecord r)"
  by (subst ReadPhysicalRecord.simps) auto

lemma ReadPhysicalRecord_load:
  assumes "length (lr_buffer r) < kHeaderSize" and "\<not> lr_eof r" and "File_Read (lr_file r) kBlockSize = (st, buf, f)"
    and "Status_ok st"
  shows "ReadPhysicalRecord r = ReadPhysicalRecord (r\<lparr>lr_buffer := buf, lr_file := f,
    lr_end_of_buffer_offset := lr_end_of_buffer_offset r + of_nat (length buf), lr_eof := length buf < kBlockSize\<rparr>)"
  using assms by (subst ReadPhysicalRecord.simps) (cases r; auto simp: Let_def)

lemma ReadPhysicalRecord_unread:
  assumes "ReadPhysicalRecord r = (t, fragment, r')" and "t \<noteq> kEof"
  shows "unread r' < unread r"
proof -
  have loaded: "unread r' < unread r" if "lr_eof r \<or> kHeaderSize \<le> length (lr_buffer r)"
    "ReadPhysicalRecord r = (t, fragment, r')" for r
    using that(2) assms(2) ParsePhysicalRecord_unread [of r]
    unfolding ReadPhysicalRecord_loaded [OF that(1)] by (auto split: if_splits)
  show ?thesis
  proof (cases "lr_eof r \<or> kHeaderSize \<le> length (lr_buffer r)")
    case True
    then show ?thesis using assms(1) by (rule loaded)
  next
    case False
    obtain st buf f where rd: "File_Read (lr_file r) kBlockSize = (st, buf, f)" by (metis prod_cases3)
    let ?r = "r\<lparr>lr_buffer := buf, lr_file := f, lr_end_of_buffer_offset := lr_end_of_buffer_offset r + of_nat (length buf),
      lr_eof := length buf < kBlockSize\<rparr>"
    have ok: "Status_ok st" using assms False rd
      by (subst (asm) ReadPhysicalRecord.simps) (auto simp: Let_def split: if_splits)
    have "unread ?r \<le> unread r" using rd ok by (auto simp: File_Read_def Let_def unread_def split: if_splits)
    moreover have "unread r' < unread ?r"
    proof (rule loaded)
      show "lr_eof ?r \<or> kHeaderSize \<le> length (lr_buffer ?r)" by (auto simp: kHeaderSize_def kBlockSize_def)
      show "ReadPhysicalRecord ?r = (t, fragment, r')"
        using ReadPhysicalRecord_load [of r, OF _ _ rd ok] False assms(1) by simp
    qed
    ultimately show ?thesis by simp
  qed
qed

text \<open>
  The loop of \<open>ReadRecord\<close>: \<open>prospective\<close> is the offset of the logical record being assembled in \<open>scratch\<close>.
\<close>

function ReadRecord_loop :: "LogReader \<Rightarrow> bool \<Rightarrow> u64 \<Rightarrow> bytes \<Rightarrow> bytes option \<times> LogReader" where
  "ReadRecord_loop r in_fragmented_record prospective scratch =
     (case ReadPhysicalRecord r of (record_type, fragment, r) \<Rightarrow>
      let offset = lr_end_of_buffer_offset r - of_nat (length (lr_buffer r)) - of_nat kHeaderSize - of_nat (length fragment) in
      if record_type = kEof then (None, if lr_resyncing r then r\<lparr>lr_resyncing := False\<rparr> else r)
      else if lr_resyncing r \<and> record_type = of_nat (type_num kMiddleType) then
        ReadRecord_loop r in_fragmented_record prospective scratch
      else if lr_resyncing r \<and> record_type = of_nat (type_num kLastType) then
        ReadRecord_loop (r\<lparr>lr_resyncing := False\<rparr>) in_fragmented_record prospective scratch
      else
        let r = (if lr_resyncing r then r\<lparr>lr_resyncing := False\<rparr> else r) in
        if record_type = of_nat (type_num kFullType) then
          let r = (if in_fragmented_record \<and> scratch \<noteq> []
                   then ReportCorruption (length scratch) ''partial record without end(1)'' r else r) in
          (Some fragment, r\<lparr>lr_last_record_offset := offset\<rparr>)
        else if record_type = of_nat (type_num kFirstType) then
          let r = (if in_fragmented_record \<and> scratch \<noteq> []
                   then ReportCorruption (length scratch) ''partial record without end(2)'' r else r) in
          ReadRecord_loop r True offset fragment
        else if record_type = of_nat (type_num kMiddleType) then
          if \<not> in_fragmented_record then
            ReadRecord_loop (ReportCorruption (length fragment) ''missing start of fragmented record(1)'' r)
              in_fragmented_record prospective scratch
          else ReadRecord_loop r in_fragmented_record prospective (scratch @ fragment)
        else if record_type = of_nat (type_num kLastType) then
          if \<not> in_fragmented_record then
            ReadRecord_loop (ReportCorruption (length fragment) ''missing start of fragmented record(2)'' r)
              in_fragmented_record prospective scratch
          else (Some (scratch @ fragment), r\<lparr>lr_last_record_offset := prospective\<rparr>)
        else if record_type = kBadRecord then
          if in_fragmented_record then
            ReadRecord_loop (ReportCorruption (length scratch) ''error in middle of record'' r) False prospective []
          else ReadRecord_loop r in_fragmented_record prospective scratch
        else
          ReadRecord_loop (ReportCorruption (length fragment + (if in_fragmented_record then length scratch else 0))
              ''unknown record type'' r) False prospective [])"
  by auto
termination
  by (relation "measure (\<lambda>(r, _). unread r)") (auto dest!: ReadPhysicalRecord_unread [OF sym] split: if_splits)

declare ReadRecord_loop.simps [simp del]

definition ReadRecord :: "LogReader \<Rightarrow> bytes option \<times> LogReader" where
  "ReadRecord r =
     (if lr_last_record_offset r < lr_initial_offset r then
        case SkipToInitialBlock r of (ok, r) \<Rightarrow> if \<not> ok then (None, r) else ReadRecord_loop r False 0 []
      else ReadRecord_loop r False 0 [])"

end
