(* ===== verification/Log_Recovery.thy ===== *)
theory Log_Recovery
  imports Write_Log
begin

text \<open>
  What the log reader recovers from what the log writer wrote: over files that do not fail, every record added
  comes back, whole, in order, and without a report of corruption. The proof follows the reader's position in
  the file: \<open>reads_at\<close> relates a reader to the bytes it has not consumed yet, and each fragment that the writer
  emits moves that position past it.
\<close>

lemma Status_ok_OK [simp]: "Status_ok Status_OK"
  by (simp add: status_defs)

section \<open>One physical record\<close>

definition phys :: "RecordType \<Rightarrow> bytes \<Rightarrow> bytes" where
  "phys t data =
     record_header (Mask (crc32c (crc32c 0 [of_nat (type_num t)]) data)) t (length data) @ data"

lemma length_phys [simp]: "length (phys t data) = 7 + length data"
  by (simp add: phys_def record_header_def)

lemma crc32c_append: "crc32c (crc32c c a) b = crc32c c (a @ b)"
  by (simp add: crc32c_def xor.assoc)

lemma header_length_record:
  assumes "n < 2 ^ 16"
  shows "header_length (record_header crc t n @ rest) = of_nat n"
proof (rule bit_word_eqI)
  fix k assume k: "k < LENGTH(32)"
  have high: "\<not> bit n k" if "16 \<le> k"
    using assms that by (metis bit_take_bit_iff linorder_not_le take_bit_nat_eq_self)
  have d: "n div 256 = drop_bit 8 n" by (simp add: drop_bit_eq_div)
  have m: "(0xff :: u32) = mask 8" by (simp add: mask_eq_exp_minus_1)
  have h: "header_length (record_header crc t n @ rest) =
      (ucast (of_nat n :: byte) AND mask 8) OR push_bit 8 (ucast (of_nat (drop_bit 8 n) :: byte) AND mask 8)"
    unfolding m [symmetric] d [symmetric]
    by (simp add: header_length_def record_header_def EncodeFixed32_def)
  consider "k < 8" | "8 \<le> k" "k < 16" | "16 \<le> k" by linarith
  then show "bit (header_length (record_header crc t n @ rest)) k = bit (of_nat n :: u32) k"
    unfolding h using k high by cases (auto simp: bit_simps)
qed

lemma header_type_record: "header_type (record_header crc t n @ rest) = of_nat (type_num t)"
  by (cases t) (simp_all add: header_type_def record_header_def EncodeFixed32_def)

lemma ParsePhysicalRecord_phys:
  assumes "lr_buffer r = phys t data @ rest" and "length data < 2 ^ 16" and "t \<noteq> kZeroType" and "lr_initial_offset r = 0"
  shows "ParsePhysicalRecord r = (of_nat (type_num t), data, r\<lparr>lr_buffer := rest\<rparr>)"
proof -
  let ?crc = "Mask (crc32c (crc32c 0 [of_nat (type_num t)]) data)"
  have b: "lr_buffer r = record_header ?crc t (length data) @ data @ rest" using assms(1) by (simp add: phys_def)
  have len: "header_length (lr_buffer r) = of_nat (length data)" unfolding b by (rule header_length_record [OF assms(2)])
  have type: "header_type (lr_buffer r) = of_nat (type_num t)" unfolding b by (rule header_type_record)
  have u: "unat (of_nat (length data) :: u32) = length data"
    using assms(2) by (simp add: unat_of_nat take_bit_nat_eq_self)
  have nz: "(of_nat (type_num t) :: u32) \<noteq> of_nat (type_num kZeroType)" using assms(3) by (cases t) simp_all
  have crc: "crc32c 0 (take (1 + length data) (drop 6 (lr_buffer r))) = Unmask (DecodeFixed32 (lr_buffer r))"
    unfolding b by (simp add: record_header_def crc32c_append)
  have "drop (kHeaderSize + length data) (lr_buffer r) = rest"
  proof -
    have "kHeaderSize + length data = length (record_header ?crc t (length data) @ data)"
      by (simp add: kHeaderSize_def record_header_def)
    then show ?thesis unfolding b by (metis append.assoc append_eq_conv_conj)
  qed
  moreover have "take (length data) (drop kHeaderSize (lr_buffer r)) = data"
    "\<not> kHeaderSize + length data > length (lr_buffer r)"
    unfolding b by (simp_all add: record_header_def kHeaderSize_def)
  ultimately show ?thesis
    using nz crc assms(4) unfolding ParsePhysicalRecord_def Let_def len type u by simp
qed

section \<open>The reader's position\<close>

lemma take_prefix: "take (length xs + k) (xs @ ys) = xs @ take k ys"
  by simp

definition reads_at :: "bytes \<Rightarrow> LogReader \<Rightarrow> nat \<Rightarrow> bool" where
  "reads_at F r pos \<longleftrightarrow> lr_initial_offset r = 0 \<and> \<not> lr_resyncing r \<and> (\<forall>k. Status_ok (sf_status (lr_file r) k)) \<and>
     (\<exists>E. pos \<le> E \<and> E \<le> length F \<and> E \<le> (pos div kBlockSize + 1) * kBlockSize \<and>
        lr_buffer r = take (E - pos) (drop pos F) \<and> sf_data (lr_file r) = drop E F \<and>
        (if lr_eof r then E = length F else kBlockSize dvd E))"

lemma block_end:
  assumes "kBlockSize dvd E" and "pos < E"
  shows "(pos div kBlockSize + 1) * kBlockSize \<le> E"
proof -
  from assms(1) obtain k where E: "E = k * kBlockSize" by (metis dvdE mult.commute)
  with assms(2) have "pos div kBlockSize < k" by (simp add: less_mult_imp_div_less)
  then show ?thesis unfolding E by (intro mult_le_mono1) simp
qed

lemma block_room: "(pos div kBlockSize + 1) * kBlockSize = pos + (kBlockSize - pos mod kBlockSize)"
proof -
  have "pos mod kBlockSize < kBlockSize" by (simp add: kBlockSize_def)
  moreover have "pos div kBlockSize * kBlockSize + pos mod kBlockSize = pos" by (rule div_mult_mod_eq)
  ultimately show ?thesis by (simp only: add_mult_distrib mult_1_left)
qed

lemma ReadPhysicalRecord_parse:
  "kHeaderSize \<le> length (lr_buffer r) \<Longrightarrow> ReadPhysicalRecord r = ParsePhysicalRecord r"
  by (simp add: ReadPhysicalRecord_loaded)

lemma reads_load:
  assumes "reads_at F r pos" and "pos + 7 + n \<le> length F" and "pos mod kBlockSize + 7 + n \<le> kBlockSize"
  shows "\<exists>r'. ReadPhysicalRecord r = ParsePhysicalRecord r' \<and> reads_at F r' pos \<and> 7 + n \<le> length (lr_buffer r') \<and>
    lr_reporter r' = lr_reporter r"
proof -
  from assms(1) obtain E where E: "pos \<le> E" "E \<le> length F" "E \<le> (pos div kBlockSize + 1) * kBlockSize"
    and buf: "lr_buffer r = take (E - pos) (drop pos F)" and src: "sf_data (lr_file r) = drop E F"
    and eof: "if lr_eof r then E = length F else kBlockSize dvd E"
    and good: "lr_initial_offset r = 0" "\<not> lr_resyncing r" "\<forall>k. Status_ok (sf_status (lr_file r) k)"
    by (auto simp: reads_at_def)
  have len: "length (lr_buffer r) = E - pos" using buf E by simp
  have far: "pos + 7 + n \<le> E" if "pos < E"
  proof (cases "lr_eof r")
    case False
    with eof block_end [OF _ that] have "(pos div kBlockSize + 1) * kBlockSize \<le> E" by simp
    with assms(3) show ?thesis unfolding block_room by linarith
  qed (use eof assms(2) in simp)
  show ?thesis
  proof (cases "pos < E")
    case True
    with far len have "7 + n \<le> length (lr_buffer r)" by linarith
    moreover from this have "ReadPhysicalRecord r = ParsePhysicalRecord r"
      by (simp add: ReadPhysicalRecord_loaded kHeaderSize_def)
    ultimately show ?thesis using assms(1) by blast
  next
    case False
    then have pE: "E = pos" using E by simp
    with eof assms(2) have ne: "\<not> lr_eof r" by auto
    with eof pE have dvd: "kBlockSize dvd pos" by simp
    let ?buf = "take kBlockSize (drop pos F)"
    let ?f = "(lr_file r)\<lparr>sf_calls := Suc (sf_calls (lr_file r)), sf_data := drop kBlockSize (drop pos F)\<rparr>"
    let ?r = "r\<lparr>lr_buffer := ?buf, lr_file := ?f,
      lr_end_of_buffer_offset := lr_end_of_buffer_offset r + of_nat (length ?buf), lr_eof := length ?buf < kBlockSize\<rparr>"
    have rd: "File_Read (lr_file r) kBlockSize = (sf_status (lr_file r) (sf_calls (lr_file r)), ?buf, ?f)"
      using good(3) src pE by (simp add: File_Read_def Let_def)
    have "ReadPhysicalRecord r = ReadPhysicalRecord ?r"
      by (rule ReadPhysicalRecord_load [OF _ ne rd]) (use len pE good(3) in \<open>simp_all add: kHeaderSize_def\<close>)
    moreover have big: "7 + n \<le> length ?buf" using assms(2,3) dvd by simp
    moreover have "ReadPhysicalRecord ?r = ParsePhysicalRecord ?r"
      by (rule ReadPhysicalRecord_parse) (use big in \<open>simp add: kHeaderSize_def\<close>)
    ultimately have "ReadPhysicalRecord r = ParsePhysicalRecord ?r" by simp
    moreover have "reads_at F ?r pos"
    proof -
      let ?E = "pos + length ?buf"
      have "?E \<le> length F" "?E \<le> (pos div kBlockSize + 1) * kBlockSize"
        using assms(2) dvd unfolding block_room by auto
      moreover have "if length ?buf < kBlockSize then ?E = length F else kBlockSize dvd ?E"
        using assms(2) dvd by auto
      moreover have "take (?E - pos) (drop pos F) = ?buf" by (simp add: min_def)
      moreover have "drop kBlockSize (drop pos F) = drop ?E F" by (simp add: add.commute min_def)
      ultimately show ?thesis unfolding reads_at_def using good by (intro conjI exI [of _ ?E]) simp_all
    qed
    ultimately show ?thesis using big by (intro exI [of _ ?r]) simp
  qed
qed

lemma reads_record:
  assumes "reads_at F r pos" and "pos mod kBlockSize + 7 + length data \<le> kBlockSize" and "t \<noteq> kZeroType"
    and "F = X @ phys t data @ Z" and "pos = length X"
  shows "\<exists>r'. ReadPhysicalRecord r = (of_nat (type_num t), data, r') \<and> reads_at F r' (pos + 7 + length data) \<and>
    lr_reporter r' = lr_reporter r"
proof -
  let ?n = "length data"
  have F: "pos + 7 + ?n \<le> length F" using assms(4,5) by simp
  from reads_load [OF assms(1) F assms(2)] obtain r' where rp: "ReadPhysicalRecord r = ParsePhysicalRecord r'"
    and at: "reads_at F r' pos" and big: "7 + ?n \<le> length (lr_buffer r')" and rep: "lr_reporter r' = lr_reporter r"
    by blast
  from at obtain E where E: "pos \<le> E" "E \<le> length F" "E \<le> (pos div kBlockSize + 1) * kBlockSize"
    and buf: "lr_buffer r' = take (E - pos) (drop pos F)" and src: "sf_data (lr_file r') = drop E F"
    and eof: "if lr_eof r' then E = length F else kBlockSize dvd E"
    and good: "lr_initial_offset r' = 0" "\<not> lr_resyncing r'" "\<forall>k. Status_ok (sf_status (lr_file r') k)"
    by (auto simp: reads_at_def)
  have far: "pos + 7 + ?n \<le> E" using big buf E by simp
  let ?p = "pos + 7 + ?n"
  have d: "drop pos F = phys t data @ drop ?p F" using assms(4,5) by (simp add: add.assoc)
  have e: "E - pos = length (phys t data) + (E - ?p)" using far by simp
  have "lr_buffer r' = phys t data @ take (E - ?p) (drop ?p F)"
    unfolding buf d e by (rule take_prefix)
  then have "ParsePhysicalRecord r' = (of_nat (type_num t), data, r'\<lparr>lr_buffer := take (E - ?p) (drop ?p F)\<rparr>)"
    by (rule ParsePhysicalRecord_phys) (use assms(2,3) good in \<open>simp_all add: kBlockSize_def\<close>)
  moreover have "reads_at F (r'\<lparr>lr_buffer := take (E - ?p) (drop ?p F)\<rparr>) ?p"
  proof -
    have "(pos div kBlockSize + 1) * kBlockSize \<le> (?p div kBlockSize + 1) * kBlockSize"
      by (intro mult_le_mono1 add_le_mono1 div_le_mono) simp
    then have "E \<le> (?p div kBlockSize + 1) * kBlockSize" using E(3) by linarith
    then show ?thesis unfolding reads_at_def using good E(2) far src eof by (intro conjI exI [of _ E]) simp_all
  qed
  ultimately show ?thesis using rp rep by auto
qed

lemma reads_trailer:
  assumes "reads_at F r pos" and "kBlockSize - pos mod kBlockSize < 7"
    and "pos + (kBlockSize - pos mod kBlockSize) < length F"
  shows "\<exists>r'. ReadPhysicalRecord r = ReadPhysicalRecord r' \<and>
    reads_at F r' (pos + (kBlockSize - pos mod kBlockSize)) \<and> lr_reporter r' = lr_reporter r"
proof -
  let ?p = "pos + (kBlockSize - pos mod kBlockSize)"
  from assms(1) obtain E where E: "pos \<le> E" "E \<le> length F" "E \<le> (pos div kBlockSize + 1) * kBlockSize"
    and buf: "lr_buffer r = take (E - pos) (drop pos F)" and src: "sf_data (lr_file r) = drop E F"
    and eof: "if lr_eof r then E = length F else kBlockSize dvd E"
    and good: "lr_initial_offset r = 0" "\<not> lr_resyncing r" "\<forall>k. Status_ok (sf_status (lr_file r) k)"
    by (auto simp: reads_at_def)
  have ne: "\<not> lr_eof r" using eof E(3) assms(3) unfolding block_room by auto
  then have dvd: "kBlockSize dvd E" using eof by simp
  have "pos \<noteq> E"
  proof
    assume "pos = E"
    then have "pos mod kBlockSize = 0" using dvd by auto
    with assms(2) show False by (simp add: kBlockSize_def)
  qed
  then have Ep: "E = ?p" using block_end [OF dvd, of pos] E unfolding block_room by simp
  let ?r = "r\<lparr>lr_buffer := []\<rparr>"
  have "length (lr_buffer r) < kHeaderSize" using buf Ep assms(2) by (simp add: kHeaderSize_def)
  then have "ReadPhysicalRecord r = ReadPhysicalRecord ?r"
    using ne by (subst (1 2) ReadPhysicalRecord.simps) (simp add: kHeaderSize_def)
  moreover have "reads_at F ?r ?p"
    unfolding reads_at_def using good src ne dvd E(2) Ep by (intro conjI exI [of _ E]) (auto simp: kBlockSize_def)
  ultimately show ?thesis by auto
qed

lemma reads_eof:
  assumes "reads_at F r (length F)"
  shows "\<exists>r'. ReadPhysicalRecord r = (kEof, [], r') \<and> lr_reporter r' = lr_reporter r \<and> \<not> lr_resyncing r'"
proof -
  from assms have buf: "lr_buffer r = []" and src: "sf_data (lr_file r) = []"
    and good: "\<not> lr_resyncing r" "\<forall>k. Status_ok (sf_status (lr_file r) k)"
    by (auto simp: reads_at_def)
  show ?thesis
  proof (cases "lr_eof r")
    case True
    then show ?thesis using buf good by (simp add: ReadPhysicalRecord_loaded kHeaderSize_def)
  next
    case False
    have rd: "File_Read (lr_file r) kBlockSize = (sf_status (lr_file r) (sf_calls (lr_file r)), [],
        (lr_file r)\<lparr>sf_calls := Suc (sf_calls (lr_file r)), sf_data := []\<rparr>)"
      using good(2) src by (simp add: File_Read_def Let_def)
    then show ?thesis
      using ReadPhysicalRecord_load [OF _ False rd] buf good
      by (simp add: ReadPhysicalRecord_loaded kHeaderSize_def kBlockSize_def)
  qed
qed

section \<open>The writer over a file that works\<close>

definition file_works :: "WritableFile \<Rightarrow> bool" where
  "file_works f \<longleftrightarrow> (\<forall>k d. wf_append f k d = (Status_OK, d) \<and> wf_flush f k = Status_OK)"

abbreviation written :: "LogWriter \<Rightarrow> bytes" where "written w \<equiv> wf_data (lw_dest w)"

definition writer_ok :: "LogWriter \<Rightarrow> bool" where
  "writer_ok w \<longleftrightarrow> file_works (lw_dest w) \<and> lw_type_crc w = InitTypeCrc \<and> lw_block_offset w \<le> kBlockSize \<and>
     lw_block_offset w mod kBlockSize = length (written w) mod kBlockSize"

lemma File_Append_works:
  "file_works f \<Longrightarrow> File_Append f d = (Status_OK, f\<lparr>wf_data := wf_data f @ d, wf_calls := Suc (wf_calls f)\<rparr>)"
  by (simp add: file_works_def File_Append_def)

lemma file_works_update [simp]: "file_works (f\<lparr>wf_data := d, wf_calls := n\<rparr>) = file_works f"
  by (simp add: file_works_def)

lemma InitTypeCrc_nth: "InitTypeCrc ! type_num t = crc32c 0 [of_nat (type_num t)]"
  by (cases t) (simp_all add: InitTypeCrc_def kMaxRecordType_def del: upt_Suc)

lemma Emit_works:
  assumes "file_works (lw_dest w)" and "lw_type_crc w = InitTypeCrc"
    and "lw_block_offset w + 7 + length data \<le> kBlockSize"
  shows "\<exists>w'. EmitPhysicalRecord w t data = Inr (Status_OK, w') \<and> written w' = written w @ phys t data \<and>
    file_works (lw_dest w') \<and> lw_type_crc w' = InitTypeCrc \<and> lw_block_offset w' = lw_block_offset w + 7 + length data"
proof -
  have "length data \<le> 0xffff" using assms(3) by (simp add: kBlockSize_def)
  moreover have "File_Flush f = (Status_OK, f\<lparr>wf_calls := Suc (wf_calls f)\<rparr>)" if "file_works f" for f
    using that by (simp add: File_Flush_def file_works_def)
  ultimately show ?thesis
    using assms by (simp add: EmitPhysicalRecord_def Let_def File_Append_works kHeaderSize_def status_defs
        InitTypeCrc_nth phys_def)
qed

lemma switch_works:
  assumes "writer_ok w"
  shows "\<exists>tr. written (switch_block w) = written w @ tr \<and> file_works (lw_dest (switch_block w)) \<and>
    lw_type_crc (switch_block w) = InitTypeCrc \<and> lw_block_offset (switch_block w) + 7 \<le> kBlockSize \<and>
    lw_block_offset (switch_block w) = length (written (switch_block w)) mod kBlockSize \<and>
    (tr = [] \<or> length tr = kBlockSize - length (written w) mod kBlockSize \<and> length tr < 7)"
proof -
  let ?o = "lw_block_offset w" and ?m = "length (written w) mod kBlockSize"
  have ok: "file_works (lw_dest w)" "lw_type_crc w = InitTypeCrc" "?o \<le> kBlockSize" "?o mod kBlockSize = ?m"
    using assms by (auto simp: writer_ok_def)
  consider (room) "?o + 7 \<le> kBlockSize" | (full) "?o = kBlockSize" | (trailer) "kBlockSize < ?o + 7" "?o < kBlockSize"
    using ok(3) by linarith
  then show ?thesis
  proof cases
    case room
    then have "switch_block w = w" by (simp add: switch_block_def Let_def kHeaderSize_def)
    with room ok show ?thesis by (simp add: kBlockSize_def)
  next
    case full
    then have "switch_block w = w\<lparr>lw_dest := lw_dest w, lw_block_offset := 0\<rparr>"
      by (simp add: switch_block_def Let_def kHeaderSize_def)
    with full ok show ?thesis by (simp add: kBlockSize_def)
  next
    case trailer
    let ?tr = "replicate (kBlockSize - ?o) (0 :: byte)"
    have m: "?o = ?m" using ok(4) trailer(2) by simp
    have "written (switch_block w) = written w @ ?tr" "file_works (lw_dest (switch_block w))"
      "lw_type_crc (switch_block w) = InitTypeCrc" "lw_block_offset (switch_block w) = 0"
      using trailer ok by (simp_all add: switch_block_def Let_def kHeaderSize_def File_Append_works)
    moreover have "(length (written w) + (kBlockSize - ?o)) mod kBlockSize = 0"
    proof -
      have "length (written w) + (kBlockSize - ?m) = (length (written w) div kBlockSize + 1) * kBlockSize"
        by (rule block_room [symmetric])
      then show ?thesis unfolding m by simp
    qed
    moreover have "kBlockSize - ?o < 7" using trailer by linarith
    ultimately show ?thesis using trailer m by (intro exI [of _ ?tr]) (simp add: kBlockSize_def)
  qed
qed

lemma reads_fragment:
  assumes at: "reads_at F r (length (written w))" and ok: "writer_ok w" and F: "F = written (switch_block w) @ phys t data @ Z"
    and room: "lw_block_offset (switch_block w) + 7 + length data \<le> kBlockSize" and t: "t \<noteq> kZeroType"
  shows "\<exists>r'. ReadPhysicalRecord r = (of_nat (type_num t), data, r') \<and>
    reads_at F r' (length (written (switch_block w)) + 7 + length data) \<and> lr_reporter r' = lr_reporter r"
proof -
  from switch_works [OF ok] obtain tr where tr: "written (switch_block w) = written w @ tr"
    and off: "lw_block_offset (switch_block w) = length (written (switch_block w)) mod kBlockSize"
    and cases_tr: "tr = [] \<or> length tr = kBlockSize - length (written w) mod kBlockSize \<and> length tr < 7" by blast
  have "\<exists>r1. ReadPhysicalRecord r = ReadPhysicalRecord r1 \<and> reads_at F r1 (length (written (switch_block w))) \<and>
      lr_reporter r1 = lr_reporter r"
  proof (cases "tr = []")
    case True
    then show ?thesis using at tr by auto
  next
    case False
    with cases_tr have l: "length tr = kBlockSize - length (written w) mod kBlockSize" "length tr < 7" by auto
    show ?thesis
      using reads_trailer [OF at] l F by (simp add: tr)
  qed
  then obtain r1 where r1: "ReadPhysicalRecord r = ReadPhysicalRecord r1"
    "reads_at F r1 (length (written (switch_block w)))" "lr_reporter r1 = lr_reporter r" by blast
  from reads_record [OF r1(2) _ t F refl] room r1 show ?thesis by (simp add: off)
qed

section \<open>Whole records\<close>

lemma Emit_after_switch:
  assumes "writer_ok w" and "lw_block_offset (switch_block w) + 7 + length data \<le> kBlockSize"
  shows "\<exists>w'. EmitPhysicalRecord (switch_block w) t data = Inr (Status_OK, w') \<and> writer_ok w' \<and>
    written w' = written (switch_block w) @ phys t data"
proof -
  let ?s = "switch_block w"
  have s: "file_works (lw_dest ?s)" "lw_type_crc ?s = InitTypeCrc" "lw_block_offset ?s = length (written ?s) mod kBlockSize"
    using switch_works [OF assms(1)] by auto
  from Emit_works [OF s(1,2) assms(2)] obtain w' where w': "EmitPhysicalRecord ?s t data = Inr (Status_OK, w')"
    "written w' = written ?s @ phys t data" "file_works (lw_dest w')" "lw_type_crc w' = InitTypeCrc"
    "lw_block_offset w' = lw_block_offset ?s + 7 + length data" by blast
  have "lw_block_offset w' mod kBlockSize = length (written w') mod kBlockSize"
    unfolding w'(2,5) s(3) by (simp add: mod_add_left_eq add.assoc)
  then show ?thesis using w' assms(2) by (auto simp: writer_ok_def)
qed

definition returns_record :: "LogWriter \<Rightarrow> bytes \<Rightarrow> LogWriter \<Rightarrow> bool \<Rightarrow> bytes \<Rightarrow> bool" where
  "returns_record w F w' is_begin data \<longleftrightarrow>
     (\<forall>r p scratch. reads_at F r (length (written w)) \<longrightarrow>
        (\<exists>r'. ReadRecord_loop r (\<not> is_begin) p scratch = (Some ((if is_begin then [] else scratch) @ data), r') \<and>
           reads_at F r' (length (written w')) \<and> lr_reporter r' = lr_reporter r))"

lemma type_nums_differ:
  "(of_nat (type_num t) :: u32) = of_nat (type_num t') \<longleftrightarrow> t = t'" "(of_nat (type_num t) :: u32) \<noteq> kEof"
  by (cases t; cases t'; simp) (cases t; simp add: kEof_def kMaxRecordType_def)

lemma reads_at_last: "reads_at F (r\<lparr>lr_last_record_offset := x\<rparr>) pos = reads_at F r pos"
  by (simp add: reads_at_def)

lemma ReadRecord_loop_fragment:
  assumes "ReadPhysicalRecord r = (of_nat (type_num t), data, r')" and "\<not> lr_resyncing r'"
    and "t = fragment_type is_begin is_end"
  shows "\<exists>x y. ReadRecord_loop r (\<not> is_begin) p scratch =
    (if is_end then (Some ((if is_begin then [] else scratch) @ data), r'\<lparr>lr_last_record_offset := x\<rparr>)
     else ReadRecord_loop r' True y ((if is_begin then [] else scratch) @ data))"
  using assms
  by (cases is_begin; cases is_end; subst ReadRecord_loop.simps)
    (auto simp: fragment_type_def type_nums_differ Let_def simp del: type_num.simps)

lemma reads_at_resync: "reads_at F r pos \<Longrightarrow> \<not> lr_resyncing r"
  by (simp add: reads_at_def)

lemma AddRecord_loop_returns:
  assumes "writer_ok w"
  shows "\<exists>w' suf. AddRecord_loop w is_begin left = Inr (Status_OK, w') \<and> writer_ok w' \<and> written w' = written w @ suf \<and>
    (\<forall>Z. returns_record w (written w' @ Z) w' is_begin left)"
  using assms
proof (induction w is_begin left rule: AddRecord_loop.induct)
  case (1 w is_begin left)
  let ?s = "switch_block w"
  let ?avail = "kBlockSize - lw_block_offset ?s - kHeaderSize"
  let ?n = "if length left < ?avail then length left else ?avail"
  let ?data = "take ?n left" and ?rest = "drop ?n left"
  let ?t = "fragment_type is_begin (length left = ?n)"
  have off: "\<not> kBlockSize < lw_block_offset w" using 1(2) by (auto simp: writer_ok_def)
  obtain tr where tr: "written ?s = written w @ tr" and fit: "lw_block_offset ?s + 7 \<le> kBlockSize"
    using switch_works [OF 1(2)] by blast
  have "length ?data \<le> ?avail" by simp
  then have room: "lw_block_offset ?s + 7 + length ?data \<le> kBlockSize" using fit unfolding kHeaderSize_def by linarith
  obtain w1 where emit: "EmitPhysicalRecord ?s ?t ?data = Inr (Status_OK, w1)" and ok1: "writer_ok w1"
    and wr1: "written w1 = written ?s @ phys ?t ?data" using Emit_after_switch [OF 1(2) room] by blast
  have tz: "?t \<noteq> kZeroType" by (simp add: fragment_type_def)
  have len1: "length (written w1) = length (written ?s) + 7 + length ?data" by (simp add: wr1)
  have n_end: "length left = ?n \<longleftrightarrow> ?rest = []" by auto
  have step: "\<exists>r' x y. reads_at (written w1 @ Z) r' (length (written w1)) \<and> lr_reporter r' = lr_reporter r \<and>
      ReadRecord_loop r (\<not> is_begin) p scratch =
        (if ?rest = [] then (Some ((if is_begin then [] else scratch) @ ?data), r'\<lparr>lr_last_record_offset := x\<rparr>)
         else ReadRecord_loop r' True y ((if is_begin then [] else scratch) @ ?data))"
    if "reads_at (written w1 @ Z) r (length (written w))" for Z r p scratch
  proof -
    have "written w1 @ Z = written ?s @ phys ?t ?data @ Z" by (simp add: wr1)
    from reads_fragment [OF that 1(2) this room tz] obtain r' where
      rp: "ReadPhysicalRecord r = (of_nat (type_num ?t), ?data, r')" and
      at: "reads_at (written w1 @ Z) r' (length (written w1))" and rep: "lr_reporter r' = lr_reporter r"
      unfolding len1 by blast
    from ReadRecord_loop_fragment [OF rp reads_at_resync [OF at] refl] at rep show ?thesis
      unfolding n_end by blast
  qed
  show ?case
  proof (cases "?rest = []")
    case True
    have "AddRecord_loop w is_begin left = Inr (Status_OK, w1)"
      by (subst AddRecord_loop.simps)
        (simp only: Let_def off emit True if_False sum.case prod.case simp_thms)
    moreover have "returns_record w (written w1 @ Z) w1 is_begin left" for Z
      unfolding returns_record_def
    proof (intro allI impI)
      fix r p scratch assume "reads_at (written w1 @ Z) r (length (written w))"
      from step [OF this, of p scratch] True obtain r' x where
        "reads_at (written w1 @ Z) r' (length (written w1))" "lr_reporter r' = lr_reporter r"
        "ReadRecord_loop r (\<not> is_begin) p scratch =
          (Some ((if is_begin then [] else scratch) @ ?data), r'\<lparr>lr_last_record_offset := x\<rparr>)" by metis
      moreover have "?data = left" using True by (metis append_Nil2 append_take_drop_id)
      ultimately show "\<exists>r'. ReadRecord_loop r (\<not> is_begin) p scratch = (Some ((if is_begin then [] else scratch) @ left), r') \<and>
          reads_at (written w1 @ Z) r' (length (written w1)) \<and> lr_reporter r' = lr_reporter r"
        by (intro exI [of _ "r'\<lparr>lr_last_record_offset := x\<rparr>"]) (simp add: reads_at_last)
    qed
    ultimately show ?thesis using ok1 tr wr1 by auto
  next
    case False
    have "AddRecord_loop w is_begin left = AddRecord_loop w1 False ?rest"
      by (subst AddRecord_loop.simps)
        (simp only: Let_def off emit False if_False if_True sum.case prod.case simp_thms Status_ok_OK)
    moreover from 1(1) [OF off refl refl refl refl emit refl _ ok1] False obtain w' suf where
      "AddRecord_loop w1 False ?rest = Inr (Status_OK, w')" "writer_ok w'" and suf: "written w' = written w1 @ suf" and
      ret: "\<forall>Z. returns_record w1 (written w' @ Z) w' False ?rest" by (auto simp: status_defs)
    moreover have "returns_record w (written w' @ Z) w' is_begin left" for Z
      unfolding returns_record_def
    proof (intro allI impI)
      fix r p scratch assume at: "reads_at (written w' @ Z) r (length (written w))"
      have eq: "written w' @ Z = written w1 @ (suf @ Z)" by (simp add: suf)
      from step [OF at [unfolded eq], of p scratch] False obtain r' y where
        at': "reads_at (written w' @ Z) r' (length (written w1))" and rep: "lr_reporter r' = lr_reporter r" and
        loop: "ReadRecord_loop r (\<not> is_begin) p scratch = ReadRecord_loop r' True y ((if is_begin then [] else scratch) @ ?data)"
        unfolding eq by metis
      let ?sc = "(if is_begin then [] else scratch) @ ?data"
      have "\<exists>r''. ReadRecord_loop r' (\<not> False) y ?sc = (Some ((if False then [] else ?sc) @ ?rest), r'') \<and>
          reads_at (written w' @ Z) r'' (length (written w')) \<and> lr_reporter r'' = lr_reporter r'"
        using ret at' unfolding returns_record_def by blast
      then obtain r'' where "ReadRecord_loop r' True y ?sc = (Some (?sc @ ?rest), r'')"
        "reads_at (written w' @ Z) r'' (length (written w'))" "lr_reporter r'' = lr_reporter r'"
        by (simp only: if_False simp_thms) blast
      moreover have "?sc @ ?rest = (if is_begin then [] else scratch) @ left" by (simp only: append.assoc append_take_drop_id)
      ultimately show "\<exists>r'. ReadRecord_loop r (\<not> is_begin) p scratch = (Some ((if is_begin then [] else scratch) @ left), r') \<and>
          reads_at (written w' @ Z) r' (length (written w')) \<and> lr_reporter r' = lr_reporter r"
        unfolding loop using rep by (intro exI [of _ r'']) (simp only: simp_thms)
    qed
    ultimately show ?thesis using tr wr1 by auto
  qed
qed

section \<open>Logs\<close>

fun AddRecords :: "LogWriter \<Rightarrow> bytes list \<Rightarrow> (Status \<times> LogWriter) result" where
  "AddRecords w [] = Inr (Status_OK, w)"
| "AddRecords w (d # ds) = (case AddRecord w d of
     Inr (s, w') \<Rightarrow> if Status_ok s then AddRecords w' ds else Inr (s, w') | Inl e \<Rightarrow> Inl e)"

text \<open>Reading until \<open>ReadRecord\<close> returns false, at most \<open>n\<close> times.\<close>

fun ReadRecords :: "nat \<Rightarrow> LogReader \<Rightarrow> bytes list \<times> LogReader" where
  "ReadRecords 0 r = ([], r)"
| "ReadRecords (Suc n) r = (case ReadRecord r of
     (None, r') \<Rightarrow> ([], r') | (Some d, r') \<Rightarrow> (case ReadRecords n r' of (ds, r'') \<Rightarrow> (d # ds, r'')))"

lemma ReadRecord_at: "reads_at F r pos \<Longrightarrow> ReadRecord r = ReadRecord_loop r False 0 []"
  by (simp add: ReadRecord_def reads_at_def)

lemma ReadRecord_eof: "reads_at F r (length F) \<Longrightarrow> \<exists>r'. ReadRecord r = (None, r') \<and> lr_reporter r' = lr_reporter r"
proof -
  assume at: "reads_at F r (length F)"
  from reads_eof [OF this] obtain r' where "ReadPhysicalRecord r = (kEof, [], r')" "lr_reporter r' = lr_reporter r"
    "\<not> lr_resyncing r'" by blast
  then show ?thesis unfolding ReadRecord_at [OF at] by (subst ReadRecord_loop.simps) (simp add: Let_def)
qed

lemma AddRecords_returns:
  "writer_ok w \<Longrightarrow> \<exists>w' suf. AddRecords w ds = Inr (Status_OK, w') \<and> writer_ok w' \<and> written w' = written w @ suf \<and>
    (\<forall>Z r. reads_at (written w' @ Z) r (length (written w)) \<longrightarrow> (\<exists>r'. reads_at (written w' @ Z) r' (length (written w')) \<and>
       lr_reporter r' = lr_reporter r \<and>
       (\<forall>n. ReadRecords (length ds + n) r = (let (ds', r'') = ReadRecords n r' in (ds @ ds', r'')))))"
proof (induction ds arbitrary: w)
  case Nil
  then show ?case by (auto simp: Let_def)
next
  case (Cons d ds)
  from AddRecord_loop_returns [OF Cons.prems, of True d] obtain w1 suf1 where
    w1: "AddRecord w d = Inr (Status_OK, w1)" "writer_ok w1" "written w1 = written w @ suf1" and
    ret: "\<And>Z. returns_record w (written w1 @ Z) w1 True d" unfolding AddRecord_def by blast
  from Cons.IH [OF w1(2)] obtain w' suf where w': "AddRecords w1 ds = Inr (Status_OK, w')" "writer_ok w'"
    "written w' = written w1 @ suf" and
    rest: "\<And>Z r. reads_at (written w' @ Z) r (length (written w1)) \<Longrightarrow> \<exists>r'. reads_at (written w' @ Z) r' (length (written w')) \<and>
       lr_reporter r' = lr_reporter r \<and>
       (\<forall>n. ReadRecords (length ds + n) r = (let (ds', r'') = ReadRecords n r' in (ds @ ds', r'')))" by blast
  have "\<exists>r'. reads_at (written w' @ Z) r' (length (written w')) \<and> lr_reporter r' = lr_reporter r \<and>
      (\<forall>n. ReadRecords (length (d # ds) + n) r = (let (ds', r'') = ReadRecords n r' in ((d # ds) @ ds', r'')))"
    if at: "reads_at (written w' @ Z) r (length (written w))" for Z r
  proof -
    have eq: "written w' @ Z = written w1 @ (suf @ Z)" by (simp add: w'(3))
    from ret [of "suf @ Z"] at obtain r1 where r1: "ReadRecord_loop r False 0 [] = (Some d, r1)"
      "reads_at (written w' @ Z) r1 (length (written w1))" "lr_reporter r1 = lr_reporter r"
      unfolding returns_record_def eq by force
    from rest [OF r1(2)] obtain r' where r': "reads_at (written w' @ Z) r' (length (written w'))"
      "lr_reporter r' = lr_reporter r1"
      "\<And>n. ReadRecords (length ds + n) r1 = (let (ds', r'') = ReadRecords n r' in (ds @ ds', r''))" by blast
    have "ReadRecords (length (d # ds) + n) r = (let (ds', r'') = ReadRecords n r' in ((d # ds) @ ds', r''))" for n
      using r'(3) [of n] r1(1) ReadRecord_at [OF at] by (simp split: prod.splits)
    with r' r1(3) show ?thesis by metis
  qed
  then show ?case using w1 w' by (auto simp: status_defs)
qed

section \<open>Properties\<close>

definition new_file :: "bytes \<Rightarrow> WritableFile" where
  "new_file d = \<lparr>wf_data = d, wf_calls = 0, wf_append = (\<lambda>_ d. (Status_OK, d)), wf_flush = (\<lambda>_. Status_OK)\<rparr>"

text \<open>
  C28: over files that do not fail, adding any sequence of records to an empty log returns
  OK, and a reader of the resulting file, checking checksums or not, returns exactly these records in this order
  and then ends, reporting no corruption.
\<close>

theorem log_records_recovered:
  assumes "file_works f" and "wf_data f = []" and "\<And>k. st k = Status_OK" and "length ds < n"
  shows "\<exists>w r. AddRecords (LogWriter_make f) ds = Inr (Status_OK, w) \<and>
    ReadRecords n (LogReader_make \<lparr>sf_data = wf_data (lw_dest w), sf_calls = c, sf_status = st\<rparr> has_reporter checksum 0) =
      (ds, r) \<and>
    lr_reporter r = (if has_reporter then Some [] else None)"
proof -
  have "writer_ok (LogWriter_make f)" using assms(1,2) by (simp add: writer_ok_def LogWriter_make_def)
  from AddRecords_returns [OF this, of ds] obtain w suf where w: "AddRecords (LogWriter_make f) ds = Inr (Status_OK, w)"
    and ret: "\<And>r. reads_at (written w @ []) r (length (written (LogWriter_make f))) \<Longrightarrow>
       \<exists>r'. reads_at (written w @ []) r' (length (written w)) \<and> lr_reporter r' = lr_reporter r \<and>
       (\<forall>n. ReadRecords (length ds + n) r = (let (ds', r'') = ReadRecords n r' in (ds @ ds', r'')))" by blast
  let ?r = "LogReader_make \<lparr>sf_data = written w, sf_calls = c, sf_status = st\<rparr> has_reporter checksum 0"
  have "reads_at (written w) ?r 0"
    unfolding reads_at_def using assms(3)
    by (intro conjI exI [of _ 0]) (simp_all add: LogReader_make_def)
  then obtain r' where r': "reads_at (written w) r' (length (written w))" "lr_reporter r' = lr_reporter ?r"
    "\<forall>n. ReadRecords (length ds + n) ?r = (let (ds', r'') = ReadRecords n r' in (ds @ ds', r''))"
    using ret [of ?r] assms(2) by (auto simp: LogWriter_make_def)
  from ReadRecord_eof [OF r'(1)] obtain r'' where e: "ReadRecord r' = (None, r'')" "lr_reporter r'' = lr_reporter r'"
    by blast
  obtain m where m: "n = length ds + Suc m" using assms(4) less_iff_Suc_add by auto
  have "ReadRecords (Suc m) r' = ([], r'')" using e(1) by simp
  then have "ReadRecords n ?r = (ds, r'')" unfolding m using r'(3) [rule_format, of "Suc m"] by (simp only: Let_def prod.case append_Nil2)
  moreover have "lr_reporter r'' = (if has_reporter then Some [] else None)"
    using e(2) r'(2) by (simp add: LogReader_make_def)
  ultimately show ?thesis using w by blast
qed

theorem log_records_recovered_witness:
  "\<exists>w r. AddRecords (LogWriter_make (new_file [])) [[1, 2], []] = Inr (Status_OK, w) \<and>
    ReadRecords 3 (LogReader_make \<lparr>sf_data = wf_data (lw_dest w), sf_calls = 0, sf_status = (\<lambda>_. Status_OK)\<rparr> True True 0) =
      ([[1, 2], []], r) \<and>
    lr_reporter r = (if True then Some [] else None)"
  by (rule log_records_recovered) (simp_all add: new_file_def file_works_def)

end
