(* ===== verification/Db_Impl.thy ===== *)
theory Db_Impl
  imports Memtable Log_Recovery
begin

text \<open>
  The write path, the read path and the log recovery of LevelDB (\<open>db/db_impl.cc\<close>): writers queue up, the one at
  the front makes room, merges the batches behind it into one, numbers it, appends it to the log and inserts it
  into the memtable while the mutex is released, and then dismisses the writers it served. The table files below
  the memtables are not part of this model: their number, the outcome of writing one and what a lookup in them
  finds are arguments, and so is the memory that a memtable's arena reports. What happens while the mutex is
  released is an argument too, one \<open>room_env\<close> per turn of the waiting loop.
\<close>

section \<open>State\<close>

definition kL0_SlowdownWritesTrigger :: nat where "kL0_SlowdownWritesTrigger = 8"
definition kL0_StopWritesTrigger :: nat where "kL0_StopWritesTrigger = 12"

text \<open>A queued writer; \<open>w_id\<close> is its address. \<open>status\<close> and \<open>done\<close> are kept in the map \<open>db_done\<close>.\<close>

record Writer =
  w_id :: nat
  w_batch :: "bytes option"
  w_sync :: bool

text \<open>Where the writer at the front of the queue is: before, in and after the part that runs unlocked.\<close>

datatype write_phase = W_Queued
  | W_Unlocked bytes bool nat u64
  | W_Applied Status bool bool nat u64

record DBImpl =
  db_mem :: MemTable
  db_imm :: "MemTable option"
  db_log :: LogWriter
  db_logfile_number :: nat
  db_next_file_number :: nat
  db_prev_log_number :: nat
  db_last_sequence :: u64
  db_writers :: "Writer list"
  db_done :: "nat \<Rightarrow> Status option"
  db_tmp_batch :: bytes
  db_bg_error :: Status
  db_phase :: write_phase

definition NewFileNumber :: "DBImpl \<Rightarrow> nat \<times> DBImpl" where
  "NewFileNumber d = (db_next_file_number d, d\<lparr>db_next_file_number := db_next_file_number d + 1\<rparr>)"

definition ReuseFileNumber :: "nat \<Rightarrow> DBImpl \<Rightarrow> DBImpl" where
  "ReuseFileNumber n d = (if db_next_file_number d = n + 1 then d\<lparr>db_next_file_number := n\<rparr> else d)"

definition SetLastSequence :: "u64 \<Rightarrow> DBImpl \<Rightarrow> DBImpl result" where
  "SetLastSequence s d =
     and_then (check (db_last_sequence d \<le> s) Assert_failed) (\<lambda>_. Inr (d\<lparr>db_last_sequence := s\<rparr>))"

definition RecordBackgroundError :: "Status \<Rightarrow> DBImpl \<Rightarrow> DBImpl" where
  "RecordBackgroundError s d = (if Status_ok (db_bg_error d) then d\<lparr>db_bg_error := s\<rparr> else d)"

section \<open>Writing\<close>

text \<open>
  What one turn of the loop in \<open>MakeRoomForWrite\<close> meets: the number of level-0 files, what \<open>NewWritableFile\<close>
  answers, and, if the mutex is released in this turn, whether the background thread finished with \<open>imm_\<close>,
  which error it recorded, how many file numbers it took and which writers queued up.
\<close>

record room_env =
  re_level0 :: nat
  re_file :: "Status \<times> WritableFile"
  re_imm_done :: bool
  re_bg_error :: Status
  re_file_numbers :: nat
  re_arrivals :: "Writer list"

definition while_unlocked :: "room_env \<Rightarrow> DBImpl \<Rightarrow> DBImpl" where
  "while_unlocked e d = RecordBackgroundError (re_bg_error e)
     (d\<lparr>db_imm := (if re_imm_done e then None else db_imm d),
        db_next_file_number := db_next_file_number d + re_file_numbers e,
        db_writers := db_writers d @ re_arrivals e\<rparr>)"

text \<open>The last branch of the loop: a new log file and an empty memtable; the old one becomes \<open>imm_\<close>.\<close>

definition switch_memtable :: "nat \<Rightarrow> WritableFile \<Rightarrow> DBImpl \<Rightarrow> DBImpl" where
  "switch_memtable n lfile d =
     d\<lparr>db_log := LogWriter_make lfile, db_logfile_number := n, db_imm := Some (db_mem d),
       db_mem := MemTable_Ref (MemTable_make BytewiseComparator)\<rparr>"

text \<open>\<open>None\<close>: the loop is still waiting when the turns are used up.\<close>

fun MakeRoomForWrite ::
  "(MemTable \<Rightarrow> nat) \<Rightarrow> nat \<Rightarrow> room_env list \<Rightarrow> bool \<Rightarrow> bool \<Rightarrow> DBImpl \<Rightarrow> (Status \<times> DBImpl) result option" where
  "MakeRoomForWrite usage write_buffer_size [] force allow_delay d = None"
| "MakeRoomForWrite usage write_buffer_size (e # es) force allow_delay d =
     (if \<not> Status_ok (db_bg_error d) then Some (Inr (db_bg_error d, d))
      else if allow_delay \<and> kL0_SlowdownWritesTrigger \<le> re_level0 e then
        MakeRoomForWrite usage write_buffer_size es force False (while_unlocked e d)
      else if \<not> force \<and> usage (db_mem d) \<le> write_buffer_size then Some (Inr (Status_OK, d))
      else if db_imm d \<noteq> None \<or> kL0_StopWritesTrigger \<le> re_level0 e then
        MakeRoomForWrite usage write_buffer_size es force allow_delay (while_unlocked e d)
      else if db_prev_log_number d \<noteq> 0 then Some (Inl Assert_failed)
      else
        let (n, d) = NewFileNumber d;
            (s, lfile) = re_file e in
        if \<not> Status_ok s then Some (Inr (s, ReuseFileNumber n d))
        else MakeRoomForWrite usage write_buffer_size es False allow_delay (switch_memtable n lfile d))"

text \<open>
  The loop of \<open>BuildBatchGroup\<close> over the writers behind the first: whether the group is kept in \<open>tmp_batch_\<close>,
  \<open>tmp_batch_\<close> itself and the last writer taken.
\<close>

fun DBImpl_BuildBatchGroup_loop ::
  "bytes \<Rightarrow> bool \<Rightarrow> nat \<Rightarrow> Writer list \<Rightarrow> nat \<Rightarrow> bool \<Rightarrow> bytes \<Rightarrow> nat \<Rightarrow> (bool \<times> bytes \<times> nat) result" where
  "DBImpl_BuildBatchGroup_loop first first_sync max_size [] sz in_tmp tmp last_writer = Inr (in_tmp, tmp, last_writer)"
| "DBImpl_BuildBatchGroup_loop first first_sync max_size (w # ws) sz in_tmp tmp last_writer =
     (if w_sync w \<and> \<not> first_sync then Inr (in_tmp, tmp, last_writer)
      else case w_batch w of
        None \<Rightarrow> DBImpl_BuildBatchGroup_loop first first_sync max_size ws sz in_tmp tmp (w_id w)
      | Some b \<Rightarrow>
          let sz = sz + ApproximateSize b in
          if max_size < sz then Inr (in_tmp, tmp, last_writer)
          else
            and_then (if in_tmp then Inr tmp
                      else and_then (check (Count tmp = 0) Assert_failed) (\<lambda>_. WriteBatch_Append tmp first)) (\<lambda>tmp.
            and_then (WriteBatch_Append tmp b) (\<lambda>tmp.
            DBImpl_BuildBatchGroup_loop first first_sync max_size ws sz True tmp (w_id w))))"

definition DBImpl_BuildBatchGroup :: "DBImpl \<Rightarrow> (bytes \<times> bool \<times> bytes \<times> nat) result" where
  "DBImpl_BuildBatchGroup d =
     (case db_writers d of
        [] \<Rightarrow> Inl Assert_failed
      | w # ws \<Rightarrow>
          (case w_batch w of
             None \<Rightarrow> Inl Assert_failed
           | Some first \<Rightarrow>
               let sz = ApproximateSize first;
                   max_size = (if sz \<le> 128 * 1024 then sz + 128 * 1024 else 1024 * 1024) in
               and_then (DBImpl_BuildBatchGroup_loop first (w_sync w) max_size ws sz False (db_tmp_batch d) (w_id w))
                 (\<lambda>(in_tmp, tmp, last_writer). Inr (if in_tmp then tmp else first, in_tmp, tmp, last_writer))))"

text \<open>The front writer takes its group off the queue and gives every other member the status.\<close>

fun dismiss :: "nat \<Rightarrow> Status \<Rightarrow> nat \<Rightarrow> Writer list \<Rightarrow> (nat \<Rightarrow> Status option) \<Rightarrow> (Writer list \<times> (nat \<Rightarrow> Status option)) result" where
  "dismiss self s last_writer [] dn = Inl Out_of_bounds"
| "dismiss self s last_writer (r # rs) dn =
     (let dn = (if w_id r \<noteq> self then dn(w_id r \<mapsto> s) else dn) in
      if w_id r = last_writer then Inr (rs, dn) else dismiss self s last_writer rs dn)"

definition Write_return :: "nat \<Rightarrow> Status \<Rightarrow> nat \<Rightarrow> DBImpl \<Rightarrow> DBImpl result" where
  "Write_return self s last_writer d =
     and_then (dismiss self s last_writer (db_writers d) (db_done d)) (\<lambda>(ws, dn).
       Inr (d\<lparr>db_writers := ws, db_done := dn(self \<mapsto> s), db_phase := W_Queued\<rparr>))"

text \<open>\<open>Write\<close>, in the parts between which the mutex is released. First, joining the queue.\<close>

definition Write_enqueue :: "Writer \<Rightarrow> DBImpl \<Rightarrow> DBImpl" where
  "Write_enqueue w d = d\<lparr>db_writers := db_writers d @ [w]\<rparr>"

text \<open>The front writer, up to the release of the mutex; a null batch and an error go on to the end.\<close>

definition Write_lead :: "(MemTable \<Rightarrow> nat) \<Rightarrow> nat \<Rightarrow> room_env list \<Rightarrow> DBImpl \<Rightarrow> DBImpl result option" where
  "Write_lead usage write_buffer_size es d =
     (case db_writers d of
        [] \<Rightarrow> Some (Inl Assert_failed)
      | w # _ \<Rightarrow>
          map_option (\<lambda>r. and_then r (\<lambda>(s, d).
            let last_sequence = db_last_sequence d in
            if Status_ok s \<and> w_batch w \<noteq> None then
              and_then (DBImpl_BuildBatchGroup d) (\<lambda>(b, in_tmp, tmp, last_writer).
                let b = SetSequence b (last_sequence + 1) in
                Inr (d\<lparr>db_tmp_batch := (if in_tmp then b else tmp),
                       db_phase := W_Unlocked b in_tmp last_writer (last_sequence + scast (Count b))\<rparr>))
            else Write_return (w_id w) s (w_id w) d))
          (MakeRoomForWrite usage write_buffer_size es (w_batch w = None) (w_batch w \<noteq> None) d))"

text \<open>The unlocked part; \<open>sync_status\<close> is what \<open>logfile_->Sync()\<close> answers.\<close>

definition Write_unlocked :: "Status \<Rightarrow> DBImpl \<Rightarrow> DBImpl result option" where
  "Write_unlocked sync_status d =
     (case (db_phase d, db_writers d) of
        (W_Unlocked b in_tmp last_writer last_sequence, w # _) \<Rightarrow>
          (case AddRecord (db_log d) b of
             Inl e \<Rightarrow> Some (Inl e)
           | Inr (s, lw) \<Rightarrow>
               let d = d\<lparr>db_log := lw\<rparr>;
                   s' = (if Status_ok s \<and> w_sync w then sync_status else s);
                   sync_error = (Status_ok s \<and> w_sync w \<and> \<not> Status_ok sync_status) in
               if Status_ok s' then
                 (case InsertInto b (db_mem d) of (s', r) \<Rightarrow>
                    map_option (\<lambda>r. and_then r (\<lambda>mt.
                      Inr (d\<lparr>db_mem := mt, db_phase := W_Applied s' sync_error in_tmp last_writer last_sequence\<rparr>))) r)
               else Some (Inr (d\<lparr>db_phase := W_Applied s' sync_error in_tmp last_writer last_sequence\<rparr>)))
      | _ \<Rightarrow> Some (Inl Assert_failed))"

text \<open>The rest, with the mutex held again.\<close>

definition Write_finish :: "DBImpl \<Rightarrow> DBImpl result" where
  "Write_finish d =
     (case (db_phase d, db_writers d) of
        (W_Applied s sync_error in_tmp last_writer last_sequence, w # _) \<Rightarrow>
          let d = (if sync_error then RecordBackgroundError s d else d);
              d = (if in_tmp then d\<lparr>db_tmp_batch := WriteBatch_Clear\<rparr> else d) in
          and_then (SetLastSequence last_sequence d) (\<lambda>d. Write_return (w_id w) s last_writer d)
      | _ \<Rightarrow> Inl Assert_failed)"

section \<open>Reading\<close>

text \<open>\<open>Version::Get\<close> is the argument \<open>version_get\<close>.\<close>

definition DBImpl_Get ::
  "(LookupKey \<Rightarrow> Status \<times> bytes option) \<Rightarrow> DBImpl \<Rightarrow> u64 option \<Rightarrow> bytes \<Rightarrow> (Status \<times> bytes option) result option" where
  "DBImpl_Get version_get d snapshot key =
     (let seq = (case snapshot of Some s \<Rightarrow> s | None \<Rightarrow> db_last_sequence d) in
      case LookupKey_make key seq of
        Inl e \<Rightarrow> Some (Inl e)
      | Inr lkey \<Rightarrow>
          let found = (\<lambda>a other. case a of Has_value v \<Rightarrow> Some (Inr (Status_OK, Some v))
                | Is_deleted s \<Rightarrow> Some (Inr (s, None)) | Not_here \<Rightarrow> other);
              below = Some (Inr (version_get lkey)) in
          case MemTable_Get (db_mem d) lkey of
            None \<Rightarrow> None
          | Some (Inl e) \<Rightarrow> Some (Inl e)
          | Some (Inr a) \<Rightarrow> found a
              (case db_imm d of
                 None \<Rightarrow> below
               | Some imm \<Rightarrow>
                   (case MemTable_Get imm lkey of
                      None \<Rightarrow> None
                    | Some (Inl e) \<Rightarrow> Some (Inl e)
                    | Some (Inr a) \<Rightarrow> found a below)))"

end
