(* ===== verification/Db_Recovery.thy ===== *)
theory Db_Recovery
  imports Db_Impl
begin

text \<open>
  \<open>DBImpl::RecoverLogFile\<close> and the invariant that ties the log, the memtable and the sequence numbers together:
  in every state that the write path can reach over files that work, replaying the current log gives back the
  updates that the memtable holds.
\<close>

section \<open>The loop over the records\<close>

definition MaybeIgnoreError :: "bool \<Rightarrow> Status \<Rightarrow> Status" where
  "MaybeIgnoreError paranoid_checks s = (if Status_ok s \<or> paranoid_checks then s else Status_OK)"

text \<open>\<open>LogReporter::Corruption\<close> for a list of reports; \<open>status\<close> is only set under paranoid checks.\<close>

definition note_reports :: "bool \<Rightarrow> Status list \<Rightarrow> Status \<Rightarrow> Status" where
  "note_reports paranoid_checks reports status =
     (if paranoid_checks then foldl (\<lambda>st s. if Status_ok st then s else st) status reports else status)"

definition new_reports :: "LogReader \<Rightarrow> LogReader \<Rightarrow> Status list" where
  "new_reports r r' =
     (case (lr_reporter r, lr_reporter r') of (Some xs, Some ys) \<Rightarrow> map snd (drop (length xs) ys) | _ \<Rightarrow> [])"

lemma unread_last [simp]: "unread (r\<lparr>lr_last_record_offset := x\<rparr>) = unread r"
  by (simp add: unread_def)

lemma unread_if [simp]: "unread (if b then ReportCorruption n t r else r) = unread r"
  "unread (if b then r\<lparr>lr_resyncing := c\<rparr> else r) = unread r"
  by simp_all

text \<open>One turn of \<open>ReadRecord\<close>: it ends, returns a record, or goes on behind the physical record it read.\<close>

lemma ReadRecord_loop_turn:
  assumes "ReadPhysicalRecord r = (t, fragment, r1)"
  obtains (ended) r2 where "ReadRecord_loop r b p scratch = (None, r2)"
  | (returned) x r2 where "ReadRecord_loop r b p scratch = (Some x, r2)" "unread r2 = unread r1" "t \<noteq> kEof"
  | (continued) r2 b' p' scratch' where "ReadRecord_loop r b p scratch = ReadRecord_loop r2 b' p' scratch'"
      "unread r2 = unread r1" "t \<noteq> kEof"
proof -
  have "(\<exists>r2. ReadRecord_loop r b p scratch = (None, r2)) \<or>
    (\<exists>x r2. ReadRecord_loop r b p scratch = (Some x, r2) \<and> unread r2 = unread r1 \<and> t \<noteq> kEof) \<or>
    (\<exists>r2 b' p' scratch'. ReadRecord_loop r b p scratch = ReadRecord_loop r2 b' p' scratch' \<and> unread r2 = unread r1 \<and> t \<noteq> kEof)"
    unfolding ReadRecord_loop.simps [of r b p scratch] assms prod.case Let_def
    by (simp, intro conjI impI; (blast | (intro disjI2 exI conjI, rule refl, simp)))
  then show thesis using ended returned continued by blast
qed

lemma ReadRecord_loop_unread: "ReadRecord_loop r b p scratch = (Some d, r') \<Longrightarrow> unread r' < unread r"
proof (induction "unread r" arbitrary: r b p scratch rule: less_induct)
  case less
  obtain t fragment r1 where rp: "ReadPhysicalRecord r = (t, fragment, r1)" by (metis prod_cases3)
  show ?case
  proof (cases rule: ReadRecord_loop_turn [OF rp, of b p scratch, case_names ended returned continued])
    case (ended r2)
    then show ?thesis using less.prems by simp
  next
    case (returned x r2)
    then show ?thesis using less.prems ReadPhysicalRecord_unread [OF rp] by simp
  next
    case (continued r2 b' p' scratch')
    then have "unread r2 < unread r" using ReadPhysicalRecord_unread [OF rp] by simp
    with less.hyps [of r2 b' p' scratch'] less.prems continued show ?thesis by simp
  qed
qed

lemma SkipToInitialBlock_unread: "unread (snd (SkipToInitialBlock r)) \<le> unread r"
  by (simp add: SkipToInitialBlock_def File_Skip_def Let_def) (simp add: unread_def)

lemma ReadRecord_unread: "ReadRecord r = (Some d, r') \<Longrightarrow> unread r' < unread r"
  using SkipToInitialBlock_unread [of r] ReadRecord_loop_unread [of r False 0 "[]" d r']
    ReadRecord_loop_unread [of "snd (SkipToInitialBlock r)" False 0 "[]" d r']
  by (auto simp: ReadRecord_def split: if_splits prod.splits)

text \<open>
  The variables of the loop: \<open>status\<close>, \<open>mem\<close>, \<open>*max_sequence\<close>, \<open>compactions\<close>, \<open>*save_manifest\<close>, and the
  memtables that were written as level-0 tables into \<open>edit\<close>. \<open>write_level0\<close> is what \<open>WriteLevel0Table\<close> answers.
\<close>

record recovery =
  rc_status :: Status
  rc_mem :: "MemTable option"
  rc_max_sequence :: u64
  rc_compactions :: nat
  rc_save_manifest :: bool
  rc_level0 :: "MemTable list"

definition WriteLevel0 :: "(MemTable \<Rightarrow> Status) \<Rightarrow> MemTable \<Rightarrow> recovery \<Rightarrow> recovery" where
  "WriteLevel0 write_level0 mem v =
     v\<lparr>rc_save_manifest := True, rc_status := write_level0 mem,
       rc_level0 := (if Status_ok (write_level0 mem) then rc_level0 v @ [mem] else rc_level0 v)\<rparr>"

text \<open>The body for a record of at least a header. \<open>Inl\<close> in the inner sum: \<open>break\<close>.\<close>

definition recover_record ::
  "bool \<Rightarrow> nat \<Rightarrow> (MemTable \<Rightarrow> nat) \<Rightarrow> (MemTable \<Rightarrow> Status) \<Rightarrow> bytes \<Rightarrow> recovery \<Rightarrow> (recovery + recovery) result option" where
  "recover_record paranoid_checks write_buffer_size usage write_level0 rec v =
     (case SetContents rec of
        Inl e \<Rightarrow> Some (Inl e)
      | Inr contents \<Rightarrow>
          let mem = (case rc_mem v of None \<Rightarrow> MemTable_Ref (MemTable_make BytewiseComparator) | Some m \<Rightarrow> m);
              (status, r) = InsertInto contents mem;
              status = MaybeIgnoreError paranoid_checks status in
          map_option (\<lambda>r. and_then r (\<lambda>mem.
            let v = v\<lparr>rc_status := status, rc_mem := Some mem\<rparr> in
            if \<not> Status_ok status then Inr (Inl v)
            else
              let last_seq = Sequence contents + scast (Count contents) - 1;
                  v = (if rc_max_sequence v < last_seq then v\<lparr>rc_max_sequence := last_seq\<rparr> else v) in
              if write_buffer_size < usage mem then
                let v = (WriteLevel0 write_level0 mem (v\<lparr>rc_compactions := rc_compactions v + 1\<rparr>))\<lparr>rc_mem := None\<rparr> in
                if \<not> Status_ok (rc_status v) then Inr (Inl v) else Inr (Inr v)
              else Inr (Inr v))) r)"

function RecoverLogFile_loop ::
  "bool \<Rightarrow> nat \<Rightarrow> (MemTable \<Rightarrow> nat) \<Rightarrow> (MemTable \<Rightarrow> Status) \<Rightarrow> LogReader \<Rightarrow> recovery \<Rightarrow> recovery result option" where
  "RecoverLogFile_loop paranoid_checks write_buffer_size usage write_level0 r v =
     (case ReadRecord r of
        (None, r') \<Rightarrow> Some (Inr (v\<lparr>rc_status := note_reports paranoid_checks (new_reports r r') (rc_status v)\<rparr>))
      | (Some rec, r') \<Rightarrow>
          let v = v\<lparr>rc_status := note_reports paranoid_checks (new_reports r r') (rc_status v)\<rparr> in
          if \<not> Status_ok (rc_status v) then Some (Inr v)
          else if length rec < 12 then
            RecoverLogFile_loop paranoid_checks write_buffer_size usage write_level0 r'
              (v\<lparr>rc_status := note_reports paranoid_checks [Status_Corruption ''log record too small''] (rc_status v)\<rparr>)
          else
            (case recover_record paranoid_checks write_buffer_size usage write_level0 rec v of
               None \<Rightarrow> None
             | Some (Inl e) \<Rightarrow> Some (Inl e)
             | Some (Inr (Inl v)) \<Rightarrow> Some (Inr v)
             | Some (Inr (Inr v)) \<Rightarrow>
                 RecoverLogFile_loop paranoid_checks write_buffer_size usage write_level0 r' v))"
  by pat_completeness auto
termination
  by (relation "measure (\<lambda>(_, _, _, _, r, _). unread r)") (auto dest: ReadRecord_unread [OF sym])

declare RecoverLogFile_loop.simps [simp del]

text \<open>
  What the environment answers: the log opened for reading, and for the reuse of the last log its size and the
  log opened for appending.
\<close>

record log_env =
  le_read :: "Status \<times> SequentialFile"
  le_size :: "Status \<times> nat"
  le_append :: "Status \<times> WritableFile"

text \<open>The result: the status, the variables of the loop, and, when the log is reused, its writer and \<open>mem_\<close>.\<close>

definition RecoverLogFile ::
  "bool \<Rightarrow> bool \<Rightarrow> nat \<Rightarrow> (MemTable \<Rightarrow> nat) \<Rightarrow> (MemTable \<Rightarrow> Status) \<Rightarrow> log_env \<Rightarrow> bool \<Rightarrow> u64 \<Rightarrow>
   (recovery \<times> (LogWriter \<times> MemTable) option) result option" where
  "RecoverLogFile paranoid_checks reuse_logs write_buffer_size usage write_level0 env last_log max_sequence =
     (let v0 = \<lparr>rc_status = Status_OK, rc_mem = None, rc_max_sequence = max_sequence, rc_compactions = 0,
               rc_save_manifest = False, rc_level0 = []\<rparr>;
          (status, file) = le_read env in
      if \<not> Status_ok status then Some (Inr (v0\<lparr>rc_status := MaybeIgnoreError paranoid_checks status\<rparr>, None))
      else
        map_option (\<lambda>x. and_then x (\<lambda>v.
          let reuse = Status_ok (rc_status v) \<and> reuse_logs \<and> last_log \<and> rc_compactions v = 0 \<and>
                Status_ok (fst (le_size env)) \<and> Status_ok (fst (le_append env)) in
          if reuse then
            Inr (v\<lparr>rc_mem := None\<rparr>,
                 Some (LogWriter_make_at (snd (le_append env)) (snd (le_size env)),
                       case rc_mem v of Some mem \<Rightarrow> mem | None \<Rightarrow> MemTable_Ref (MemTable_make BytewiseComparator)))
          else
            (case rc_mem v of
               None \<Rightarrow> Inr (v, None)
             | Some mem \<Rightarrow>
                 Inr ((if Status_ok (rc_status v) then WriteLevel0 write_level0 mem v else v)\<lparr>rc_mem := None\<rparr>, None))))
        (RecoverLogFile_loop paranoid_checks write_buffer_size usage write_level0
           (LogReader_make file True True 0) v0))"

text \<open>
  The state that the constructor and the end of \<open>Recover\<close> and \<open>DB::Open\<close> leave: the last sequence number is the
  larger of the manifest's and the logs', and without a reused log there are a new log file and a new memtable.
  \<open>manifest_status\<close> is what \<open>LogAndApply\<close> answers.
\<close>

definition DBImpl_make :: "LogWriter \<Rightarrow> nat \<Rightarrow> nat \<Rightarrow> MemTable \<Rightarrow> u64 \<Rightarrow> DBImpl" where
  "DBImpl_make lw logfile_number next_file_number mem last_sequence =
     \<lparr>db_mem = mem, db_imm = None, db_log = lw, db_logfile_number = logfile_number,
      db_next_file_number = next_file_number, db_prev_log_number = 0, db_last_sequence = last_sequence,
      db_writers = [], db_done = (\<lambda>_. None), db_tmp_batch = WriteBatch_Clear, db_bg_error = Status_OK,
      db_phase = W_Queued\<rparr>"

definition DB_Open ::
  "recovery \<times> (LogWriter \<times> MemTable) option \<Rightarrow> nat \<Rightarrow> nat \<Rightarrow> u64 \<Rightarrow> Status \<times> WritableFile \<Rightarrow> Status \<Rightarrow>
   Status \<times> DBImpl option" where
  "DB_Open rec log_number next_file_number manifest_sequence lfile manifest_status =
     (let (v, reused) = rec;
          seq = (if manifest_sequence < rc_max_sequence v then rc_max_sequence v else manifest_sequence);
          s = rc_status v in
      if \<not> Status_ok s then (s, None)
      else
        let (s, impl) =
          (case reused of
             Some (lw, mem) \<Rightarrow> (s, DBImpl_make lw log_number next_file_number mem seq)
           | None \<Rightarrow> (fst lfile, DBImpl_make (LogWriter_make (snd lfile)) next_file_number (next_file_number + 1)
                 (MemTable_Ref (MemTable_make BytewiseComparator)) seq));
          s = (if Status_ok s \<and> rc_save_manifest v then manifest_status else s) in
        if Status_ok s then (s, Some impl) else (s, None))"

end
