(* ===== verification/Db_Replay.thy ===== *)
theory Db_Replay
  imports Db_Recovery "HOL-Library.Sublist"
begin

text \<open>
  What the write path and the recovery have in common: logs as the records they hold, groups of updates with
  consecutive sequence numbers, the replay of such a log into memtables, and the groups that
  \<open>BuildBatchGroup\<close> forms from the writers' queue.
\<close>

section \<open>Logs and the records they hold\<close>

fun reads :: "LogReader \<Rightarrow> bytes list \<Rightarrow> LogReader \<Rightarrow> bool" where
  "reads r [] r' \<longleftrightarrow> r' = r"
| "reads r (d # ds) r' \<longleftrightarrow> (\<exists>r1. ReadRecord r = (Some d, r1) \<and> lr_reporter r1 = lr_reporter r \<and> reads r1 ds r')"

definition log_holds :: "LogWriter \<Rightarrow> bytes list \<Rightarrow> bool" where
  "log_holds w rs \<longleftrightarrow> writer_ok w \<and>
     (\<forall>Z r. reads_at (written w @ Z) r 0 \<longrightarrow> (\<exists>r'. reads r rs r' \<and> reads_at (written w @ Z) r' (length (written w))))"

lemma reads_snoc:
  "reads r rs r1 \<Longrightarrow> ReadRecord r1 = (Some d, r2) \<Longrightarrow> lr_reporter r2 = lr_reporter r1 \<Longrightarrow> reads r (rs @ [d]) r2"
  by (induction rs arbitrary: r) auto

lemma log_holds_make: "file_works f \<Longrightarrow> wf_data f = [] \<Longrightarrow> log_holds (LogWriter_make f) []"
  by (simp add: log_holds_def writer_ok_def LogWriter_make_def)

lemma log_holds_reopen:
  assumes "log_holds w rs" and "file_works f" and "wf_data f = written w" and "n = length (written w)"
  shows "log_holds (LogWriter_make_at f n) rs"
  using assms by (simp add: log_holds_def writer_ok_def LogWriter_make_at_def kBlockSize_def less_imp_le)

lemma log_holds_add:
  assumes "log_holds w rs"
  obtains w' where "AddRecord w d = Inr (Status_OK, w')" and "log_holds w' (rs @ [d])"
proof -
  have ok: "writer_ok w" using assms by (simp add: log_holds_def)
  from AddRecord_loop_returns [OF ok, of True d] obtain w1 suf where
    w1: "AddRecord w d = Inr (Status_OK, w1)" "writer_ok w1" "written w1 = written w @ suf" and
    ret: "\<And>Z. returns_record w (written w1 @ Z) w1 True d" unfolding AddRecord_def by blast
  have "\<exists>r'. reads r (rs @ [d]) r' \<and> reads_at (written w1 @ Z) r' (length (written w1))"
    if at: "reads_at (written w1 @ Z) r 0" for Z r
  proof -
    have eq: "written w1 @ Z = written w @ (suf @ Z)" by (simp add: w1(3))
    from assms at obtain r1 where r1: "reads r rs r1" "reads_at (written w1 @ Z) r1 (length (written w))"
      unfolding log_holds_def eq by blast
    from ret [of Z] r1(2) obtain r2 where r2: "ReadRecord_loop r1 False 0 [] = (Some d, r2)"
      "reads_at (written w1 @ Z) r2 (length (written w1))" "lr_reporter r2 = lr_reporter r1"
      unfolding returns_record_def by force
    then show ?thesis using reads_snoc [OF r1(1)] ReadRecord_at [OF r1(2)] by auto
  qed
  then have "log_holds w1 (rs @ [d])" using w1(2) by (simp add: log_holds_def)
  with that w1(1) show thesis by blast
qed

section \<open>Numbered groups of updates\<close>

type_synonym group = "u64 \<times> wb_op list"

definition ops_ok :: "wb_op list \<Rightarrow> bool" where
  "ops_ok ops \<longleftrightarrow> length ops < 2 ^ 31 \<and> (\<forall>op \<in> set ops. op_fits op \<and> length (op_key op) + 8 < 2 ^ 32)"

definition group_record :: "group \<Rightarrow> bytes" where "group_record g = batch (fst g) (snd g)"

definition group_updates :: "group list \<Rightarrow> update list" where
  "group_updates gs = concat (map (\<lambda>(s, ops). updates s ops) gs)"

text \<open>The groups take consecutive ranges of sequence numbers above \<open>a\<close> and up to \<open>b\<close>, possibly with gaps.\<close>

fun numbered :: "nat \<Rightarrow> group list \<Rightarrow> nat \<Rightarrow> bool" where
  "numbered a [] b \<longleftrightarrow> a \<le> b"
| "numbered a ((s, ops) # gs) b \<longleftrightarrow> a < unat s \<and> ops_ok ops \<and> numbered (unat s + length ops - 1) gs b"

lemma numbered_mono: "numbered a gs b \<Longrightarrow> b \<le> c \<Longrightarrow> numbered a gs c"
  by (induction a gs b rule: numbered.induct) auto

lemma numbered_le: "numbered a gs b \<Longrightarrow> a \<le> b"
  by (induction a gs b rule: numbered.induct) auto

lemma numbered_snoc:
  "numbered a gs b \<Longrightarrow> b < unat s \<Longrightarrow> ops_ok ops \<Longrightarrow> unat s + length ops - 1 \<le> c \<Longrightarrow> numbered a (gs @ [(s, ops)]) c"
  by (induction a gs b rule: numbered.induct) auto

lemma numbered_prefix: "numbered a (gs @ gs') b \<Longrightarrow> numbered a gs b"
  by (induction gs arbitrary: a) (auto dest: numbered_le)

lemma group_updates_simps [simp]:
  "group_updates [] = []" "group_updates ((s, ops) # gs) = updates s ops @ group_updates gs"
  "group_updates (gs @ gs') = group_updates gs @ group_updates gs'"
  by (simp_all add: group_updates_def)

text \<open>Updates that a memtable may hold: their lengths and numbers fit, and the numbers go up to \<open>n\<close>.\<close>

definition good_updates :: "update list \<Rightarrow> nat \<Rightarrow> bool" where
  "good_updates us n \<longleftrightarrow> increasing us \<and> (\<forall>e \<in> set us. upd_ok e \<and> unat (upd_seq e) \<le> n)"

lemma numbered_updates:
  "numbered a gs b \<Longrightarrow> b < 2 ^ 56 \<Longrightarrow> good_updates (group_updates gs) b \<and> (\<forall>e \<in> set (group_updates gs). a < unat (upd_seq e))"
proof (induction a gs b rule: numbered.induct)
  case (2 a s ops gs b)
  let ?c = "unat s + length ops - 1"
  have ih: "good_updates (group_updates gs) b" "\<forall>e \<in> set (group_updates gs). ?c < unat (upd_seq e)"
    and c: "?c \<le> b" "a < unat s" "ops_ok ops"
    using 2 numbered_le by auto
  then have n: "unat s + length ops \<le> 2 ^ 56" using 2(3) by linarith
  have new: "unat s \<le> unat (upd_seq e) \<and> unat (upd_seq e) < unat s + length ops \<and> upd_ok e" if "e \<in> set (updates s ops)" for e
    using updates_seqs [OF n that] updates_ok [OF n _ that] c(3) by (auto simp: ops_ok_def)
  have "upd_seq e < upd_seq e'" if "e \<in> set (updates s ops)" "e' \<in> set (group_updates gs)" for e e'
    using new [OF that(1)] ih(2) that(2) unfolding word_less_nat_alt by fastforce
  then have "good_updates (group_updates ((s, ops) # gs)) b"
    using ih(1) new c updates_increasing [OF n] unfolding good_updates_def
    by (fastforce simp: sorted_wrt_append)
  then show ?case using new ih(2) c(1,2) by fastforce
qed (simp add: good_updates_def)

lemma good_updates_append: "good_updates (us @ vs) n \<Longrightarrow> good_updates us n \<and> good_updates vs n"
  by (auto simp: good_updates_def sorted_wrt_append)

lemma add_good_updates:
  assumes "mt_holds BytewiseComparator mt es" and "good_updates (es @ es') n"
  shows "\<exists>mt'. foldl add_update (Some (Inr mt)) es' = Some (Inr mt') \<and> mt_holds BytewiseComparator mt' (es @ es')"
  using add_updates [OF assms(1), of es'] assms(2) by (auto simp: good_updates_def)

lemma mt_holds_new: "mt_holds BytewiseComparator (MemTable_Ref (MemTable_make BytewiseComparator)) []"
  using mt_holds_make [of BytewiseComparator] by (simp add: mt_holds_def MemTable_Ref_def)

section \<open>Replaying a log\<close>

text \<open>The tables written so far and the memtable being filled hold the updates \<open>us\<close>, in this order.\<close>

definition recovered :: "recovery \<Rightarrow> update list \<Rightarrow> bool" where
  "recovered v us \<longleftrightarrow> rc_status v = Status_OK \<and> rc_compactions v = length (rc_level0 v) \<and>
     (\<exists>ess es. list_all2 (mt_holds BytewiseComparator) (rc_level0 v) ess \<and> us = concat ess @ es \<and>
        (case rc_mem v of None \<Rightarrow> es = [] | Some m \<Rightarrow> mt_holds BytewiseComparator m es))"

lemma scast_count: "n < 2 ^ 31 \<Longrightarrow> (scast (of_nat n :: u32) :: u64) = of_nat n"
proof -
  assume n: "n < 2 ^ 31"
  have high: "\<not> bit n k" if "31 \<le> k" for k
  proof -
    have "n < 2 ^ k" using n power_increasing [OF that, of "2::nat"] by linarith
    then show ?thesis by (simp add: bit_iff_odd)
  qed
  show ?thesis
  proof (rule bit_word_eqI)
    fix k assume "k < LENGTH(64)"
    then show "bit (scast (of_nat n :: u32) :: u64) k = bit (of_nat n :: u64) k"
      using high [of 31] high [of k] by (cases "k < 31") (simp_all add: bit_simps min_def)
  qed
qed

lemma last_seq_eq:
  assumes "0 < unat s" and "unat s + n \<le> 2 ^ 56"
  shows "unat (s + of_nat n - 1 :: u64) = unat s + n - 1"
proof -
  have "s + of_nat n - 1 = (of_nat (unat s + n - 1) :: u64)"
    using assms(1) by (simp add: of_nat_diff)
  then show ?thesis using assms(2) by (simp add: unat_of_nat take_bit_nat_eq_self del: of_nat_diff)
qed

lemma Count_group: "length ops < 2 ^ 31 \<Longrightarrow> (scast (Count (batch s ops)) :: u64) = of_nat (length ops)"
  by (simp add: scast_count)

lemma SetContents_batch: "SetContents (batch s ops) = Inr (batch s ops)"
  using length_batch [of s ops] by (simp add: SetContents_def)

lemma recover_record_ok:
  assumes rec: "recovered v us" and good: "good_updates (us @ updates s ops) n" and ops: "ops_ok ops"
    and seq: "0 < unat s" "unat s + length ops \<le> 2 ^ 56" and flush: "\<And>m. wl m = Status_OK"
  shows "\<exists>v'. recover_record paranoid wbs usage wl (batch s ops) v = Some (Inr (Inr v')) \<and>
    recovered v' (us @ updates s ops) \<and> unat (rc_max_sequence v') = max (unat (rc_max_sequence v)) (unat s + length ops - 1)"
proof -
  let ?mem = "case rc_mem v of None \<Rightarrow> MemTable_Ref (MemTable_make BytewiseComparator) | Some m \<Rightarrow> m"
  from rec obtain ess es where v: "rc_status v = Status_OK" "rc_compactions v = length (rc_level0 v)"
    and l0: "list_all2 (mt_holds BytewiseComparator) (rc_level0 v) ess" and us: "us = concat ess @ es"
    and mem: "case rc_mem v of None \<Rightarrow> es = [] | Some m \<Rightarrow> mt_holds BytewiseComparator m es"
    by (auto simp: recovered_def)
  have "mt_holds BytewiseComparator ?mem es" using mem mt_holds_new by (cases "rc_mem v") auto
  moreover have "good_updates (es @ updates s ops) n"
    using good us good_updates_append [of "concat ess" "es @ updates s ops" n] by simp
  ultimately obtain mt where ins: "foldl add_update (Some (Inr ?mem)) (updates s ops) = Some (Inr mt)"
    and mt: "mt_holds BytewiseComparator mt (es @ updates s ops)" using add_good_updates by blast
  have fit: "\<forall>op \<in> set ops. op_fits op" "length ops < 2 ^ 31" using ops by (auto simp: ops_ok_def)
  let ?last = "s + of_nat (length ops) - 1 :: u64"
  define w where "w = v\<lparr>rc_status := Status_OK, rc_mem := Some mt,
    rc_max_sequence := if rc_max_sequence v < ?last then ?last else rc_max_sequence v\<rparr>"
  define f where "f = (WriteLevel0 wl mt (w\<lparr>rc_compactions := rc_compactions w + 1\<rparr>))\<lparr>rc_mem := None\<rparr>"
  have r: "recover_record paranoid wbs usage wl (batch s ops) v = Some (Inr (Inr (if wbs < usage mt then f else w)))"
    unfolding recover_record_def SetContents_batch sum.case Let_def InsertInto_batch [OF fit(1)] prod.case ins
      Sequence_batch Count_group [OF fit(2)]
    by (simp add: MaybeIgnoreError_def Status_ok_OK WriteLevel0_def flush f_def w_def)
  have m: "unat (rc_max_sequence w) = max (unat (rc_max_sequence v)) (unat s + length ops - 1)"
    using last_seq_eq [OF seq] by (simp add: w_def word_less_nat_alt max_def)
  have w: "recovered w (us @ updates s ops)"
    unfolding recovered_def w_def using v(2) l0 us mt by (auto intro!: exI [of _ ess])
  have f: "recovered f (us @ updates s ops)"
    unfolding recovered_def f_def w_def using v(2) l0 us mt
    by (auto simp: WriteLevel0_def flush Status_ok_OK list_all2_appendI intro!: exI [of _ "ess @ [es @ updates s ops]"])
  have "rc_max_sequence f = rc_max_sequence w" by (simp add: f_def WriteLevel0_def)
  with r m w f show ?thesis by (cases "wbs < usage mt") simp_all
qed

lemma new_reports_same: "lr_reporter r' = lr_reporter r \<Longrightarrow> new_reports r r' = []"
  by (simp add: new_reports_def split: option.splits)

lemma note_no_reports [simp]: "note_reports p [] st = st"
  by (simp add: note_reports_def)

lemma recovered_status: "recovered v us \<Longrightarrow> v\<lparr>rc_status := rc_status v\<rparr> = v \<and> Status_ok (rc_status v)"
  by (simp add: recovered_def Status_ok_OK)

lemma RecoverLogFile_loop_ok:
  assumes "reads r (map group_record gs) r'" and "ReadRecord r' = (None, r'')" and "lr_reporter r'' = lr_reporter r'"
    and "recovered v us" and "good_updates (us @ group_updates gs) n" and "numbered a gs b" and "b < 2 ^ 56"
    and "\<And>m. wl m = Status_OK" and "a \<le> unat (rc_max_sequence v)"
  shows "\<exists>v'. RecoverLogFile_loop paranoid wbs usage wl r v = Some (Inr v') \<and>
    recovered v' (us @ group_updates gs) \<and> unat (rc_max_sequence v') \<le> max (unat (rc_max_sequence v)) b \<and>
    numbered a gs (unat (rc_max_sequence v'))"
  using assms(1,4-7,9)
proof (induction gs arbitrary: r v us a)
  case Nil
  then have "RecoverLogFile_loop paranoid wbs usage wl r v = Some (Inr v)"
    using assms(2,3) recovered_status [of v us] by (subst RecoverLogFile_loop.simps) (simp add: new_reports_same)
  with Nil show ?case by auto
next
  case (Cons g gs)
  obtain s ops where g: "g = (s, ops)" by (cases g)
  from Cons.prems(1) obtain r1 where r1: "ReadRecord r = (Some (batch s ops), r1)" "lr_reporter r1 = lr_reporter r"
    "reads r1 (map group_record gs) r'" by (auto simp: g group_record_def [of "(s, ops)"])
  have num: "a < unat s" "ops_ok ops" "numbered (unat s + length ops - 1) gs b" using Cons.prems(4) g by auto
  have "unat s + length ops - 1 < 2 ^ 56" using numbered_le [OF num(3)] Cons.prems(5) by simp
  then have seq: "0 < unat s" "unat s + length ops \<le> 2 ^ 56" using num(1) by linarith+
  have good: "good_updates (us @ updates s ops) n" 
    using Cons.prems(3) good_updates_append [of "us @ updates s ops" "group_updates gs" n] by (simp add: g)
  from recover_record_ok [where wl = wl and paranoid = paranoid and wbs = wbs and usage = usage,
      OF Cons.prems(2) good num(2) seq] assms(8) obtain v1 where
    v1: "recover_record paranoid wbs usage wl (batch s ops) v = Some (Inr (Inr v1))"
    "recovered v1 (us @ updates s ops)"
    "unat (rc_max_sequence v1) = max (unat (rc_max_sequence v)) (unat s + length ops - 1)" by blast
  have m1: "unat s + length ops - 1 \<le> unat (rc_max_sequence v1)" using v1(3) by simp
  have eq: "RecoverLogFile_loop paranoid wbs usage wl r v = RecoverLogFile_loop paranoid wbs usage wl r1 v1"
    using recovered_status [OF Cons.prems(2)] length_batch [of s ops] r1 v1(1)
    by (subst RecoverLogFile_loop.simps) (simp add: Let_def new_reports_same kHeader_def)
  from Cons.IH [OF r1(3) v1(2) _ num(3) Cons.prems(5) m1] Cons.prems(3) obtain v' where
    "RecoverLogFile_loop paranoid wbs usage wl r1 v1 = Some (Inr v')"
    "recovered v' (us @ updates s ops @ group_updates gs)" "unat (rc_max_sequence v') \<le> max (unat (rc_max_sequence v1)) b"
    "numbered (unat s + length ops - 1) gs (unat (rc_max_sequence v'))" by (auto simp: g)
  then show ?case using eq num g v1(3) numbered_le [OF num(3)] by auto
qed

section \<open>Groups of writers\<close>

text \<open>What a queued writer asks for: a batch built with the operations of \<open>WriteBatch\<close>, or nothing.\<close>

definition asks :: "Writer \<Rightarrow> wb_op list \<Rightarrow> bool" where
  "asks w ops \<longleftrightarrow> ops_ok ops \<and> (case w_batch w of None \<Rightarrow> ops = [] | Some b \<Rightarrow> \<exists>seq. b = batch seq ops)"

definition writer_valid :: "Writer \<Rightarrow> bool" where "writer_valid w \<longleftrightarrow> (\<exists>ops. asks w ops)"

lemma length_op_record: "1 \<le> length (op_record op)"
  by (cases op) auto

lemma length_ops_le: "length ops \<le> length (batch seq ops)"
proof -
  have "length ops \<le> length (concat (map op_record ops))"
  proof (induction ops)
    case (Cons op ops)
    then show ?case using add_mono [OF length_op_record [of op]] by simp
  qed simp
  then show ?thesis by (simp add: batch_def)
qed

lemma Count_batch_0: "Count (batch 0 []) = 0" by simp

definition grouped :: "Writer list \<Rightarrow> wb_op list list \<Rightarrow> bool" where
  "grouped ws opss \<longleftrightarrow> list_all2 asks ws opss"

lemma grouped_snoc: "grouped ws opss \<Longrightarrow> asks w ops \<Longrightarrow> grouped (ws @ [w]) (opss @ [ops])"
  by (simp add: grouped_def list_all2_appendI)

text \<open>What the loop has collected: nothing beyond the first batch yet, or a bounded group in \<open>tmp_batch_\<close>.\<close>

definition collected :: "wb_op list \<Rightarrow> nat \<Rightarrow> bool \<Rightarrow> bytes \<Rightarrow> wb_op list list \<Rightarrow> bool" where
  "collected ops0 max_size in_tmp tmp opss \<longleftrightarrow>
     (if in_tmp then tmp = batch 0 (concat opss) \<and> length (concat opss) \<le> max_size
      else tmp = batch 0 [] \<and> concat opss = ops0)"

lemma DBImpl_BuildBatchGroup_loop_ok:
  assumes "\<forall>w \<in> set ws. writer_valid w" and "grouped pre opss" and "pre \<noteq> []"
    and "collected ops0 max_size in_tmp tmp opss" and "length (concat opss) \<le> sz"
  shows "\<exists>in_tmp' tmp' pre' opss'. prefix pre' ws \<and> grouped (pre @ pre') (opss @ opss') \<and>
    DBImpl_BuildBatchGroup_loop (batch sq ops0) fs max_size ws sz in_tmp tmp (w_id (last pre)) =
      Inr (in_tmp', tmp', w_id (last (pre @ pre'))) \<and> collected ops0 max_size in_tmp' tmp' (opss @ opss')"
  using assms
proof (induction ws arbitrary: pre opss sz in_tmp tmp)
  case Nil
  then show ?case by (intro exI [of _ in_tmp] exI [of _ tmp] exI [of _ "[]"]) simp
next
  case (Cons w ws)
  let ?loop = "DBImpl_BuildBatchGroup_loop (batch sq ops0) fs max_size"
  have stop: ?case if "?loop (w # ws) sz in_tmp tmp (w_id (last pre)) = Inr (in_tmp, tmp, w_id (last pre))"
    using that Cons.prems by (intro exI [of _ in_tmp] exI [of _ tmp] exI [of _ "[]"]) simp
  have go: ?case if eq: "?loop (w # ws) sz in_tmp tmp (w_id (last pre)) = ?loop ws sz' in_tmp' tmp' (w_id w)"
    and a: "asks w ops" and c: "collected ops0 max_size in_tmp' tmp' (opss @ [ops])"
    and l: "length (concat (opss @ [ops])) \<le> sz'" for sz' in_tmp' tmp' ops
  proof -
    have "\<exists>in_tmp'' tmp'' pre' opss'. prefix pre' ws \<and> grouped ((pre @ [w]) @ pre') ((opss @ [ops]) @ opss') \<and>
      ?loop ws sz' in_tmp' tmp' (w_id (last (pre @ [w]))) = Inr (in_tmp'', tmp'', w_id (last ((pre @ [w]) @ pre'))) \<and>
      collected ops0 max_size in_tmp'' tmp'' ((opss @ [ops]) @ opss')"
      by (rule Cons.IH) (use Cons.prems grouped_snoc [OF Cons.prems(2) a] c l in auto)
    then obtain in_tmp'' tmp'' pre' opss' where "prefix pre' ws" "grouped (pre @ w # pre') (opss @ ops # opss')"
      "?loop ws sz' in_tmp' tmp' (w_id w) = Inr (in_tmp'', tmp'', w_id (last (pre @ w # pre')))"
      "collected ops0 max_size in_tmp'' tmp'' (opss @ ops # opss')" by auto
    then show ?thesis unfolding eq
      by (intro exI [of _ in_tmp''] exI [of _ tmp''] exI [of _ "w # pre'"] exI [of _ "ops # opss'"]) simp
  qed
  obtain ops where a: "asks w ops" using Cons.prems(1) by (auto simp: writer_valid_def)
  show ?case
  proof (cases "w_sync w \<and> \<not> fs")
    case True
    then show ?thesis by (intro stop) simp
  next
    case False
    show ?thesis
    proof (cases "w_batch w")
      case None
      then have "ops = []" using a by (simp add: asks_def)
      with None False a show ?thesis by (intro go [of sz in_tmp tmp ops]) (use Cons.prems in \<open>auto simp: collected_def\<close>)
    next
      case (Some b)
      then obtain seq where b: "b = batch seq ops" using a by (auto simp: asks_def)
      show ?thesis
      proof (cases "max_size < sz + ApproximateSize b")
        case True
        then show ?thesis using False Some by (intro stop) (simp add: Let_def)
      next
        case room: False
        show ?thesis
        proof (rule go [OF _ a])
          show "?loop (w # ws) sz in_tmp tmp (w_id (last pre)) =
              ?loop ws (sz + ApproximateSize b) True (batch 0 (concat (opss @ [ops]))) (w_id w)"
            using False Some room Cons.prems(4)
            by (cases in_tmp; cases fs) (simp_all add: Let_def collected_def b Append_batch)
          show "length (concat (opss @ [ops])) \<le> sz + ApproximateSize b"
            using Cons.prems(5) length_ops_le [of ops seq] by (simp add: ApproximateSize_def b)
          then show "collected ops0 max_size True (batch 0 (concat (opss @ [ops]))) (opss @ [ops])"
            using room by (simp add: collected_def)
        qed
      qed
    qed
  qed
qed

lemma DBImpl_BuildBatchGroup_ok:
  assumes "db_writers d = w # ws" and "\<forall>w \<in> set (db_writers d). writer_valid w" and "w_batch w \<noteq> None"
    and "db_tmp_batch d = WriteBatch_Clear"
  shows "\<exists>seq in_tmp tmp pre opss. prefix pre (db_writers d) \<and> pre \<noteq> [] \<and> grouped pre opss \<and>
    DBImpl_BuildBatchGroup d = Inr (batch seq (concat opss), in_tmp, tmp, w_id (last pre)) \<and>
    (\<not> in_tmp \<longrightarrow> tmp = WriteBatch_Clear) \<and> length (concat opss) < 2 ^ 31"
proof -
  obtain ops0 sq where a: "asks w ops0" and b: "w_batch w = Some (batch sq ops0)"
    using assms by (fastforce simp: writer_valid_def asks_def)
  let ?sz = "length (batch sq ops0)"
  let ?max = "if ?sz \<le> 128 * 1024 then ?sz + 128 * 1024 else 1024 * 1024"
  have "grouped [w] [ops0]" using a by (simp add: grouped_def)
  moreover have "collected ops0 ?max False (batch 0 []) [ops0]" by (simp add: collected_def)
  moreover have "length (concat [ops0]) \<le> ?sz" using length_ops_le [of ops0 sq] by simp
  moreover have "\<forall>w \<in> set ws. writer_valid w" using assms(1,2) by simp
  ultimately obtain in_tmp tmp pre opss where p: "prefix pre ws" "grouped ([w] @ pre) ([ops0] @ opss)"
    "DBImpl_BuildBatchGroup_loop (batch sq ops0) (w_sync w) ?max ws ?sz False (batch 0 []) (w_id (last [w])) =
       Inr (in_tmp, tmp, w_id (last ([w] @ pre)))" and c: "collected ops0 ?max in_tmp tmp ([ops0] @ opss)"
    using DBImpl_BuildBatchGroup_loop_ok [of ws "[w]" "[ops0]" ops0 ?max False "batch 0 []" ?sz sq "w_sync w"] by blast
  define seq where "seq = (if in_tmp then 0 else sq)"
  have "DBImpl_BuildBatchGroup d = Inr (if in_tmp then tmp else batch sq ops0, in_tmp, tmp, w_id (last ([w] @ pre)))"
    using assms(1,4) b p(3) by (simp add: DBImpl_BuildBatchGroup_def ApproximateSize_def Let_def Clear_batch)
  moreover have "(if in_tmp then tmp else batch sq ops0) = batch seq (concat ([ops0] @ opss))"
    using c unfolding collected_def seq_def by (cases in_tmp) (simp_all only: if_True if_False)
  moreover have "length (concat ([ops0] @ opss)) < 2 ^ 31"
  proof (cases in_tmp)
    case True
    then have "length (concat ([ops0] @ opss)) \<le> ?max" using c by (simp add: collected_def)
    also have "?max < 2 ^ 31" by simp
    finally show ?thesis .
  next
    case False
    then have "concat ([ops0] @ opss) = ops0" using c unfolding collected_def by (simp only: if_False)
    then show ?thesis using a by (simp only: asks_def ops_ok_def)
  qed
  moreover have "\<not> in_tmp \<longrightarrow> tmp = WriteBatch_Clear" using c by (simp add: collected_def Clear_batch)
  ultimately show ?thesis
    using p(1,2) assms(1) by (intro exI [of _ seq] exI [of _ in_tmp] exI [of _ tmp] exI [of _ "w # pre"] exI [of _ "ops0 # opss"]) simp
qed

lemma grouped_ops_ok:
  assumes "grouped pre opss" and "length (concat opss) < 2 ^ 31"
  shows "ops_ok (concat opss)"
proof -
  have "\<forall>ops \<in> set opss. ops_ok ops"
    using assms(1) unfolding grouped_def by (induction rule: list_all2_induct) (auto simp: asks_def)
  then show ?thesis using assms(2) by (auto simp: ops_ok_def)
qed

end
