(* ===== verification/Db_Safety.thy ===== *)
theory Db_Safety
  imports Db_Replay
begin

text \<open>
  The write path as a step relation: writers join the queue, the front writer runs in its three parts, the
  background thread acts in between, and the process may stop at any point and open the database again from
  the log. The invariant says which updates the log and the memtable hold.
\<close>

section \<open>Steps\<close>

definition file_fresh :: "Status \<times> WritableFile \<Rightarrow> bool" where
  "file_fresh f \<longleftrightarrow> (Status_ok (fst f) \<longrightarrow> file_works (snd f) \<and> wf_data (snd f) = [])"

definition env_ok :: "room_env \<Rightarrow> bool" where
  "env_ok e \<longleftrightarrow> file_fresh (re_file e) \<and> (\<forall>w \<in> set (re_arrivals e). writer_valid w)"

text \<open>The log of a database as the environment serves it after a restart.\<close>

definition log_served :: "log_env \<Rightarrow> LogWriter \<Rightarrow> bool" where
  "log_served env lw \<longleftrightarrow>
     sf_data (snd (le_read env)) = written lw \<and> (\<forall>k. sf_status (snd (le_read env)) k = Status_OK) \<and>
     snd (le_size env) = length (written lw) \<and> file_works (snd (le_append env)) \<and> wf_data (snd (le_append env)) = written lw"

inductive db_step :: "(MemTable \<Rightarrow> nat) \<Rightarrow> nat \<Rightarrow> DBImpl \<Rightarrow> DBImpl \<Rightarrow> bool" for usage write_buffer_size where
  enqueue: "writer_valid w \<Longrightarrow> db_step usage write_buffer_size d (Write_enqueue w d)"
| lead: "db_phase d = W_Queued \<Longrightarrow> \<forall>e \<in> set es. env_ok e \<Longrightarrow> unat (db_last_sequence d) + 2 ^ 31 < 2 ^ 56 \<Longrightarrow>
    Write_lead usage write_buffer_size es d = Some (Inr d') \<Longrightarrow> db_step usage write_buffer_size d d'"
| unlocked: "Write_unlocked sync_status d = Some (Inr d') \<Longrightarrow> db_step usage write_buffer_size d d'"
| finish: "Write_finish d = Inr d' \<Longrightarrow> db_step usage write_buffer_size d d'"
| background: "env_ok e \<Longrightarrow> db_step usage write_buffer_size d (while_unlocked e d)"
| restart: "log_served env (db_log d) \<Longrightarrow> le_read env = (Status_OK, file) \<Longrightarrow> file_fresh lfile \<Longrightarrow>
    manifest_sequence \<le> db_last_sequence d \<Longrightarrow> max_sequence \<le> db_last_sequence d \<Longrightarrow>
    RecoverLogFile paranoid_checks reuse_logs write_buffer_size usage (\<lambda>_. Status_OK) env True max_sequence = Some (Inr rec) \<Longrightarrow>
    DB_Open rec log_number next_file_number manifest_sequence lfile manifest_status = (Status_OK, Some d') \<Longrightarrow>
    db_step usage write_buffer_size d d'"

text \<open>The databases that come out of opening an empty directory, through any steps.\<close>

inductive db_reach :: "(MemTable \<Rightarrow> nat) \<Rightarrow> nat \<Rightarrow> DBImpl \<Rightarrow> bool" for usage write_buffer_size where
  opened: "file_works f \<Longrightarrow> wf_data f = [] \<Longrightarrow>
    db_reach usage write_buffer_size (DBImpl_make (LogWriter_make f) n m (MemTable_Ref (MemTable_make BytewiseComparator)) 0)"
| stepped: "db_reach usage write_buffer_size d \<Longrightarrow> db_step usage write_buffer_size d d' \<Longrightarrow> db_reach usage write_buffer_size d'"

section \<open>The invariant\<close>

text \<open>
  \<open>gs\<close> are the groups in the memtable. \<open>lost\<close> is at most one group that reached the log but not the memtable,
  because syncing the log failed; the database then refuses every further write.
\<close>

definition phase_ok :: "DBImpl \<Rightarrow> group list \<Rightarrow> group list \<Rightarrow> bool" where
  "phase_ok d gs lost =
     (case db_phase d of
        W_Queued \<Rightarrow> numbered 0 (gs @ lost) (unat (db_last_sequence d)) \<and>
          (lost \<noteq> [] \<longrightarrow> \<not> Status_ok (db_bg_error d)) \<and> db_tmp_batch d = WriteBatch_Clear
      | W_Unlocked b in_tmp _ ls \<Rightarrow> lost = [] \<and> numbered 0 gs (unat (db_last_sequence d)) \<and> unat ls < 2 ^ 56 \<and>
          unat (db_last_sequence d) + 1 < 2 ^ 56 \<and>
          (\<exists>ops. b = batch (db_last_sequence d + 1) ops \<and> ops_ok ops \<and> unat ls = unat (db_last_sequence d) + length ops) \<and>
          (\<not> in_tmp \<longrightarrow> db_tmp_batch d = WriteBatch_Clear)
      | W_Applied s sync_error in_tmp _ ls \<Rightarrow> numbered 0 (gs @ lost) (unat ls) \<and> unat ls < 2 ^ 56 \<and>
          db_last_sequence d \<le> ls \<and> (lost \<noteq> [] \<longrightarrow> sync_error \<and> \<not> Status_ok s) \<and>
          (\<not> in_tmp \<longrightarrow> db_tmp_batch d = WriteBatch_Clear))"

definition imm_ok :: "MemTable option \<Rightarrow> nat \<Rightarrow> bool" where
  "imm_ok imm n = (case imm of None \<Rightarrow> True | Some m \<Rightarrow> \<exists>es. mt_holds BytewiseComparator m es \<and> good_updates es n)"

definition db_holds :: "DBImpl \<Rightarrow> group list \<Rightarrow> group list \<Rightarrow> bool" where
  "db_holds d gs lost \<longleftrightarrow> unat (db_last_sequence d) < 2 ^ 56 \<and> (\<forall>w \<in> set (db_writers d). writer_valid w) \<and>
     imm_ok (db_imm d) (unat (db_last_sequence d)) \<and> log_holds (db_log d) (map group_record (gs @ lost)) \<and>
     mt_holds BytewiseComparator (db_mem d) (group_updates gs) \<and> db_prev_log_number d = 0 \<and> phase_ok d gs lost"

lemma good_updates_mono: "good_updates es m \<Longrightarrow> m \<le> n \<Longrightarrow> good_updates es n"
  by (auto simp: good_updates_def)

lemma imm_ok_mono: "imm_ok imm m \<Longrightarrow> m \<le> n \<Longrightarrow> imm_ok imm n"
  using good_updates_mono by (auto simp: imm_ok_def split: option.splits)

lemma numbered_good: "numbered 0 gs b \<Longrightarrow> b < 2 ^ 56 \<Longrightarrow> good_updates (group_updates gs) b"
  by (rule numbered_updates [THEN conjunct1])

lemma while_unlocked_same [simp]:
  "db_phase (while_unlocked e d) = db_phase d" "db_last_sequence (while_unlocked e d) = db_last_sequence d"
  "db_log (while_unlocked e d) = db_log d" "db_mem (while_unlocked e d) = db_mem d"
  "db_tmp_batch (while_unlocked e d) = db_tmp_batch d" "db_prev_log_number (while_unlocked e d) = db_prev_log_number d"
  by (simp_all add: while_unlocked_def RecordBackgroundError_def)

lemma while_unlocked_writers: "db_writers (while_unlocked e d) = db_writers d @ re_arrivals e"
  by (simp add: while_unlocked_def RecordBackgroundError_def)

lemma while_unlocked_imm: "imm_ok (db_imm d) n \<Longrightarrow> imm_ok (db_imm (while_unlocked e d)) n"
  by (simp add: while_unlocked_def RecordBackgroundError_def imm_ok_def)

lemma while_unlocked_error:
  "\<not> Status_ok (db_bg_error d) \<Longrightarrow> \<not> Status_ok (db_bg_error (while_unlocked e d))"
  by (simp add: while_unlocked_def RecordBackgroundError_def)

lemma background_ok:
  assumes "db_holds d gs lost" and "env_ok e"
  shows "db_holds (while_unlocked e d) gs lost"
proof -
  have "phase_ok (while_unlocked e d) gs lost" if "phase_ok d gs lost"
    using that while_unlocked_error [of d e] by (cases "db_phase d") (simp_all add: phase_ok_def)
  then show ?thesis
    using assms by (auto simp: db_holds_def while_unlocked_writers while_unlocked_imm env_ok_def)
qed

lemma switch_ok:
  assumes "db_holds d gs []" and "db_phase d = W_Queued" and "file_works f" and "wf_data f = []"
  shows "db_holds (switch_memtable n f d) [] []"
  using assms numbered_good [of gs "unat (db_last_sequence d)"] log_holds_make [of f] mt_holds_new
  by (auto simp: db_holds_def phase_ok_def switch_memtable_def imm_ok_def)

lemma NewFileNumber_ok:
  "db_holds (snd (NewFileNumber d)) gs lost = db_holds d gs lost" "db_phase (snd (NewFileNumber d)) = db_phase d"
  "db_last_sequence (snd (NewFileNumber d)) = db_last_sequence d" "db_bg_error (snd (NewFileNumber d)) = db_bg_error d"
  "db_writers (snd (NewFileNumber d)) = db_writers d"
  by (simp_all add: NewFileNumber_def db_holds_def phase_ok_def cong: write_phase.case_cong)

lemma ReuseFileNumber_ok:
  "db_holds (ReuseFileNumber n d) gs lost = db_holds d gs lost" "db_phase (ReuseFileNumber n d) = db_phase d"
  "db_last_sequence (ReuseFileNumber n d) = db_last_sequence d" "db_writers (ReuseFileNumber n d) = db_writers d"
  by (simp_all add: ReuseFileNumber_def db_holds_def phase_ok_def cong: write_phase.case_cong)

lemma switch_memtable_same [simp]:
  "db_phase (switch_memtable n f d) = db_phase d" "db_last_sequence (switch_memtable n f d) = db_last_sequence d"
  "db_writers (switch_memtable n f d) = db_writers d"
  by (simp_all add: switch_memtable_def)

text \<open>What \<open>MakeRoomForWrite\<close> keeps from its start \<open>d\<close> to any later state of the loop.\<close>

definition room_kept :: "DBImpl \<Rightarrow> DBImpl \<Rightarrow> bool" where
  "room_kept d d' \<longleftrightarrow> (\<exists>gs lost. db_holds d' gs lost) \<and> db_phase d' = W_Queued \<and>
     db_last_sequence d' = db_last_sequence d \<and> prefix (db_writers d) (db_writers d')"

lemma room_kept_trans: "room_kept d d1 \<Longrightarrow> room_kept d1 d2 \<Longrightarrow> room_kept d d2"
  by (auto simp: room_kept_def intro: prefix_order.trans)

lemma room_kept_unlocked: "room_kept d d \<Longrightarrow> env_ok e \<Longrightarrow> room_kept d (while_unlocked e d)"
  using background_ok by (fastforce simp: room_kept_def while_unlocked_writers)

lemma room_kept_switch:
  assumes "room_kept d d" and "Status_ok (db_bg_error d)" and "file_works f" and "wf_data f = []"
  shows "room_kept d (switch_memtable n f (snd (NewFileNumber d)))"
proof -
  from assms obtain gs lost where h: "db_holds d gs lost" and q: "db_phase d = W_Queued" by (auto simp: room_kept_def)
  with assms(2) have "lost = []" by (auto simp: db_holds_def phase_ok_def)
  with h q assms(3,4) show ?thesis
    using switch_ok [of "snd (NewFileNumber d)" gs f n] by (auto simp: room_kept_def NewFileNumber_ok)
qed

lemma MakeRoomForWrite_ok:
  assumes "MakeRoomForWrite usage wbs es force allow_delay d = Some (Inr (s, d'))" and "room_kept d d"
    and "\<forall>e \<in> set es. env_ok e"
  shows "room_kept d d' \<and> (Status_ok s \<longrightarrow> Status_ok (db_bg_error d'))"
  using assms
proof (induction usage wbs es force allow_delay d rule: MakeRoomForWrite.induct)
  case (2 usage wbs e es force allow_delay d)
  have env: "env_ok e" "\<forall>e \<in> set es. env_ok e" using 2(6) by auto
  note w = room_kept_unlocked [OF 2(5) env(1)]
  have self: "room_kept d1 d1" if "room_kept d d1" for d1 using that by (auto simp: room_kept_def)
  note room = 2(4) [unfolded MakeRoomForWrite.simps]
  show ?case
  proof (cases "Status_ok (db_bg_error d)")
    case False
    then show ?thesis using room 2(5) by auto
  next
    case bg: True
    consider (delay) "allow_delay \<and> kL0_SlowdownWritesTrigger \<le> re_level0 e"
      | (roomy) "\<not> (allow_delay \<and> kL0_SlowdownWritesTrigger \<le> re_level0 e)" "\<not> force \<and> usage (db_mem d) \<le> wbs"
      | (full) "\<not> (allow_delay \<and> kL0_SlowdownWritesTrigger \<le> re_level0 e)" "\<not> (\<not> force \<and> usage (db_mem d) \<le> wbs)" by blast
    then show ?thesis
    proof cases
      case delay
      with bg room 2(1) [OF _ delay] env(2) self [OF w] room_kept_trans [OF w] show ?thesis by simp
    next
      case roomy
      with bg room 2(5) show ?thesis by simp
    next
      case full
      show ?thesis
      proof (cases "db_imm d \<noteq> None \<or> kL0_StopWritesTrigger \<le> re_level0 e")
        case True
        have "MakeRoomForWrite usage wbs es force allow_delay (while_unlocked e d) = Some (Inr (s, d'))"
          using room bg full True by (simp only: if_True if_False simp_thms)
        with bg full 2(2) [OF _ full True] env(2) self [OF w] room_kept_trans [OF w] show ?thesis by simp
      next
        case False
        obtain n d1 where n: "NewFileNumber d = (n, d1)" by fastforce
        obtain fs f where f: "re_file e = (fs, f)" by fastforce
        have prev: "db_prev_log_number d = 0" using 2(5) by (auto simp: room_kept_def db_holds_def)
        have d1: "d1 = snd (NewFileNumber d)" using n by simp
        show ?thesis
        proof (cases "Status_ok fs")
          case True
          with f env(1) have "file_works f" "wf_data f = []" by (simp_all add: env_ok_def file_fresh_def)
          then have sw: "room_kept d (switch_memtable n f d1)" unfolding d1 by (rule room_kept_switch [OF 2(5) bg])
          have eq: "MakeRoomForWrite usage wbs es False allow_delay (switch_memtable n f d1) = Some (Inr (s, d'))"
            using room bg full False prev n f True by (simp split: if_splits)
          show ?thesis
            using 2(3) [OF _ full False _ refl n [symmetric] refl f [symmetric] _ eq self [OF sw] env(2)] bg prev True
              room_kept_trans [OF sw] by simp
        next
          case fail: False
          then have "s = fs \<and> d' = ReuseFileNumber n d1" using room bg full False prev n f by (simp split: if_splits)
          then show ?thesis
            using fail 2(5) by (auto simp: room_kept_def d1 ReuseFileNumber_ok NewFileNumber_ok)
        qed
      qed
    qed
  qed
qed simp

section \<open>Every step keeps it\<close>

lemma dismiss_suffix: "dismiss self s l ws dn = Inr (ws', dn') \<Longrightarrow> suffix ws' ws"
  by (induction self s l ws dn rule: dismiss.induct) (auto simp: Let_def suffix_Cons split: if_splits)

lemma Write_return_fields:
  assumes "Write_return self s l d = Inr d'"
  shows "db_phase d' = W_Queued" "db_last_sequence d' = db_last_sequence d" "db_log d' = db_log d" "db_mem d' = db_mem d"
    "db_imm d' = db_imm d" "db_tmp_batch d' = db_tmp_batch d" "db_prev_log_number d' = db_prev_log_number d"
    "db_bg_error d' = db_bg_error d" "suffix (db_writers d') (db_writers d)"
  using assms dismiss_suffix by (auto simp: Write_return_def and_then_Inr_iff)

lemma Write_return_ok:
  assumes "Write_return self s l d = Inr d'" and "db_holds (d\<lparr>db_phase := W_Queued\<rparr>) gs lost"
  shows "db_holds d' gs lost"
  using assms(2) set_mono_suffix [OF Write_return_fields(9) [OF assms(1)]]
  by (auto simp: db_holds_def phase_ok_def Write_return_fields [OF assms(1)])

lemma enqueue_ok: "db_holds d gs lost \<Longrightarrow> writer_valid w \<Longrightarrow> db_holds (Write_enqueue w d) gs lost"
  by (simp add: db_holds_def Write_enqueue_def phase_ok_def cong: write_phase.case_cong)

lemma room_kept_self: "db_holds d gs lost \<Longrightarrow> db_phase d = W_Queued \<Longrightarrow> room_kept d d"
  by (auto simp: room_kept_def)

lemma unat_count_add:
  assumes "unat s + n < 2 ^ 56"
  shows "unat (s + of_nat n :: u64) = unat s + n"
proof -
  have "unat (of_nat n :: u64) = n" using assms by (simp add: unat_of_nat take_bit_nat_eq_self)
  then show ?thesis using assms by (subst unat_add_lem [THEN iffD1]) auto
qed

lemma numbered_group:
  assumes "numbered 0 gs (unat s)" and "ops_ok ops" and "unat s + 1 < 2 ^ 56"
  shows "numbered 0 (gs @ [(s + 1, ops)]) (unat s + length ops)"
proof (rule numbered_snoc [OF assms(1) _ assms(2)])
  have "unat (s + 1) = unat s + 1" using assms(3) unat_count_add [of s 1] by simp
  then show "unat s < unat (s + 1)" "unat (s + 1) + length ops - 1 \<le> unat s + length ops" by simp_all
qed

lemma lead_ok:
  assumes lead: "Write_lead usage wbs es d = Some (Inr d')" and h: "db_holds d gs lost" and q: "db_phase d = W_Queued"
    and env: "\<forall>e \<in> set es. env_ok e" and seq: "unat (db_last_sequence d) + 2 ^ 31 < 2 ^ 56"
  shows "\<exists>gs lost. db_holds d' gs lost"
proof -
  from lead obtain w ws s d1 where w: "db_writers d = w # ws"
    and room: "MakeRoomForWrite usage wbs es (w_batch w = None) (w_batch w \<noteq> None) d = Some (Inr (s, d1))"
    by (auto simp: Write_lead_def and_then_Inr_iff split: list.splits)
  from MakeRoomForWrite_ok [OF room room_kept_self [OF h q] env] obtain gs1 lost1 where h1: "db_holds d1 gs1 lost1"
    and q1: "db_phase d1 = W_Queued" and ls: "db_last_sequence d1 = db_last_sequence d"
    and pre: "prefix (db_writers d) (db_writers d1)" and bg: "Status_ok s \<longrightarrow> Status_ok (db_bg_error d1)"
    by (auto simp: room_kept_def)
  show ?thesis
  proof (cases "Status_ok s \<and> w_batch w \<noteq> None")
    case False
    then have "Write_return (w_id w) s (w_id w) d1 = Inr d'"
      using lead w room by (cases "w_batch w") (simp_all add: Write_lead_def Let_def)
    moreover have "db_holds (d1\<lparr>db_phase := W_Queued\<rparr>) gs1 lost1" using h1 q1 by (metis DBImpl.surjective DBImpl.update_convs(12))
    ultimately show ?thesis using Write_return_ok by blast
  next
    case True
    have lost: "lost1 = []" using True bg h1 q1 by (auto simp: db_holds_def phase_ok_def)
    obtain ws1 where w1: "db_writers d1 = w # ws1" using pre w by (auto simp: prefix_def)
    have "\<forall>w \<in> set (db_writers d1). writer_valid w" "db_tmp_batch d1 = WriteBatch_Clear"
      using h1 q1 by (auto simp: db_holds_def phase_ok_def)
    from DBImpl_BuildBatchGroup_ok [OF w1 this(1) conjunct2 [OF True] this(2)] obtain sq in_tmp tmp pre opss where
      g: "grouped pre opss" "DBImpl_BuildBatchGroup d1 = Inr (batch sq (concat opss), in_tmp, tmp, w_id (last pre))"
      "\<not> in_tmp \<longrightarrow> tmp = WriteBatch_Clear" and len: "length (concat opss) < 2 ^ 31" by blast
    let ?b = "batch (db_last_sequence d1 + 1) (concat opss)"
    have d': "d' = d1\<lparr>db_tmp_batch := (if in_tmp then ?b else tmp),
        db_phase := W_Unlocked ?b in_tmp (w_id (last pre)) (db_last_sequence d1 + of_nat (length (concat opss)))\<rparr>"
      using lead w room True g(2) Count_group [OF len]
      by (cases in_tmp) (auto simp: Write_lead_def Let_def simp del: length_concat)
    have "unat (db_last_sequence d1) + length (concat opss) < 2 ^ 56"
      unfolding ls using add_strict_left_mono [OF len] seq by (rule less_trans)
    from unat_count_add [OF this] this h1 q1 seq ls lost g(3) grouped_ops_ok [OF g(1) len]
    have "phase_ok d' gs1 []" by (auto simp: d' phase_ok_def db_holds_def simp del: length_concat)
    then have "db_holds d' gs1 []" using h1 lost by (simp add: d' db_holds_def)
    then show ?thesis by blast
  qed
qed

lemma Write_unlocked_run:
  assumes h: "db_holds d gs lost" and p: "db_phase d = W_Unlocked b in_tmp l ls" and w: "db_writers d = w # ws"
    and b: "b = batch (db_last_sequence d + 1) ops" and ops: "ops_ok ops" and n: "unat ls = unat (db_last_sequence d) + length ops"
  shows "\<exists>lw. if w_sync w \<and> \<not> Status_ok sync_status
    then let d' = d\<lparr>db_log := lw, db_phase := W_Applied sync_status True in_tmp l ls\<rparr> in
      Write_unlocked sync_status d = Some (Inr d') \<and> db_holds d' gs [(db_last_sequence d + 1, ops)]
    else \<exists>mt. let d' = d\<lparr>db_log := lw, db_mem := mt, db_phase := W_Applied Status_OK False in_tmp l ls\<rparr> in
      Write_unlocked sync_status d = Some (Inr d') \<and> db_holds d' (gs @ [(db_last_sequence d + 1, ops)]) []"
proof -
  let ?s = "db_last_sequence d + 1"
  from h p have lost: "lost = []" and num: "numbered 0 gs (unat (db_last_sequence d))"
    and less: "unat ls < 2 ^ 56" "unat (db_last_sequence d) + 1 < 2 ^ 56"
    and tmp: "\<not> in_tmp \<longrightarrow> db_tmp_batch d = WriteBatch_Clear"
    by (auto simp: db_holds_def phase_ok_def)
  note ls = n less
  have num': "numbered 0 (gs @ [(?s, ops)]) (unat ls)" using numbered_group [OF num ops ls(3)] ls(1) by simp
  obtain lw where add: "AddRecord (db_log d) b = Inr (Status_OK, lw)" and lw: "log_holds lw (map group_record (gs @ [(?s, ops)]))"
    using log_holds_add [of "db_log d" "map group_record gs" b] h lost b
    by (auto simp: db_holds_def group_record_def [of "(_, _)"])
  have "mt_holds BytewiseComparator (db_mem d) (group_updates gs)" using h by (simp add: db_holds_def)
  moreover have "good_updates (group_updates gs @ updates ?s ops) (unat ls)" using numbered_good [OF num' ls(2)] by simp
  ultimately obtain mt where mt: "foldl add_update (Some (Inr (db_mem d))) (updates ?s ops) = Some (Inr mt)"
    and holds: "mt_holds BytewiseComparator mt (group_updates (gs @ [(?s, ops)]))" using add_good_updates by fastforce
  have ins: "InsertInto b (db_mem d) = (Status_OK, Some (Inr mt))"
    using InsertInto_batch [of ops ?s] ops mt by (simp add: b ops_ok_def)
  have le: "db_last_sequence d \<le> ls" using ls(1) by (simp add: word_le_nat_alt)
  show ?thesis
  proof (cases "w_sync w \<and> \<not> Status_ok sync_status")
    case True
    let ?d = "d\<lparr>db_log := lw, db_phase := W_Applied sync_status True in_tmp l ls\<rparr>"
    have "Write_unlocked sync_status d = Some (Inr ?d)"
      using True p w add by (simp add: Write_unlocked_def Let_def Status_ok_OK)
    moreover have "db_holds ?d gs [(?s, ops)]" using h lw num' ls le True tmp by (simp add: db_holds_def phase_ok_def)
    ultimately show ?thesis using True by (auto simp: Let_def)
  next
    case False
    let ?d = "d\<lparr>db_log := lw, db_mem := mt, db_phase := W_Applied Status_OK False in_tmp l ls\<rparr>"
    have "Status_ok (if w_sync w then sync_status else Status_OK)" using False by (simp add: Status_ok_OK)
    then have "Write_unlocked sync_status d = Some (Inr ?d)"
      using False p w add ins by (simp add: Write_unlocked_def Let_def Status_ok_OK)
    moreover have "db_holds ?d (gs @ [(?s, ops)]) []" using h lw holds num' ls le tmp by (simp add: db_holds_def phase_ok_def)
    ultimately show ?thesis using False by (auto simp: Let_def)
  qed
qed

lemma unlocked_ok:
  assumes "Write_unlocked sync_status d = Some (Inr d')" and "db_holds d gs lost"
  shows "\<exists>gs lost. db_holds d' gs lost"
proof -
  from assms(1) obtain b in_tmp l ls w ws where p: "db_phase d = W_Unlocked b in_tmp l ls" and w: "db_writers d = w # ws"
    by (auto simp: Write_unlocked_def split: write_phase.splits list.splits)
  from assms(2) p obtain ops where "b = batch (db_last_sequence d + 1) ops" "ops_ok ops"
    "unat ls = unat (db_last_sequence d) + length ops" by (auto simp: db_holds_def phase_ok_def)
  from Write_unlocked_run [OF assms(2) p w this, of sync_status] assms(1) show ?thesis
    by (auto simp: Let_def split: if_splits)
qed

lemma finish_ok:
  assumes "Write_finish d = Inr d'" and h: "db_holds d gs lost"
  shows "db_holds d' gs lost"
proof -
  from assms(1) obtain s se in_tmp l ls w ws where p: "db_phase d = W_Applied s se in_tmp l ls" and w: "db_writers d = w # ws"
    by (auto simp: Write_finish_def split: write_phase.splits list.splits)
  let ?d = "if se then RecordBackgroundError s d else d"
  let ?e = "(if in_tmp then ?d\<lparr>db_tmp_batch := WriteBatch_Clear\<rparr> else ?d)\<lparr>db_last_sequence := ls\<rparr>"
  have r: "Write_return (w_id w) s l ?e = Inr d'" using assms(1) p w by (auto simp: Write_finish_def SetLastSequence_def Let_def)
  have ph: "numbered 0 (gs @ lost) (unat ls)" "unat ls < 2 ^ 56" "db_last_sequence d \<le> ls"
    "lost \<noteq> [] \<longrightarrow> se \<and> \<not> Status_ok s" "\<not> in_tmp \<longrightarrow> db_tmp_batch d = WriteBatch_Clear"
    using h p by (auto simp: db_holds_def phase_ok_def)
  have bg: "lost \<noteq> [] \<longrightarrow> \<not> Status_ok (db_bg_error ?d)" using ph(4) by (simp add: RecordBackgroundError_def)
  have same: "db_writers ?d = db_writers d" "db_imm ?d = db_imm d" "db_log ?d = db_log d" "db_mem ?d = db_mem d"
    "db_prev_log_number ?d = db_prev_log_number d" "db_tmp_batch ?d = db_tmp_batch d"
    by (simp_all add: RecordBackgroundError_def)
  have "imm_ok (db_imm d) (unat ls)" using h ph(3) imm_ok_mono by (auto simp: db_holds_def word_le_nat_alt)
  then have "db_holds (?e\<lparr>db_phase := W_Queued\<rparr>) gs lost"
    using h ph bg same by (cases in_tmp) (simp_all add: db_holds_def phase_ok_def)
  with r show ?thesis by (rule Write_return_ok)
qed

lemma opened_ok:
  assumes "log_holds lw (map group_record gs)" and "mt_holds BytewiseComparator m (group_updates gs)"
    and "numbered 0 gs (unat s)" and "unat s < 2 ^ 56"
  shows "db_holds (DBImpl_make lw n k m s) gs []"
  using assms by (simp add: db_holds_def phase_ok_def imm_ok_def DBImpl_make_def)

lemma new_db_ok:
  "file_works f \<Longrightarrow> wf_data f = [] \<Longrightarrow> unat s < 2 ^ 56 \<Longrightarrow>
   db_holds (DBImpl_make (LogWriter_make f) n k (MemTable_Ref (MemTable_make BytewiseComparator)) s) [] []"
  by (rule opened_ok) (simp_all add: log_holds_make mt_holds_new)

text \<open>Recovering the log of a database: every logged update is in a level-0 table or in the memtable.\<close>

definition rec_start :: "u64 \<Rightarrow> recovery" where
  "rec_start max_sequence = \<lparr>rc_status = Status_OK, rc_mem = None, rc_max_sequence = max_sequence, rc_compactions = 0,
     rc_save_manifest = False, rc_level0 = []\<rparr>"

lemma log_replayed:
  assumes "log_holds lw (map group_record gs)" and "numbered 0 gs b" and "b < 2 ^ 56"
    and "sf_data file = written lw" and "\<And>k. sf_status file k = Status_OK" and "\<And>m. wl m = Status_OK"
  shows "\<exists>v. RecoverLogFile_loop paranoid wbs usage wl (LogReader_make file True True 0) (rec_start ms) = Some (Inr v) \<and>
    recovered v (group_updates gs) \<and> unat (rc_max_sequence v) \<le> max (unat ms) b \<and> numbered 0 gs (unat (rc_max_sequence v))"
proof -
  let ?r = "LogReader_make file True True 0"
  have "reads_at (written lw @ []) ?r 0"
    unfolding reads_at_def using assms(4,5) by (intro conjI exI [of _ 0]) (simp_all add: LogReader_make_def)
  then obtain r' where r': "reads ?r (map group_record gs) r'" "reads_at (written lw) r' (length (written lw))"
    using assms(1) unfolding log_holds_def by (metis append_Nil2)
  from ReadRecord_eof [OF r'(2)] obtain r'' where e: "ReadRecord r' = (None, r'')" "lr_reporter r'' = lr_reporter r'" by blast
  have "recovered (rec_start ms) []" by (simp add: recovered_def rec_start_def)
  from RecoverLogFile_loop_ok [where wl = wl and paranoid = paranoid and wbs = wbs and usage = usage and n = b, OF r'(1) e this _ assms(2,3)]
    numbered_good [OF assms(2,3)] assms(6)
  show ?thesis by (simp add: rec_start_def)
qed

text \<open>The tables a recovery leaves: those written to level 0, oldest first, and the memtable that it hands on.\<close>

definition recovered_tables :: "recovery \<times> (LogWriter \<times> MemTable) option \<Rightarrow> MemTable list" where
  "recovered_tables rec = rc_level0 (fst rec) @ (case snd rec of None \<Rightarrow> [] | Some (_, m) \<Rightarrow> [m])"

definition tables_hold :: "MemTable list \<Rightarrow> update list \<Rightarrow> bool" where
  "tables_hold ms us \<longleftrightarrow> (\<exists>ess. list_all2 (mt_holds BytewiseComparator) ms ess \<and> us = concat ess)"

lemma tables_hold_single: "tables_hold [m] us \<longleftrightarrow> mt_holds BytewiseComparator m us"
  by (auto simp: tables_hold_def list_all2_Cons1)

lemma RecoverLogFile_ok:
  assumes loop: "RecoverLogFile_loop paranoid wbs usage wl (LogReader_make file True True 0) (rec_start ms) = Some (Inr v)"
    and rec: "recovered v us" and "le_read env = (Status_OK, file)" and wl: "\<And>m. wl m = Status_OK"
  shows "\<exists>v' ru. RecoverLogFile paranoid reuse wbs usage wl env last_log ms = Some (Inr (v', ru)) \<and>
    rc_status v' = Status_OK \<and> rc_max_sequence v' = rc_max_sequence v \<and> tables_hold (recovered_tables (v', ru)) us \<and>
    (\<forall>lw m. ru = Some (lw, m) \<longrightarrow> rc_level0 v' = [] \<and> lw = LogWriter_make_at (snd (le_append env)) (snd (le_size env)))"
proof -
  from rec obtain ess es where st: "rc_status v = Status_OK" and n: "rc_compactions v = length (rc_level0 v)"
    and l0: "list_all2 (mt_holds BytewiseComparator) (rc_level0 v) ess" and us: "us = concat ess @ es"
    and mem: "case rc_mem v of None \<Rightarrow> es = [] | Some m \<Rightarrow> mt_holds BytewiseComparator m es"
    by (auto simp: recovered_def)
  let ?ok = "reuse \<and> last_log \<and> rc_compactions v = 0 \<and> Status_ok (fst (le_size env)) \<and> Status_ok (fst (le_append env))"
  let ?lw = "LogWriter_make_at (snd (le_append env)) (snd (le_size env))"
  let ?m = "case rc_mem v of Some mem \<Rightarrow> mem | None \<Rightarrow> MemTable_Ref (MemTable_make BytewiseComparator)"
  note run = RecoverLogFile_def assms(3) loop [unfolded rec_start_def] st Status_ok_OK Let_def
  show ?thesis
  proof (cases ?ok)
    case True
    then have "RecoverLogFile paranoid reuse wbs usage wl env last_log ms = Some (Inr (v\<lparr>rc_mem := None\<rparr>, Some (?lw, ?m)))"
      by (simp add: run)
    moreover have "mt_holds BytewiseComparator ?m es" using mem mt_holds_new by (cases "rc_mem v") auto
    moreover have "rc_level0 v = []" "ess = []" using True n l0 by auto
    ultimately show ?thesis using us st by (simp add: recovered_tables_def tables_hold_single)
  next
    case False
    show ?thesis
    proof (cases "rc_mem v")
      case None
      then have "RecoverLogFile paranoid reuse wbs usage wl env last_log ms = Some (Inr (v, None))"
        using False by (simp add: run)
      moreover have "tables_hold (rc_level0 v) us" using l0 us mem None by (auto simp: tables_hold_def)
      ultimately show ?thesis using st by (simp add: recovered_tables_def)
    next
      case (Some m)
      let ?v = "(WriteLevel0 wl m v)\<lparr>rc_mem := None\<rparr>"
      have "RecoverLogFile paranoid reuse wbs usage wl env last_log ms = Some (Inr (?v, None))"
        using False Some by (simp add: run)
      moreover have "tables_hold (rc_level0 v @ [m]) us"
        unfolding tables_hold_def using l0 us mem Some by (intro exI [of _ "ess @ [es]"]) (simp add: list_all2_appendI)
      ultimately show ?thesis by (simp add: recovered_tables_def WriteLevel0_def wl Status_ok_OK)
    qed
  qed
qed

lemma db_holds_numbered: "db_holds d gs lost \<Longrightarrow> \<exists>b. numbered 0 (gs @ lost) b \<and> b < 2 ^ 56 \<and> unat (db_last_sequence d) \<le> b"
  by (cases "db_phase d") (auto simp: db_holds_def phase_ok_def word_le_nat_alt)

lemma db_log_recovered:
  assumes h: "db_holds d gs lost" and served: "log_served env (db_log d)" and rd: "le_read env = (Status_OK, file)"
    and ms: "ms \<le> db_last_sequence d" and wl: "\<And>m. wl m = Status_OK"
  shows "\<exists>v ru. RecoverLogFile paranoid reuse wbs usage wl env last_log ms = Some (Inr (v, ru)) \<and>
    rc_status v = Status_OK \<and> unat (rc_max_sequence v) < 2 ^ 56 \<and> numbered 0 (gs @ lost) (unat (rc_max_sequence v)) \<and>
    tables_hold (recovered_tables (v, ru)) (group_updates (gs @ lost)) \<and>
    (\<forall>lw m. ru = Some (lw, m) \<longrightarrow> rc_level0 v = [] \<and> log_holds lw (map group_record (gs @ lost)))"
proof -
  from db_holds_numbered [OF h] obtain b where b: "numbered 0 (gs @ lost) b" "b < 2 ^ 56" "unat (db_last_sequence d) \<le> b" by blast
  have log: "log_holds (db_log d) (map group_record (gs @ lost))" using h by (simp add: db_holds_def)
  from served rd have f: "sf_data file = written (db_log d)" "\<And>k. sf_status file k = Status_OK"
    "snd (le_size env) = length (written (db_log d))" "file_works (snd (le_append env))"
    "wf_data (snd (le_append env)) = written (db_log d)" by (auto simp: log_served_def)
  from log_replayed [where wl = wl and paranoid = paranoid and wbs = wbs and usage = usage and ms = ms, OF log b(1,2) f(1,2) wl]
  obtain v where v: "RecoverLogFile_loop paranoid wbs usage wl (LogReader_make file True True 0) (rec_start ms) = Some (Inr v)"
    "recovered v (group_updates (gs @ lost))" "unat (rc_max_sequence v) \<le> max (unat ms) b"
    "numbered 0 (gs @ lost) (unat (rc_max_sequence v))" by blast
  from RecoverLogFile_ok [where wl = wl and reuse = reuse and last_log = last_log, OF v(1,2) rd wl] obtain v' ru where
    r: "RecoverLogFile paranoid reuse wbs usage wl env last_log ms = Some (Inr (v', ru))" "rc_status v' = Status_OK"
    "rc_max_sequence v' = rc_max_sequence v" "tables_hold (recovered_tables (v', ru)) (group_updates (gs @ lost))"
    and lw: "\<forall>lw m. ru = Some (lw, m) \<longrightarrow> rc_level0 v' = [] \<and> lw = LogWriter_make_at (snd (le_append env)) (snd (le_size env))"
    by blast
  have "log_holds (LogWriter_make_at (snd (le_append env)) (snd (le_size env))) (map group_record (gs @ lost))"
    using log f(4,5,3) by (rule log_holds_reopen)
  moreover have "unat (rc_max_sequence v) < 2 ^ 56" using v(3) b ms by (simp add: word_le_nat_alt)
  ultimately show ?thesis using r lw v(4) by auto
qed

lemma restart_ok:
  assumes h: "db_holds d gs lost" and "log_served env (db_log d)" and "le_read env = (Status_OK, file)" and f: "file_fresh lfile"
    and man: "manifest_sequence \<le> db_last_sequence d" and "ms \<le> db_last_sequence d"
    and rec: "RecoverLogFile paranoid reuse wbs usage (\<lambda>_. Status_OK) env True ms = Some (Inr rec)"
    and op: "DB_Open rec n k manifest_sequence lfile st = (Status_OK, Some d')"
  shows "\<exists>gs lost. db_holds d' gs lost"
proof -
  obtain v ru where r: "rec = (v, ru)" by (cases rec)
  from db_log_recovered [where wl = "\<lambda>_. Status_OK" and paranoid = paranoid and reuse = reuse and wbs = wbs and
      usage = usage and last_log = True, OF assms(1-3,6)] rec r
  have v: "rc_status v = Status_OK" "unat (rc_max_sequence v) < 2 ^ 56" "numbered 0 (gs @ lost) (unat (rc_max_sequence v))"
    "tables_hold (recovered_tables (v, ru)) (group_updates (gs @ lost))"
    and lw: "\<And>lw m. ru = Some (lw, m) \<Longrightarrow> rc_level0 v = [] \<and> log_holds lw (map group_record (gs @ lost))" by auto
  define seq where "seq = (if manifest_sequence < rc_max_sequence v then rc_max_sequence v else manifest_sequence)"
  have "unat manifest_sequence < 2 ^ 56"
    using man h by (simp add: db_holds_def word_le_nat_alt)
  then have seq: "unat seq < 2 ^ 56" "numbered 0 (gs @ lost) (unat seq)"
    using v(2,3) numbered_mono [of 0 "gs @ lost" "unat (rc_max_sequence v)" "unat manifest_sequence"]
    by (auto simp: seq_def word_less_nat_alt)
  show ?thesis
  proof (cases ru)
    case None
    then have "d' = DBImpl_make (LogWriter_make (snd lfile)) k (k + 1) (MemTable_Ref (MemTable_make BytewiseComparator)) seq"
      and "Status_ok (fst lfile)"
      using op r v(1) by (auto simp: DB_Open_def Let_def Status_ok_OK seq_def split: if_splits)
    then show ?thesis
      using new_db_ok [of "snd lfile" seq k "k + 1"] f seq(1) by (auto simp: file_fresh_def)
  next
    case (Some p)
    obtain l m where p: "p = (l, m)" by (cases p)
    with Some have "d' = DBImpl_make l n k m seq"
      using op r v(1) by (auto simp: DB_Open_def Let_def Status_ok_OK seq_def split: if_splits)
    moreover have "mt_holds BytewiseComparator m (group_updates (gs @ lost))"
      using v(4) lw [of l m] Some p by (simp add: recovered_tables_def tables_hold_single)
    ultimately show ?thesis using opened_ok [of l "gs @ lost" m seq n k] lw [of l m] Some p seq by blast
  qed
qed

lemma db_reach_holds: "db_reach usage wbs d \<Longrightarrow> \<exists>gs lost. db_holds d gs lost"
proof (induction rule: db_reach.induct)
  case (opened f n m)
  then show ?case using new_db_ok [of f 0 n m] by auto
next
  case (stepped d d')
  then obtain gs lost where h: "db_holds d gs lost" by blast
  from stepped(2) show ?case
  proof cases
    case (enqueue w)
    then show ?thesis using enqueue_ok [OF h] by blast
  next
    case (lead es)
    then show ?thesis using lead_ok [OF _ h] by blast
  next
    case (unlocked sync_status)
    then show ?thesis using unlocked_ok [OF _ h] by blast
  next
    case finish
    then show ?thesis using finish_ok [OF _ h] by blast
  next
    case (background e)
    then show ?thesis using background_ok [OF h] by blast
  next
    case restart
    then show ?thesis using restart_ok [OF h] by blast
  qed
qed

section \<open>Looking keys up\<close>

text \<open>A lookup that asks one table after the other until one of them knows the key.\<close>

fun look_through :: "MemTable list \<Rightarrow> LookupKey \<Rightarrow> mt_answer result option" where
  "look_through [] lk = Some (Inr Not_here)"
| "look_through (m # ms) lk = (case MemTable_Get m lk of Some (Inr Not_here) \<Rightarrow> look_through ms lk | r \<Rightarrow> r)"

lemma find_append: "find P (xs @ ys) = (case find P xs of None \<Rightarrow> find P ys | Some x \<Rightarrow> Some x)"
  by (induction xs) auto

lemma newest_append:
  "newest u s (es @ es') = (case newest u s es' of None \<Rightarrow> newest u s es | Some e \<Rightarrow> Some e)"
  unfolding newest_def by (simp add: find_append)

lemma answer_Not_here: "answer r = Not_here \<longleftrightarrow> r = None"
  by (cases r) (auto simp: answer_def)

lemma Get_good:
  assumes "mt_holds BytewiseComparator mt es" and "good_updates es n" and "s \<le> kMaxSequenceNumber"
    and "length u + 8 < 2 ^ 32" and "LookupKey_make u s = Inr lk"
  shows "MemTable_Get mt lk = Some (Inr (answer (newest u s es)))"
  using bytewise.get_newest [OF assms(1) _ _ assms(3-5)] assms(2) by (auto simp: good_updates_def)

lemma look_through_tables:
  assumes "tables_hold ms us" and "good_updates us n" and "s \<le> kMaxSequenceNumber"
    and "length u + 8 < 2 ^ 32" and "LookupKey_make u s = Inr lk"
  shows "look_through (rev ms) lk = Some (Inr (answer (newest u s us)))"
  using assms(1,2)
proof (induction ms arbitrary: us rule: rev_induct)
  case Nil
  then show ?case by (simp add: tables_hold_def newest_def answer_def)
next
  case (snoc m ms)
  from snoc.prems(1) obtain ess es where h: "list_all2 (mt_holds BytewiseComparator) ms ess"
    "mt_holds BytewiseComparator m es" "us = concat ess @ es"
    unfolding tables_hold_def by (auto simp: list_all2_append1 list_all2_Cons1)
  have good: "good_updates (concat ess) n" "good_updates es n"
    using snoc.prems(2) good_updates_append [of "concat ess" es n] h(3) by simp_all
  have m: "MemTable_Get m lk = Some (Inr (answer (newest u s es)))" by (rule Get_good [OF h(2) good(2) assms(3-5)])
  have ms: "look_through (rev ms) lk = Some (Inr (answer (newest u s (concat ess))))"
    by (rule snoc.IH [OF _ good(1)]) (use h(1) in \<open>auto simp: tables_hold_def\<close>)
  show ?case
  proof (cases "newest u s es")
    case None
    then have "answer (newest u s es) = Not_here" by (simp add: answer_def)
    with m ms None h(3) show ?thesis by (simp add: newest_append)
  next
    case (Some e)
    then have "answer (newest u s es) \<noteq> Not_here" by (simp add: answer_Not_here)
    with m Some h(3) show ?thesis by (cases "answer (newest u s es)") (simp_all add: newest_append)
  qed
qed

end
