(* ===== verification/Level_Db.thy ===== *)
theory Level_Db
  imports Db_Safety KV_Store
begin

text \<open>
  The class \<open>LevelDB\<close> of \<open>database/db.h\<close>, the second implementation of \<open>DBType\<close>: each call builds a write batch
  and hands it to \<open>DBImpl::Write\<close>, or looks the key up. A call is modelled as it runs when no other writer is in
  the queue. The constructor leaves \<open>write_options_\<close> at its default, so no write is synced whatever its argument
  \<open>sync\<close> says.
\<close>

section \<open>A write that meets nobody\<close>

definition DBImpl_Write ::
  "(MemTable \<Rightarrow> nat) \<Rightarrow> nat \<Rightarrow> room_env list \<Rightarrow> Status \<Rightarrow> Writer \<Rightarrow> DBImpl \<Rightarrow> (Status \<times> DBImpl) result option" where
  "DBImpl_Write usage write_buffer_size es sync_status w d =
     (let returned = (\<lambda>d. case db_done d (w_id w) of Some s \<Rightarrow> Inr (s, d) | None \<Rightarrow> Inl Assert_failed) in
      case Write_lead usage write_buffer_size es (Write_enqueue w d) of
        None \<Rightarrow> None
      | Some (Inl e) \<Rightarrow> Some (Inl e)
      | Some (Inr d) \<Rightarrow>
          if db_phase d = W_Queued then Some (returned d)
          else
            (case Write_unlocked sync_status d of
               None \<Rightarrow> None
             | Some (Inl e) \<Rightarrow> Some (Inl e)
             | Some (Inr d) \<Rightarrow> Some (and_then (Write_finish d) returned)))"

section \<open>The class\<close>

definition FLAGS_write_buffer_size :: nat where "FLAGS_write_buffer_size = 64 * 1024 * 1024"

definition LevelDB_Write :: "(MemTable \<Rightarrow> nat) \<Rightarrow> room_env list \<Rightarrow> bytes \<Rightarrow> DBImpl \<Rightarrow> (Status \<times> DBImpl) result option" where
  "LevelDB_Write usage es b d =
     DBImpl_Write usage FLAGS_write_buffer_size es Status_OK \<lparr>w_id = 0, w_batch = Some b, w_sync = False\<rparr> d"

definition ok_of :: "(Status \<times> DBImpl) result option \<Rightarrow> (bool \<times> DBImpl) result option" where
  "ok_of = map_option (\<lambda>r. and_then r (\<lambda>(s, d). Inr (Status_ok s, d)))"

definition LevelDB_Put :: "(MemTable \<Rightarrow> nat) \<Rightarrow> room_env list \<Rightarrow> DBImpl \<Rightarrow> bytes \<Rightarrow> bytes \<Rightarrow> (bool \<times> DBImpl) result option" where
  "LevelDB_Put usage es d key val = ok_of (LevelDB_Write usage es (WriteBatch_Put WriteBatch_Clear key val) d)"

definition LevelDB_Update :: "(MemTable \<Rightarrow> nat) \<Rightarrow> room_env list \<Rightarrow> DBImpl \<Rightarrow> bytes \<Rightarrow> bytes \<Rightarrow> (bool \<times> DBImpl) result option" where
  "LevelDB_Update usage es d key val = ok_of (LevelDB_Write usage es (WriteBatch_Put WriteBatch_Clear key val) d)"



text \<open>The values of a batch; the size is an \<open>int\<close> on its way to \<open>Slice\<close>.\<close>

fun LevelDB_PutBatch_loop :: "bytes \<Rightarrow> bytes list \<Rightarrow> Meta list \<Rightarrow> buffer \<Rightarrow> nat \<Rightarrow> bytes result" where
  "LevelDB_PutBatch_loop b [] ms buf cap = Inr b"
| "LevelDB_PutBatch_loop b (k # ks) [] buf cap = Inl Out_of_bounds"
| "LevelDB_PutBatch_loop b (k # ks) (m # ms) buf cap =
     (let val_size = unat (scast (m_value_size m) :: u64);
          val = unat (file_offset (m_addr m)) + unat (m_key_size m) in
      and_then (check (val + val_size \<le> cap) Out_of_bounds) (\<lambda>_.
        LevelDB_PutBatch_loop (WriteBatch_Put b k (rd buf val val_size)) ks ms buf cap))"

definition LevelDB_PutBatch ::
  "(MemTable \<Rightarrow> nat) \<Rightarrow> room_env list \<Rightarrow> DBImpl \<Rightarrow> bytes list \<Rightarrow> Meta list \<Rightarrow> buffer \<Rightarrow> nat \<Rightarrow> u32 \<Rightarrow>
   (bool \<times> DBImpl) result option" where
  "LevelDB_PutBatch usage es d ks ms buf cap len =
     (case LevelDB_PutBatch_loop WriteBatch_Clear ks ms buf cap of
        Inl e \<Rightarrow> Some (Inl e)
      | Inr b \<Rightarrow> map_option (\<lambda>r. and_then r (\<lambda>(s, d). Inr (True, d))) (LevelDB_Write usage es b d))"

section \<open>What a write does\<close>







section \<open>What a read sees\<close>









section \<open>A concrete database\<close>

definition fresh_db :: DBImpl where
  "fresh_db = DBImpl_make (LogWriter_make (new_file [])) 3 4 (MemTable_Ref (MemTable_make BytewiseComparator)) 0"

definition calm :: room_env where
  "calm = \<lparr>re_level0 = 0, re_file = (Status_OK, new_file []), re_imm_done = False, re_bg_error = Status_OK,
     re_file_numbers = 0, re_arrivals = []\<rparr>"







section \<open>Properties\<close>





text \<open>
  C38: after a background error every write is refused. \<open>Put\<close> reports it by
  returning false, but \<open>PutBatch\<close>, which the flushes of the front ends call, drops the status: it returns true
  although neither the log nor the memtable has changed.
\<close>

theorem leveldb_put_batch_hides_errors:
  assumes "\<not> Status_ok (db_bg_error d)" and "db_phase d = W_Queued" and "db_writers d = []"
    and "LevelDB_PutBatch_loop WriteBatch_Clear ks ms buf cap = Inr b"
  shows "\<exists>d'. LevelDB_PutBatch usage (e # es) d ks ms buf cap len = Some (Inr (True, d')) \<and>
    LevelDB_Put usage (e # es) d k v = Some (Inr (False, d')) \<and>
    db_log d' = db_log d \<and> db_mem d' = db_mem d \<and> db_last_sequence d' = db_last_sequence d"
  using assms
  by (simp add: LevelDB_PutBatch_def LevelDB_Put_def LevelDB_Write_def ok_of_def DBImpl_Write_def Write_lead_def
      Write_enqueue_def Write_return_def Let_def)

theorem leveldb_put_batch_hides_errors_witness:
  "\<exists>d'. LevelDB_PutBatch (\<lambda>_. 0) [calm] (fresh_db\<lparr>db_bg_error := Status_IOError ''sync'' []\<rparr>) [[1]] [Meta_file 0 0 1 1]
      (\<lambda>_. 7) 2 2 = Some (Inr (True, d')) \<and>
    LevelDB_Put (\<lambda>_. 0) [calm] (fresh_db\<lparr>db_bg_error := Status_IOError ''sync'' []\<rparr>) [1] [7] = Some (Inr (False, d')) \<and>
    db_log d' = db_log fresh_db \<and> db_mem d' = db_mem fresh_db \<and> db_last_sequence d' = db_last_sequence fresh_db"
proof -
  let ?d = "fresh_db\<lparr>db_bg_error := Status_IOError ''sync'' []\<rparr>"
  have "\<not> Status_ok (db_bg_error ?d)" "db_phase ?d = W_Queued" "db_writers ?d = []"
    by (simp_all add: fresh_db_def DBImpl_make_def status_defs)
  moreover have "LevelDB_PutBatch_loop WriteBatch_Clear [[1]] [Meta_file 0 0 1 1] (\<lambda>_. 7) 2 =
      Inr (WriteBatch_Put WriteBatch_Clear [1] (rd (\<lambda>_. 7) 1 1))"
    by (simp add: Meta_file_def Let_def)
  ultimately show ?thesis
    using leveldb_put_batch_hides_errors [of ?d "[[1]]" "[Meta_file 0 0 1 1]" "\<lambda>_. 7" 2 _ "\<lambda>_. 0" calm "[]" 2 "[1]" "[7]"] by simp
qed

end
