(* ===== verification/Bloom_Filter.thy ===== *)
theory Bloom_Filter
  imports Db_Format
begin

text \<open>
  LevelDB's hash function (\<open>util/hash.cc\<close>), the Bloom filter policy (\<open>util/bloom.cc\<close>) and the wrapper that applies
  a policy to the user keys of internal keys (\<open>InternalFilterPolicy\<close> in \<open>db/dbformat.cc\<close>). A filter policy is a
  pair of functions; what the tables rely on is the locale \<open>filter_policy\<close>: a key a filter was made from is
  never ruled out.
\<close>

section \<open>The hash function\<close>

definition hash_m :: u32 where "hash_m = 0xc6a4a793"

fun Hash_words :: "bytes \<Rightarrow> u32 \<Rightarrow> bytes \<times> u32" where
  "Hash_words (b0 # b1 # b2 # b3 # data) h =
     (let w = DecodeFixed32 [b0, b1, b2, b3];
          h = h + w;
          h = h * hash_m;
          h = h XOR drop_bit 16 h in
      Hash_words data h)"
| "Hash_words data h = (data, h)"

definition Hash_tail :: "bytes \<Rightarrow> u32 \<Rightarrow> u32" where
  "Hash_tail data h =
     (let n = length data;
          h = (if n = 3 then h + push_bit 16 (ucast (data ! 2)) else h);
          h = (if n = 3 \<or> n = 2 then h + push_bit 8 (ucast (data ! 1)) else h) in
      if n = 3 \<or> n = 2 \<or> n = 1 then
        let h = h + ucast (data ! 0); h = h * hash_m in h XOR drop_bit 24 h
      else h)"

definition Hash :: "bytes \<Rightarrow> u32 \<Rightarrow> u32" where
  "Hash data seed =
     (let h = seed XOR (of_nat (length data) * hash_m); (data, h) = Hash_words data h in Hash_tail data h)"

section \<open>The Bloom filter\<close>

definition BloomHash :: "bytes \<Rightarrow> u32" where "BloomHash key = Hash key 0xbc9f1d34"

record BloomFilterPolicy =
  bits_per_key :: nat
  bf_k :: nat

text \<open>\<open>scaled\<close> is the product \<open>bits_per_key * 0.69\<close> after its conversion to \<open>size_t\<close>.\<close>

definition BloomFilterPolicy_make :: "nat \<Rightarrow> nat \<Rightarrow> BloomFilterPolicy" where
  "BloomFilterPolicy_make bpk scaled =
     (let k = scaled; k = (if k < 1 then 1 else k); k = (if k > 30 then 30 else k) in
      \<lparr>bits_per_key = bpk, bf_k = k\<rparr>)"

definition rot17 :: "u32 \<Rightarrow> u32" where "rot17 h = drop_bit 17 h OR push_bit 15 h"

definition set_filter_bit :: "bytes \<Rightarrow> nat \<Rightarrow> bytes" where
  "set_filter_bit arr bitpos = arr[bitpos div 8 := arr ! (bitpos div 8) OR push_bit (bitpos mod 8) 1]"

definition test_filter_bit :: "bytes \<Rightarrow> nat \<Rightarrow> bool" where
  "test_filter_bit arr bitpos \<longleftrightarrow> arr ! (bitpos div 8) AND push_bit (bitpos mod 8) 1 \<noteq> 0"

fun add_probes :: "nat \<Rightarrow> u32 \<Rightarrow> u32 \<Rightarrow> nat \<Rightarrow> bytes \<Rightarrow> bytes" where
  "add_probes 0 h delta bits arr = arr"
| "add_probes (Suc k) h delta bits arr =
     add_probes k (h + delta) delta bits (set_filter_bit arr (unat h mod bits))"

fun test_probes :: "nat \<Rightarrow> u32 \<Rightarrow> u32 \<Rightarrow> nat \<Rightarrow> bytes \<Rightarrow> bool" where
  "test_probes 0 h delta bits arr = True"
| "test_probes (Suc k) h delta bits arr =
     (if \<not> test_filter_bit arr (unat h mod bits) then False else test_probes k (h + delta) delta bits arr)"

definition add_key :: "nat \<Rightarrow> nat \<Rightarrow> bytes \<Rightarrow> bytes \<Rightarrow> bytes" where
  "add_key k bits key arr = (let h = BloomHash key; delta = rot17 h in add_probes k h delta bits arr)"

definition Bloom_CreateFilter :: "BloomFilterPolicy \<Rightarrow> bytes list \<Rightarrow> bytes \<Rightarrow> bytes" where
  "Bloom_CreateFilter p keys dst =
     (let bits = length keys * bits_per_key p;
          bits = (if bits < 64 then 64 else bits);
          nbytes = (bits + 7) div 8;
          bits = nbytes * 8;
          arr = fold (add_key (bf_k p) bits) keys (replicate nbytes 0) in
      dst @ arr @ [of_nat (bf_k p)])"

definition Bloom_KeyMayMatch :: "bytes \<Rightarrow> bytes \<Rightarrow> bool" where
  "Bloom_KeyMayMatch key bloom_filter =
     (let len = length bloom_filter in
      if len < 2 then False
      else
        let bits = (len - 1) * 8;
            k = unat (bloom_filter ! (len - 1)) in
        if k > 30 then True
        else let h = BloomHash key; delta = rot17 h in test_probes k h delta bits bloom_filter)"

section \<open>Policies\<close>

record FilterPolicy =
  CreateFilter :: "bytes list \<Rightarrow> bytes \<Rightarrow> bytes result"
  KeyMayMatch :: "bytes \<Rightarrow> bytes \<Rightarrow> bool result"

definition NewBloomFilterPolicy :: "nat \<Rightarrow> nat \<Rightarrow> FilterPolicy" where
  "NewBloomFilterPolicy bpk scaled =
     \<lparr>CreateFilter = (\<lambda>keys dst. Inr (Bloom_CreateFilter (BloomFilterPolicy_make bpk scaled) keys dst)),
      KeyMayMatch = (\<lambda>key f. Inr (Bloom_KeyMayMatch key f))\<rparr>"

fun ExtractUserKeys :: "bytes list \<Rightarrow> bytes list result" where
  "ExtractUserKeys [] = Inr []"
| "ExtractUserKeys (k # ks) =
     and_then (ExtractUserKey k) (\<lambda>u. and_then (ExtractUserKeys ks) (\<lambda>us. Inr (u # us)))"

definition InternalFilterPolicy :: "FilterPolicy \<Rightarrow> FilterPolicy" where
  "InternalFilterPolicy p =
     \<lparr>CreateFilter = (\<lambda>keys dst. and_then (ExtractUserKeys keys) (\<lambda>us. CreateFilter p us dst)),
      KeyMayMatch = (\<lambda>key f. and_then (ExtractUserKey key) (\<lambda>u. KeyMayMatch p u f))\<rparr>"

text \<open>
  A filter is what \<open>CreateFilter\<close> appends; \<open>ok\<close> are the keys the policy may be given. Filters are never ruled out
  wrongly, and a filter is not empty.
\<close>

locale filter_policy =
  fixes p :: FilterPolicy and ok :: "bytes \<Rightarrow> bool"
  assumes creates: "\<forall>k \<in> set keys. ok k \<Longrightarrow> \<exists>f. \<forall>dst. CreateFilter p keys dst = Inr (dst @ f)"
    and no_false_negative: "\<forall>k \<in> set keys. ok k \<Longrightarrow> CreateFilter p keys dst = Inr (dst @ f) \<Longrightarrow> key \<in> set keys \<Longrightarrow>
      KeyMayMatch p key f = Inr True"
begin

lemma created_matches:
  assumes "\<forall>k \<in> set keys. ok k"
  obtains f where "\<And>dst. CreateFilter p keys dst = Inr (dst @ f)" and "\<And>key. key \<in> set keys \<Longrightarrow> KeyMayMatch p key f = Inr True"
  using creates [OF assms] no_false_negative [OF assms] by metis

end

section \<open>Bits stay set\<close>

definition covers :: "bytes \<Rightarrow> bytes \<Rightarrow> bool" where
  "covers arr arr' \<longleftrightarrow> length arr = length arr' \<and> (\<forall>i < length arr. \<forall>n. bit (arr ! i) n \<longrightarrow> bit (arr' ! i) n)"

lemma covers_refl: "covers a a" and covers_trans: "covers a b \<Longrightarrow> covers b c \<Longrightarrow> covers a c"
  by (auto simp: covers_def)

lemma covers_set: "covers arr (set_filter_bit arr q)"
  by (cases "q div 8 < length arr") (auto simp: covers_def set_filter_bit_def nth_list_update bit_or_iff)

lemma covers_probes: "covers arr (add_probes k h d bits arr)"
proof (induction k arbitrary: h arr)
  case (Suc k)
  from covers_trans [OF covers_set Suc.IH] show ?case by simp
qed (simp add: covers_refl)

lemma covers_key: "covers arr (add_key k bits key arr)"
  by (simp add: add_key_def Let_def covers_probes)

lemma covers_keys: "covers arr (fold (add_key k bits) keys arr)"
  by (induction keys arbitrary: arr) (auto intro: covers_refl covers_trans [OF covers_key])

lemma test_iff: "test_filter_bit arr q \<longleftrightarrow> bit (arr ! (q div 8)) (q mod 8)"
proof
  assume "test_filter_bit arr q"
  then have "\<exists>n. bit (arr ! (q div 8) AND push_bit (q mod 8) 1) n"
    unfolding test_filter_bit_def by (auto simp: bit_eq_iff)
  then show "bit (arr ! (q div 8)) (q mod 8)" by (auto simp: bit_simps)
next
  assume "bit (arr ! (q div 8)) (q mod 8)"
  then have "bit (arr ! (q div 8) AND push_bit (q mod 8) 1) (q mod 8)" by (auto simp: bit_simps)
  then show "test_filter_bit arr q" unfolding test_filter_bit_def by auto
qed

lemma test_set: "q div 8 < length arr \<Longrightarrow> test_filter_bit (set_filter_bit arr q) q"
  by (simp add: test_iff set_filter_bit_def bit_simps)

lemma test_covers: "covers arr arr' \<Longrightarrow> q div 8 < length arr \<Longrightarrow> test_filter_bit arr q \<Longrightarrow> test_filter_bit arr' q"
  by (simp add: test_iff covers_def)

lemma bit_position: "0 < n \<Longrightarrow> (x mod (n * 8)) div 8 < (n :: nat)"
  by (simp add: less_mult_imp_div_less)

lemma probes_covers:
  "covers arr arr' \<Longrightarrow> 0 < length arr \<Longrightarrow> bits = length arr * 8 \<Longrightarrow> test_probes k h d bits arr \<Longrightarrow> test_probes k h d bits arr'"
  by (induction k arbitrary: h) (auto split: if_splits dest: test_covers [OF _ bit_position])

lemma length_set [simp]: "length (set_filter_bit arr q) = length arr"
  by (simp add: set_filter_bit_def)

lemma probes_found:
  "0 < length arr \<Longrightarrow> bits = length arr * 8 \<Longrightarrow> test_probes k h d bits (add_probes k h d bits arr)"
proof (induction k arbitrary: h arr)
  case (Suc k)
  let ?a = "set_filter_bit arr (unat h mod bits)"
  have pos: "unat h mod bits div 8 < length arr" using Suc.prems bit_position by simp
  have "test_filter_bit ?a (unat h mod bits)" using pos by (rule test_set)
  then have "test_filter_bit (add_probes k (h + d) d bits ?a) (unat h mod bits)"
    using test_covers [OF covers_probes] pos by simp
  moreover have "test_probes k (h + d) d bits (add_probes k (h + d) d bits ?a)"
    by (rule Suc.IH) (use Suc.prems in simp_all)
  ultimately show ?case by simp
qed simp

lemma length_keys [simp]: "length (fold (add_key k bits) keys arr) = length arr"
  using covers_keys [of arr k bits keys] by (simp add: covers_def)

lemma keys_found:
  assumes "key \<in> set keys" and "0 < length arr" and "bits = length arr * 8"
  shows "test_probes k (BloomHash key) (rot17 (BloomHash key)) bits (fold (add_key k bits) keys arr)"
  using assms
proof (induction keys arbitrary: arr)
  case (Cons x xs)
  have l: "length (add_key k bits x arr) = length arr" using covers_key [of arr k bits x] by (simp add: covers_def)
  show ?case
  proof (cases "key \<in> set xs")
    case True
    then have "test_probes k (BloomHash key) (rot17 (BloomHash key)) bits (fold (add_key k bits) xs (add_key k bits x arr))"
      by (rule Cons.IH) (use Cons.prems l in simp_all)
    then show ?thesis by simp
  next
    case False
    with Cons.prems have "test_probes k (BloomHash key) (rot17 (BloomHash key)) bits (add_key k bits x arr)"
      by (simp add: add_key_def Let_def probes_found)
    moreover have "covers (add_key k bits x arr) (fold (add_key k bits) xs (add_key k bits x arr))" by (rule covers_keys)
    moreover have "0 < length (add_key k bits x arr)" "bits = length (add_key k bits x arr) * 8"
      using Cons.prems(2,3) l by simp_all
    ultimately have "test_probes k (BloomHash key) (rot17 (BloomHash key)) bits
        (fold (add_key k bits) xs (add_key k bits x arr))" by (blast intro: probes_covers)
    then show ?thesis by simp
  qed
qed simp

lemma test_probes_append:
  "0 < length arr \<Longrightarrow> bits = length arr * 8 \<Longrightarrow> test_probes k h d bits (arr @ z) = test_probes k h d bits arr"
  using bit_position by (induction k arbitrary: h) (auto simp: test_filter_bit_def nth_append)

section \<open>No false negatives\<close>

lemma k_range: "1 \<le> bf_k (BloomFilterPolicy_make b s)" "bf_k (BloomFilterPolicy_make b s) \<le> 30"
  by (auto simp: BloomFilterPolicy_make_def Let_def)

lemma Bloom_matches:
  assumes "key \<in> set keys" and "bf_k p \<le> 30" and "Bloom_CreateFilter p keys dst = dst @ f"
  shows "Bloom_KeyMayMatch key f"
proof -
  define n where "n = ((if length keys * bits_per_key p < 64 then 64 else length keys * bits_per_key p) + 7) div 8"
  define arr where "arr = fold (add_key (bf_k p) (n * 8)) keys (replicate n 0)"
  have f: "f = arr @ [of_nat (bf_k p)]"
    using assms(3) by (simp add: Bloom_CreateFilter_def Let_def arr_def n_def)
  have n: "0 < n" by (auto simp: n_def)
  have len: "length arr = n" by (simp add: arr_def)
  have k: "unat (f ! n) = bf_k p"
    using assms(2) len by (simp add: f nth_append unat_of_nat take_bit_nat_eq_self)
  have "test_probes (bf_k p) (BloomHash key) (rot17 (BloomHash key)) (n * 8) arr"
    unfolding arr_def by (rule keys_found [OF assms(1)]) (use n in simp_all)
  then have "test_probes (bf_k p) (BloomHash key) (rot17 (BloomHash key)) (n * 8) f"
    unfolding f using test_probes_append [of arr "n * 8"] n len by simp
  moreover have "length f = Suc n" using len by (simp add: f)
  ultimately show ?thesis
    using k assms(2) n by (simp add: Bloom_KeyMayMatch_def Let_def)
qed

interpretation bloom: filter_policy "NewBloomFilterPolicy bpk scaled" "\<lambda>_. True" for bpk scaled
proof
  show "\<exists>f. \<forall>dst. CreateFilter (NewBloomFilterPolicy bpk scaled) keys dst = Inr (dst @ f)" for keys
    by (simp add: NewBloomFilterPolicy_def Bloom_CreateFilter_def Let_def)
  show "KeyMayMatch (NewBloomFilterPolicy bpk scaled) key f = Inr True"
    if "CreateFilter (NewBloomFilterPolicy bpk scaled) keys dst = Inr (dst @ f)" and "key \<in> set keys" for keys dst f key
    using that Bloom_matches [OF that(2) k_range(2)] by (simp add: NewBloomFilterPolicy_def)
qed

lemma ExtractUserKeys_Inr: "\<forall>k \<in> set ks. 8 \<le> length k \<Longrightarrow> ExtractUserKeys ks = Inr (map user_part ks)"
  by (induction ks) (simp_all add: ExtractUserKey_Inr)

lemma InternalFilterPolicy_keeps:
  assumes "filter_policy p (\<lambda>_. True)"
  shows "filter_policy (InternalFilterPolicy p) (\<lambda>k. 8 \<le> length k)"
proof -
  note laws = filter_policy.creates [OF assms] filter_policy.no_false_negative [OF assms]
  show ?thesis
  proof
    fix keys :: "bytes list" assume ok: "\<forall>k \<in> set keys. 8 \<le> length k"
    show "\<exists>f. \<forall>dst. CreateFilter (InternalFilterPolicy p) keys dst = Inr (dst @ f)"
      using laws(1) [of "map user_part keys"] ok by (simp add: InternalFilterPolicy_def ExtractUserKeys_Inr)
  next
    fix keys :: "bytes list" and dst f key
    assume ok: "\<forall>k \<in> set keys. 8 \<le> length k" and c: "CreateFilter (InternalFilterPolicy p) keys dst = Inr (dst @ f)"
      and key: "key \<in> set keys"
    have "CreateFilter p (map user_part keys) dst = Inr (dst @ f)"
      using c ok by (simp add: InternalFilterPolicy_def ExtractUserKeys_Inr)
    from laws(2) [OF _ this, of "user_part key"] key ok show "KeyMayMatch (InternalFilterPolicy p) key f = Inr True"
      by (simp add: InternalFilterPolicy_def ExtractUserKey_Inr)
  qed
qed

interpretation internal_bloom: filter_policy "InternalFilterPolicy (NewBloomFilterPolicy bpk scaled)" "\<lambda>k. 8 \<le> length k"
  for bpk scaled
  by (rule InternalFilterPolicy_keeps) (rule bloom.filter_policy_axioms)

section \<open>Properties\<close>

text \<open>
  C31: for every setting of the policy and every list of internal keys, creating a filter
  returns, whatever it is appended to, and the filter reports a possible match for every one of these keys.
\<close>

theorem bloom_no_false_negative:
  assumes "\<forall>k \<in> set keys. 8 \<le> length k"
  shows "\<exists>f. (\<forall>dst. CreateFilter (InternalFilterPolicy (NewBloomFilterPolicy bpk scaled)) keys dst = Inr (dst @ f)) \<and>
    (\<forall>key \<in> set keys. KeyMayMatch (InternalFilterPolicy (NewBloomFilterPolicy bpk scaled)) key f = Inr True)"
  using internal_bloom.created_matches [OF assms] by metis

theorem bloom_no_false_negative_witness:
  "\<exists>f. (\<forall>dst. CreateFilter (InternalFilterPolicy (NewBloomFilterPolicy 10 6)) [ikey [1, 2] 5 kTypeValue] dst = Inr (dst @ f)) \<and>
    (\<forall>key \<in> set [ikey [1, 2] 5 kTypeValue].
       KeyMayMatch (InternalFilterPolicy (NewBloomFilterPolicy 10 6)) key f = Inr True)"
  by (rule bloom_no_false_negative) (simp add: ikey_def)

end
