(* ===== verification/Block.thy ===== *)
theory Block
  imports Db_Format
begin

text \<open>
  LevelDB's data blocks (\<open>table/block_builder.cc\<close>, \<open>table/block.cc\<close>): sorted entries whose keys are stored as the
  number of bytes shared with the previous key and the rest, with restart points at which nothing is shared, and an
  array of the restart points at the end. The builder, the block and its iterator are records of their members; the
  offsets that the code keeps in \<open>uint32_t\<close> are natural numbers below \<open>2 ^ 32\<close>, reduced where the code reduces them.
  A \<open>value_\<close> that does not point into the block is \<open>None\<close>. The loops of the iterator need not end on a corrupted
  block, so they are partial; on a block that the builder made they do.
\<close>

section \<open>The builder\<close>

record BlockBuilder =
  bb_buffer :: bytes
  bb_restarts :: "u32 list"
  bb_counter :: nat
  bb_finished :: bool
  bb_last_key :: bytes

definition BlockBuilder_make :: "nat \<Rightarrow> BlockBuilder result" where
  "BlockBuilder_make block_restart_interval =
     and_then (check (1 \<le> block_restart_interval) Assert_failed) (\<lambda>_.
     Inr \<lparr>bb_buffer = [], bb_restarts = [0], bb_counter = 0, bb_finished = False, bb_last_key = []\<rparr>)"

definition BlockBuilder_Reset :: "BlockBuilder \<Rightarrow> BlockBuilder" where
  "BlockBuilder_Reset b =
     b\<lparr>bb_buffer := [], bb_restarts := [0], bb_counter := 0, bb_finished := False, bb_last_key := []\<rparr>"

definition CurrentSizeEstimate :: "BlockBuilder \<Rightarrow> nat" where
  "CurrentSizeEstimate b = length (bb_buffer b) + length (bb_restarts b) * 4 + 4"

definition BlockBuilder_Finish :: "BlockBuilder \<Rightarrow> bytes \<times> BlockBuilder" where
  "BlockBuilder_Finish b =
     (let buffer = foldl PutFixed32 (bb_buffer b) (bb_restarts b);
          buffer = PutFixed32 buffer (of_nat (length (bb_restarts b))) in
      (buffer, b\<lparr>bb_buffer := buffer, bb_finished := True\<rparr>))"

fun shared_prefix :: "bytes \<Rightarrow> bytes \<Rightarrow> nat" where
  "shared_prefix (a # as) (b # bs) = (if a = b then Suc (shared_prefix as bs) else 0)"
| "shared_prefix _ _ = 0"

definition BlockBuilder_Add :: "Comparator \<Rightarrow> nat \<Rightarrow> BlockBuilder \<Rightarrow> bytes \<Rightarrow> bytes \<Rightarrow> BlockBuilder result" where
  "BlockBuilder_Add c block_restart_interval b key val =
     and_then (check (\<not> bb_finished b) Assert_failed) (\<lambda>_.
     and_then (check (bb_counter b \<le> block_restart_interval) Assert_failed) (\<lambda>_.
     and_then (check (bb_buffer b = [] \<or> Compare c key (bb_last_key b) > 0) Assert_failed) (\<lambda>_.
     let (shared, restarts, counter) =
           (if bb_counter b < block_restart_interval
            then (shared_prefix (bb_last_key b) key, bb_restarts b, bb_counter b)
            else (0, bb_restarts b @ [of_nat (length (bb_buffer b))], 0));
         non_shared = length key - shared;
         buffer = PutVarint32 (bb_buffer b) (of_nat shared);
         buffer = PutVarint32 buffer (of_nat non_shared);
         buffer = PutVarint32 buffer (of_nat (length val));
         buffer = buffer @ drop shared key @ val;
         last_key = take shared (bb_last_key b) @ drop shared key in
     and_then (check (last_key = key) Assert_failed) (\<lambda>_.
     Inr (b\<lparr>bb_buffer := buffer, bb_restarts := restarts, bb_counter := counter + 1, bb_last_key := last_key\<rparr>)))))"

section \<open>The block\<close>

record Block =
  bl_data :: bytes
  bl_size :: nat
  bl_restart_offset :: nat

definition NumRestarts :: "Block \<Rightarrow> u32 result" where
  "NumRestarts b =
     and_then (check (4 \<le> bl_size b) Assert_failed) (\<lambda>_. Inr (DecodeFixed32 (drop (bl_size b - 4) (bl_data b))))"

text \<open>A size of zero marks an error; \<open>restart_offset_\<close> is then not set.\<close>

definition Block_make :: "bytes \<Rightarrow> Block" where
  "Block_make contents =
     (let size = length contents;
          b = \<lparr>bl_data = contents, bl_size = size, bl_restart_offset = 0\<rparr> in
      if size < 4 then b\<lparr>bl_size := 0\<rparr>
      else
        case NumRestarts b of
          Inl _ \<Rightarrow> b
        | Inr n \<Rightarrow>
            if (size - 4) div 4 < unat n then b\<lparr>bl_size := 0\<rparr>
            else b\<lparr>bl_restart_offset := (size - (1 + unat n) * 4) mod 2 ^ 32\<rparr>)"

text \<open>The three lengths of the entry at the front of \<open>s\<close>, the bytes up to the limit, and the bytes after them.\<close>

definition DecodeEntry :: "bytes \<Rightarrow> (u32 \<times> u32 \<times> u32 \<times> bytes) option" where
  "DecodeEntry s =
     (if length s < 3 then None
      else
        let r = (if (s ! 0 OR s ! 1 OR s ! 2) < 128
                 then Some (ucast (s ! 0), ucast (s ! 1), ucast (s ! 2), drop 3 s)
                 else
                   case GetVarint32Ptr s of None \<Rightarrow> None | Some (shared, s) \<Rightarrow>
                   (case GetVarint32Ptr s of None \<Rightarrow> None | Some (non_shared, s) \<Rightarrow>
                   (case GetVarint32Ptr s of None \<Rightarrow> None | Some (value_length, s) \<Rightarrow>
                      Some (shared, non_shared, value_length, s)))) in
        case r of
          None \<Rightarrow> None
        | Some (shared, non_shared, value_length, s) \<Rightarrow>
            if of_nat (length s) < non_shared + value_length then None
            else Some (shared, non_shared, value_length, s))"

section \<open>The iterator\<close>

record BlockIter =
  it_data :: bytes
  it_restarts :: nat
  it_num_restarts :: nat
  it_current :: nat
  it_restart_index :: nat
  it_key :: bytes
  it_value :: "(nat \<times> nat) option"
  it_status :: Status

definition BlockIter_make :: "bytes \<Rightarrow> nat \<Rightarrow> nat \<Rightarrow> BlockIter result" where
  "BlockIter_make data restarts num_restarts =
     and_then (check (0 < num_restarts) Assert_failed) (\<lambda>_.
     Inr \<lparr>it_data = data, it_restarts = restarts, it_num_restarts = num_restarts, it_current = restarts,
       it_restart_index = num_restarts, it_key = [], it_value = None, it_status = Status_OK\<rparr>)"

definition BlockIter_Valid :: "BlockIter \<Rightarrow> bool" where "BlockIter_Valid it \<longleftrightarrow> it_current it < it_restarts it"

definition NextEntryOffset :: "BlockIter \<Rightarrow> nat result" where
  "NextEntryOffset it =
     (case it_value it of None \<Rightarrow> Inl Out_of_bounds | Some (off, len) \<Rightarrow> Inr ((off + len) mod 2 ^ 32))"

definition GetRestartPoint :: "BlockIter \<Rightarrow> nat \<Rightarrow> nat result" where
  "GetRestartPoint it index =
     and_then (check (index < it_num_restarts it) Assert_failed) (\<lambda>_.
     Inr (unat (DecodeFixed32 (drop (it_restarts it + index * 4) (it_data it)))))"

definition SeekToRestartPoint :: "BlockIter \<Rightarrow> nat \<Rightarrow> BlockIter result" where
  "SeekToRestartPoint it index =
     and_then (GetRestartPoint it index) (\<lambda>offset.
     Inr (it\<lparr>it_key := [], it_restart_index := index, it_value := Some (offset, 0)\<rparr>))"

definition CorruptionError :: "BlockIter \<Rightarrow> BlockIter" where
  "CorruptionError it =
     it\<lparr>it_current := it_restarts it, it_restart_index := it_num_restarts it,
       it_status := Status_Corruption ''bad entry in block'', it_key := [], it_value := None\<rparr>"

function advance_restart :: "BlockIter \<Rightarrow> BlockIter result" where
  "advance_restart it =
     (if it_restart_index it + 1 < it_num_restarts it then
        and_then (GetRestartPoint it (it_restart_index it + 1)) (\<lambda>p.
          if p < it_current it then advance_restart (it\<lparr>it_restart_index := it_restart_index it + 1\<rparr>) else Inr it)
      else Inr it)"
  by auto
termination by (relation "measure (\<lambda>it. it_num_restarts it - it_restart_index it)") auto

declare advance_restart.simps [simp del]

definition ParseNextKey :: "BlockIter \<Rightarrow> (bool \<times> BlockIter) result" where
  "ParseNextKey it =
     and_then (NextEntryOffset it) (\<lambda>off.
     let it = it\<lparr>it_current := off\<rparr> in
     if it_restarts it \<le> off then
       Inr (False, it\<lparr>it_current := it_restarts it, it_restart_index := it_num_restarts it\<rparr>)
     else
       case DecodeEntry (drop off (take (it_restarts it) (it_data it))) of
         None \<Rightarrow> Inr (False, CorruptionError it)
       | Some (shared, non_shared, value_length, s) \<Rightarrow>
           if length (it_key it) < unat shared then Inr (False, CorruptionError it)
           else
             let p = it_restarts it - length s in
             and_then (check (p + unat non_shared \<le> length (it_data it)) Out_of_bounds) (\<lambda>_.
             and_then (advance_restart
               (it\<lparr>it_key := take (unat shared) (it_key it) @ take (unat non_shared) (drop p (it_data it)),
                  it_value := Some (p + unat non_shared, unat value_length)\<rparr>)) (\<lambda>it.
             Inr (True, it))))"

definition BlockIter_key :: "BlockIter \<Rightarrow> bytes result" where
  "BlockIter_key it = and_then (check (BlockIter_Valid it) Assert_failed) (\<lambda>_. Inr (it_key it))"

definition BlockIter_value :: "BlockIter \<Rightarrow> bytes result" where
  "BlockIter_value it =
     and_then (check (BlockIter_Valid it) Assert_failed) (\<lambda>_.
     case it_value it of
       None \<Rightarrow> Inr []
     | Some (off, len) \<Rightarrow> if off + len \<le> length (it_data it) then Inr (take len (drop off (it_data it))) else Inl Out_of_bounds)"

definition BlockIter_Next :: "BlockIter \<Rightarrow> BlockIter result" where
  "BlockIter_Next it =
     and_then (check (BlockIter_Valid it) Assert_failed) (\<lambda>_. and_then (ParseNextKey it) (\<lambda>(_, it). Inr it))"

definition BlockIter_SeekToFirst :: "BlockIter \<Rightarrow> BlockIter result" where
  "BlockIter_SeekToFirst it =
     and_then (SeekToRestartPoint it 0) (\<lambda>it. and_then (ParseNextKey it) (\<lambda>(_, it). Inr it))"

text \<open>\<open>while (ParseNextKey() && NextEntryOffset() < bound)\<close>, of \<open>SeekToLast\<close> and \<open>Prev\<close>.\<close>

partial_function (option) scan_until :: "BlockIter \<Rightarrow> nat \<Rightarrow> BlockIter result option" where
  "scan_until it bound =
     (case ParseNextKey it of
        Inl e \<Rightarrow> Some (Inl e)
      | Inr (ok, it) \<Rightarrow>
          if \<not> ok then Some (Inr it)
          else
            (case NextEntryOffset it of
               Inl e \<Rightarrow> Some (Inl e)
             | Inr off \<Rightarrow> if off < bound then scan_until it bound else Some (Inr it)))"

definition BlockIter_SeekToLast :: "BlockIter \<Rightarrow> BlockIter result option" where
  "BlockIter_SeekToLast it =
     (case SeekToRestartPoint it (it_num_restarts it - 1) of
        Inl e \<Rightarrow> Some (Inl e) | Inr it \<Rightarrow> scan_until it (it_restarts it))"

text \<open>The loop of \<open>Prev\<close> over the restart points; \<open>None\<close> in the inner option: there is no earlier entry.\<close>

fun restart_before :: "BlockIter \<Rightarrow> nat \<Rightarrow> nat \<Rightarrow> nat option result" where
  "restart_before it original 0 =
     and_then (GetRestartPoint it 0) (\<lambda>p. Inr (if original \<le> p then None else Some 0))"
| "restart_before it original (Suc i) =
     and_then (GetRestartPoint it (Suc i)) (\<lambda>p. if original \<le> p then restart_before it original i else Inr (Some (Suc i)))"

definition BlockIter_Prev :: "BlockIter \<Rightarrow> BlockIter result option" where
  "BlockIter_Prev it =
     (if \<not> BlockIter_Valid it then Some (Inl Assert_failed)
      else
        case restart_before it (it_current it) (it_restart_index it) of
          Inl e \<Rightarrow> Some (Inl e)
        | Inr None \<Rightarrow> Some (Inr (it\<lparr>it_current := it_restarts it, it_restart_index := it_num_restarts it\<rparr>))
        | Inr (Some i) \<Rightarrow>
            (case SeekToRestartPoint it i of
               Inl e \<Rightarrow> Some (Inl e) | Inr it' \<Rightarrow> scan_until it' (it_current it)))"

text \<open>The binary search of \<open>Seek\<close>; \<open>None\<close> in the inner option: a bad entry.\<close>

function bisect :: "Comparator \<Rightarrow> BlockIter \<Rightarrow> bytes \<Rightarrow> nat \<Rightarrow> nat \<Rightarrow> nat option result" where
  "bisect c it target left right =
     (if left < right then
        let mid = (left + right + 1) div 2 in
        and_then (GetRestartPoint it mid) (\<lambda>region_offset.
          case DecodeEntry (drop region_offset (take (it_restarts it) (it_data it))) of
            None \<Rightarrow> Inr None
          | Some (shared, non_shared, value_length, s) \<Rightarrow>
              if shared \<noteq> 0 then Inr None
              else
                let p = it_restarts it - length s in
                and_then (check (p + unat non_shared \<le> length (it_data it)) Out_of_bounds) (\<lambda>_.
                if Compare c (take (unat non_shared) (drop p (it_data it))) target < 0 then bisect c it target mid right
                else bisect c it target left (mid - 1)))
      else Inr (Some left))"
  by auto
termination by (relation "measure (\<lambda>(_, _, _, left, right). right - left)") auto

declare bisect.simps [simp del]

partial_function (option) scan_to :: "Comparator \<Rightarrow> BlockIter \<Rightarrow> bytes \<Rightarrow> BlockIter result option" where
  "scan_to c it target =
     (case ParseNextKey it of
        Inl e \<Rightarrow> Some (Inl e)
      | Inr (ok, it) \<Rightarrow>
          if \<not> ok \<or> 0 \<le> Compare c (it_key it) target then Some (Inr it) else scan_to c it target)"

definition BlockIter_Seek :: "Comparator \<Rightarrow> BlockIter \<Rightarrow> bytes \<Rightarrow> BlockIter result option" where
  "BlockIter_Seek c it target =
     (let current_key_compare = (if BlockIter_Valid it then Compare c (it_key it) target else 0) in
      if BlockIter_Valid it \<and> current_key_compare = 0 then Some (Inr it)
      else
        let left = (if current_key_compare < 0 then it_restart_index it else 0);
            right = (if current_key_compare > 0 then it_restart_index it else it_num_restarts it - 1) in
        case bisect c it target left right of
          Inl e \<Rightarrow> Some (Inl e)
        | Inr None \<Rightarrow> Some (Inr (CorruptionError it))
        | Inr (Some left) \<Rightarrow>
            if left = it_restart_index it \<and> current_key_compare < 0 then scan_to c it target
            else
              (case SeekToRestartPoint it left of
                 Inl e \<Rightarrow> Some (Inl e) | Inr it \<Rightarrow> scan_to c it target))"

text \<open>\<open>NewIterator\<close>: an iterator that only reports an error, one without entries, or one over the block.\<close>

datatype block_iterator = Error_iterator Status | Empty_iterator | Block_iterator BlockIter

definition Block_NewIterator :: "Block \<Rightarrow> block_iterator result" where
  "Block_NewIterator b =
     (if bl_size b < 4 then Inr (Error_iterator (Status_Corruption ''bad block contents''))
      else
        and_then (NumRestarts b) (\<lambda>n.
          if n = 0 then Inr Empty_iterator
          else and_then (BlockIter_make (bl_data b) (bl_restart_offset b) (unat n)) (\<lambda>it. Inr (Block_iterator it))))"

end
