(* ===== verification/Block_Layout.thy ===== *)
theory Block_Layout
  imports Block
begin

text \<open>
  What the builder leaves in a block and how the iterator reads it. A block is described by the list of its entries,
  each with the number of bytes that it shares with its predecessor; the iterator is related to a position in that
  list. The order of the keys is that of a comparator that keeps the contract \<open>comparator\<close>.
\<close>

section \<open>Entries\<close>

type_synonym bentry = "nat \<times> bytes \<times> bytes"

abbreviation e_shared :: "bentry \<Rightarrow> nat" where "e_shared e \<equiv> fst e"
abbreviation e_key :: "bentry \<Rightarrow> bytes" where "e_key e \<equiv> fst (snd e)"
abbreviation e_val :: "bentry \<Rightarrow> bytes" where "e_val e \<equiv> snd (snd e)"

definition entry_head :: "bentry \<Rightarrow> bytes" where
  "entry_head e = EncodeVarint32 (of_nat (e_shared e)) @ EncodeVarint32 (of_nat (length (e_key e) - e_shared e)) @
     EncodeVarint32 (of_nat (length (e_val e)))"

definition entry_bytes :: "bentry \<Rightarrow> bytes" where
  "entry_bytes e = entry_head e @ drop (e_shared e) (e_key e) @ e_val e"

definition layout :: "bentry list \<Rightarrow> bytes" where "layout es = concat (map entry_bytes es)"

definition offset :: "bentry list \<Rightarrow> nat \<Rightarrow> nat" where "offset es i = length (layout (take i es))"

fun chained :: "bytes \<Rightarrow> bentry list \<Rightarrow> bool" where
  "chained prev [] \<longleftrightarrow> True"
| "chained prev (e # es) \<longleftrightarrow> e_shared e \<le> length (e_key e) \<and> e_shared e \<le> length prev \<and>
     take (e_shared e) (e_key e) = take (e_shared e) prev \<and> chained (e_key e) es"

lemma layout_simps [simp]: "layout [] = []" "layout (e # es) = entry_bytes e @ layout es"
  "layout (es @ es') = layout es @ layout es'"
  by (simp_all add: layout_def)

lemma length_head: "3 \<le> length (entry_head e)"
proof -
  have "1 \<le> length (EncodeVarint32 v)" for v by (auto simp: EncodeVarint32_def)
  from add_mono [OF this add_mono [OF this this]] show ?thesis by (simp add: entry_head_def numeral_3_eq_3)
qed

lemma length_entry: "length (entry_bytes e) = length (entry_head e) + (length (e_key e) - e_shared e) + length (e_val e)"
  by (simp add: entry_bytes_def)

lemma offset_Suc: "i < length es \<Longrightarrow> offset es (Suc i) = offset es i + length (entry_bytes (es ! i))"
  by (simp add: offset_def take_Suc_conv_app_nth)

lemma offset_0 [simp]: "offset es 0 = 0"
  by (simp add: offset_def)

lemma offset_end: "offset es (length es) = length (layout es)"
  by (simp add: offset_def)

lemma layout_split: "i \<le> length es \<Longrightarrow> layout es = layout (take i es) @ layout (drop i es)"
  by (metis append_take_drop_id layout_simps(3))

lemma drop_layout: "i \<le> length es \<Longrightarrow> drop (offset es i) (layout es) = layout (drop i es)"
  using layout_split [of i es] by (simp add: offset_def)

lemma drop_layout_nth: "i < length es \<Longrightarrow> drop (offset es i) (layout es) = entry_bytes (es ! i) @ layout (drop (Suc i) es)"
  using drop_layout [of i es] by (simp add: Cons_nth_drop_Suc [symmetric])

lemma offset_mono: "i \<le> j \<Longrightarrow> offset es i \<le> offset es j"
proof -
  assume "i \<le> j"
  then have "take j es = take i es @ take (j - i) (drop i es)" by (metis le_add_diff_inverse take_add)
  then show ?thesis by (simp add: offset_def)
qed

lemma offset_less: "i < j \<Longrightarrow> i < length es \<Longrightarrow> offset es i < offset es j"
  using offset_Suc [of i es] offset_mono [of "Suc i" j es] length_head [of "es ! i"] length_entry [of "es ! i"] by simp

lemma offset_inj: "i < length es \<Longrightarrow> j < length es \<Longrightarrow> offset es i = offset es j \<longleftrightarrow> i = j"
  using offset_less [of i j es] offset_less [of j i es] by (cases i j rule: linorder_cases) auto

lemma chained_nth:
  "chained prev es \<Longrightarrow> i < length es \<Longrightarrow>
   e_shared (es ! i) \<le> length (e_key (es ! i)) \<and>
   (let p = (if i = 0 then prev else e_key (es ! (i - 1))) in
    e_shared (es ! i) \<le> length p \<and> take (e_shared (es ! i)) (e_key (es ! i)) = take (e_shared (es ! i)) p)"
proof (induction es arbitrary: prev i)
  case (Cons e es)
  show ?case
  proof (cases i)
    case 0
    then show ?thesis using Cons.prems by simp
  next
    case (Suc j)
    then show ?thesis using Cons.IH [of "e_key e" j] Cons.prems by (cases j) (auto simp: Let_def)
  qed
qed simp

lemma chained_snoc:
  "chained prev (es @ [e]) \<longleftrightarrow> chained prev es \<and>
     (let p = (if es = [] then prev else e_key (last es)) in
      e_shared e \<le> length (e_key e) \<and> e_shared e \<le> length p \<and> take (e_shared e) (e_key e) = take (e_shared e) p)"
  by (induction es arbitrary: prev) (auto simp: Let_def)

section \<open>Decoding an entry\<close>

lemma small_byte: "b < 128 \<Longrightarrow> (ucast b :: u32) AND 128 = 0" for b :: byte
proof (rule bit_word_eqI)
  fix n assume b: "b < 128"
  have "\<not> bit b 7" using small_word_bits [of b 7 7] b by (simp add: word_less_nat_alt)
  then show "bit ((ucast b :: u32) AND 128) n = bit (0 :: u32) n" if "n < LENGTH(32)"
    using that by (cases "n = 7") (auto simp: bit_simps bit_128)
qed

lemma GetVarint32Ptr_small: "b < 128 \<Longrightarrow> GetVarint32Ptr (b # s) = Some (ucast b, s)"
  by (simp add: GetVarint32Ptr_def small_byte)

definition slow_entry :: "bytes \<Rightarrow> (u32 \<times> u32 \<times> u32 \<times> bytes) option" where
  "slow_entry s =
     (case GetVarint32Ptr s of None \<Rightarrow> None | Some (shared, s) \<Rightarrow>
      (case GetVarint32Ptr s of None \<Rightarrow> None | Some (non_shared, s) \<Rightarrow>
      (case GetVarint32Ptr s of None \<Rightarrow> None | Some (value_length, s) \<Rightarrow> Some (shared, non_shared, value_length, s))))"

text \<open>The fast path reads what the slow one would.\<close>

lemma fast_entry:
  assumes "(s ! 0 OR s ! 1 OR s ! 2) < 128" and "3 \<le> length s"
  shows "slow_entry s = Some (ucast (s ! 0), ucast (s ! 1), ucast (s ! 2), drop 3 s)"
proof -
  from assms(2) obtain a b c r where s: "s = a # b # c # r"
    by (metis Suc_le_length_iff numeral_3_eq_3)
  have "a \<le> a OR b OR c" "b \<le> a OR b OR c" "c \<le> a OR b OR c"
    by (metis le_word_or2 or.assoc or.commute or.left_commute)+
  with assms(1) have "a < 128" "b < 128" "c < 128" unfolding s by auto
  then show ?thesis by (simp add: s slow_entry_def GetVarint32Ptr_small)
qed

lemma DecodeEntry_slow:
  "3 \<le> length s \<Longrightarrow> DecodeEntry s =
    (case slow_entry s of None \<Rightarrow> None | Some (shared, non_shared, value_length, r) \<Rightarrow>
       if of_nat (length r) < non_shared + value_length then None else Some (shared, non_shared, value_length, r))"
  using fast_entry [of s] unfolding DecodeEntry_def slow_entry_def Let_def
  by (cases "(s ! 0 OR s ! 1 OR s ! 2) < 128") simp_all

lemma DecodeEntry_entry:
  assumes "length (entry_bytes e @ r) < 2 ^ 32"
  shows "DecodeEntry (entry_bytes e @ r) =
    Some (of_nat (e_shared e), of_nat (length (e_key e) - e_shared e), of_nat (length (e_val e)),
      drop (e_shared e) (e_key e) @ e_val e @ r)"
proof -
  let ?n = "length (e_key e) - e_shared e"
  have enc: "GetVarint32Ptr (EncodeVarint32 v @ t) = Some (v, t)" for v t
    using GetVarint32_Encode [of v t] by (simp only: GetVarint32_def)
  have slow: "slow_entry (entry_bytes e @ r) = Some (of_nat (e_shared e), of_nat ?n, of_nat (length (e_val e)),
      drop (e_shared e) (e_key e) @ e_val e @ r)"
    by (simp add: slow_entry_def entry_bytes_def entry_head_def enc)
  have len: "?n + length (e_val e) + length r < 2 ^ 32" using assms by (simp add: length_entry)
  have "of_nat ?n + of_nat (length (e_val e)) = (of_nat (?n + length (e_val e)) :: u32)" by simp
  moreover have "\<not> of_nat (?n + length (e_val e) + length r) < (of_nat (?n + length (e_val e)) :: u32)"
    using len by (simp only: word_less_nat_alt unat_of_nat take_bit_nat_eq_self take_bit_eq_mod word_size not_less) simp
  ultimately have "\<not> (of_nat (length (drop (e_shared e) (e_key e) @ e_val e @ r)) :: u32) < of_nat ?n + of_nat (length (e_val e))"
    by (simp only: length_append length_drop add.assoc simp_thms)
  moreover have "3 \<le> length (entry_bytes e @ r)" using length_head [of e] by (simp add: length_entry)
  ultimately show ?thesis by (simp only: DecodeEntry_slow slow option.case prod.case if_False)
qed

section \<open>Blocks and iterators\<close>

definition restarts_ok :: "u32 list \<Rightarrow> bentry list \<Rightarrow> bool" where
  "restarts_ok rs es \<longleftrightarrow> rs \<noteq> [] \<and> rs ! 0 = 0 \<and> (es = [] \<longrightarrow> length rs = 1) \<and>
     (\<forall>r \<in> set rs. \<exists>i \<le> length es. unat r = offset es i \<and> (i < length es \<longrightarrow> e_shared (es ! i) = 0) \<and> (i = length es \<longrightarrow> es = []))"

definition block_bytes :: "bentry list \<Rightarrow> u32 list \<Rightarrow> bytes" where
  "block_bytes es rs = layout es @ concat (map EncodeFixed32 rs) @ EncodeFixed32 (of_nat (length rs))"

definition block_ok :: "bentry list \<Rightarrow> u32 list \<Rightarrow> bool" where
  "block_ok es rs \<longleftrightarrow> chained [] es \<and> restarts_ok rs es \<and> length (block_bytes es rs) < 2 ^ 32"

text \<open>The iterator belongs to the block; it stands at entry \<open>i\<close>; it will parse entry \<open>i\<close> next.\<close>

definition iter_of :: "bentry list \<Rightarrow> u32 list \<Rightarrow> BlockIter \<Rightarrow> bool" where
  "iter_of es rs it \<longleftrightarrow> it_data it = block_bytes es rs \<and> it_restarts it = length (layout es) \<and>
     it_num_restarts it = length rs \<and> it_status it = Status_OK"

definition iter_at :: "bentry list \<Rightarrow> u32 list \<Rightarrow> BlockIter \<Rightarrow> nat \<Rightarrow> bool" where
  "iter_at es rs it i \<longleftrightarrow> iter_of es rs it \<and> i < length es \<and> it_current it = offset es i \<and> it_key it = e_key (es ! i) \<and>
     it_value it = Some (offset es (Suc i) - length (e_val (es ! i)), length (e_val (es ! i))) \<and> it_restart_index it < length rs"

definition iter_before :: "bentry list \<Rightarrow> u32 list \<Rightarrow> BlockIter \<Rightarrow> nat \<Rightarrow> bool" where
  "iter_before es rs it i \<longleftrightarrow> iter_of es rs it \<and> i \<le> length es \<and> it_restart_index it < length rs \<and>
     (\<exists>off len. it_value it = Some (off, len) \<and> off + len = offset es i) \<and>
     (i < length es \<longrightarrow> e_shared (es ! i) \<le> length (it_key it) \<and> take (e_shared (es ! i)) (it_key it) = take (e_shared (es ! i)) (e_key (es ! i)))"

definition iter_ended :: "bentry list \<Rightarrow> u32 list \<Rightarrow> BlockIter \<Rightarrow> bool" where
  "iter_ended es rs it \<longleftrightarrow> iter_of es rs it \<and> it_current it = length (layout es)"

lemma length_layout_le: "length (layout es) \<le> length (block_bytes es rs)"
  by (simp add: block_bytes_def)

lemma offset_le: "offset es i \<le> length (layout es)"
  using offset_mono [of i "length es" es] by (cases "i \<le> length es") (simp_all add: offset_def)

lemma take_layout: "take (length (layout es)) (block_bytes es rs) = layout es"
  by (simp add: block_bytes_def)

lemma drop_fixed32:
  "i < length rs \<Longrightarrow> drop (i * 4) (concat (map EncodeFixed32 rs)) = EncodeFixed32 (rs ! i) @ concat (map EncodeFixed32 (drop (Suc i) rs))"
proof (induction rs arbitrary: i)
  case (Cons r rs)
  then show ?case by (cases i) (simp_all add: drop_append)
qed simp

lemma GetRestartPoint_ok:
  assumes "iter_of es rs it" and "i < length rs"
  shows "GetRestartPoint it i = Inr (unat (rs ! i))"
proof -
  have "drop (it_restarts it + i * 4) (it_data it) =
      EncodeFixed32 (rs ! i) @ concat (map EncodeFixed32 (drop (Suc i) rs)) @ EncodeFixed32 (of_nat (length rs))"
  proof -
    have "i * 4 \<le> length (concat (map EncodeFixed32 rs))"
    proof -
      have "length (concat (map EncodeFixed32 rs)) = length rs * 4" by (induction rs) simp_all
      then show ?thesis using assms(2) by simp
    qed
    then show ?thesis using assms drop_fixed32 [OF assms(2)] by (simp add: iter_of_def block_bytes_def)
  qed
  then show ?thesis using assms by (simp add: GetRestartPoint_def iter_of_def)
qed

lemma advance_restart_ok:
  "iter_of es rs it \<Longrightarrow> it_restart_index it < length rs \<Longrightarrow>
   \<exists>j < length rs. advance_restart it = Inr (it\<lparr>it_restart_index := j\<rparr>)"
proof (induction it rule: advance_restart.induct)
  case (1 it)
  show ?case
  proof (cases "it_restart_index it + 1 < it_num_restarts it")
    case True
    let ?it = "it\<lparr>it_restart_index := it_restart_index it + 1\<rparr>"
    have n: "it_num_restarts it = length rs" using 1(2) by (simp add: iter_of_def)
    have p: "GetRestartPoint it (it_restart_index it + 1) = Inr (unat (rs ! (it_restart_index it + 1)))"
      using GetRestartPoint_ok [OF 1(2)] True n by simp
    show ?thesis
    proof (cases "unat (rs ! (it_restart_index it + 1)) < it_current it")
      case less: True
      have "iter_of es rs ?it" using 1(2) by (simp add: iter_of_def)
      from 1(1) [OF True p less this] True n obtain j where "j < length rs" "advance_restart ?it = Inr (?it\<lparr>it_restart_index := j\<rparr>)" by auto
      then show ?thesis using True p less by (subst advance_restart.simps) auto
    next
      case False
      then have "advance_restart it = Inr it" using True p by (subst advance_restart.simps) simp
      then show ?thesis using 1(3) by (intro exI [of _ "it_restart_index it"]) simp
    qed
  next
    case False
    then have "advance_restart it = Inr it" by (subst advance_restart.simps) simp
    then show ?thesis using 1(3) by (intro exI [of _ "it_restart_index it"]) simp
  qed
qed

lemma value_offset:
  "i < length es \<Longrightarrow> offset es (Suc i) - length (e_val (es ! i)) =
     offset es i + length (entry_head (es ! i)) + (length (e_key (es ! i)) - e_shared (es ! i))"
  by (simp add: offset_Suc length_entry)

lemma key_length:
  "chained prev es \<Longrightarrow> i < length es \<Longrightarrow> length (e_key (es ! i)) \<le> length prev + length (layout es)"
proof (induction es arbitrary: prev i)
  case (Cons e es)
  have e: "length (e_key e) \<le> length prev + length (entry_bytes e)" using Cons.prems(1) by (auto simp: length_entry)
  show ?case
  proof (cases i)
    case 0
    then show ?thesis using e by simp
  next
    case (Suc j)
    then show ?thesis using Cons.IH [of "e_key e" j] Cons.prems e by simp
  qed
qed simp

lemma shared_small:
  assumes "block_ok es rs" and "i < length es"
  shows "e_shared (es ! i) < 2 ^ 32" "e_shared (es ! i) \<le> length (e_key (es ! i))"
proof -
  have c: "chained [] es" using assms(1) by (simp add: block_ok_def)
  show le: "e_shared (es ! i) \<le> length (e_key (es ! i))" using chained_nth [OF c assms(2)] by simp
  have "length (e_key (es ! i)) \<le> length (layout es)" using key_length [OF c assms(2)] by simp
  also have "\<dots> \<le> length (block_bytes es rs)" by (rule length_layout_le)
  also have "\<dots> < 2 ^ 32" using assms(1) by (simp add: block_ok_def)
  finally show "e_shared (es ! i) < 2 ^ 32" using le by simp
qed

lemma parse_entry:
  assumes ok: "block_ok es rs" and b: "iter_before es rs it i" and i: "i < length es"
  shows "\<exists>it'. ParseNextKey it = Inr (True, it') \<and> iter_at es rs it' i"
proof -
  let ?e = "es ! i" and ?R = "length (layout es)"
  from b obtain off len where it: "iter_of es rs it" "it_restart_index it < length rs"
    and v: "it_value it = Some (off, len)" "off + len = offset es i"
    and k: "e_shared ?e \<le> length (it_key it)" "take (e_shared ?e) (it_key it) = take (e_shared ?e) (e_key ?e)"
    using i by (auto simp: iter_before_def)
  have size: "length (block_bytes es rs) < 2 ^ 32" using ok by (simp add: block_ok_def)
  have less: "offset es i < ?R" using offset_less [of i "length es" es] i offset_end [of es] by simp
  have n: "NextEntryOffset it = Inr (offset es i)"
    using v less length_layout_le [of es rs] size by (simp add: NextEntryOffset_def)
  let ?r = "layout (drop (Suc i) es)" and ?n = "length (e_key ?e) - e_shared ?e"
  let ?s = "drop (e_shared ?e) (e_key ?e) @ e_val ?e @ ?r"
  have d: "drop (offset es i) (take (it_restarts it) (it_data it)) = entry_bytes ?e @ ?r"
    using it(1) drop_layout_nth [OF i] by (simp add: iter_of_def take_layout)
  have R: "?R = offset es i + length (entry_bytes ?e @ ?r)"
    using arg_cong [OF drop_layout_nth [OF i], of length] less by simp
  have le: "length (entry_bytes ?e @ ?r) < 2 ^ 32" using R length_layout_le [of es rs] size by linarith
  note dec = DecodeEntry_entry [OF le]
  have small: "unat (of_nat (e_shared ?e) :: u32) = e_shared ?e" "unat (of_nat ?n :: u32) = ?n"
    "unat (of_nat (length (e_val ?e)) :: u32) = length (e_val ?e)"
    using le shared_small(1) [OF ok i] by (simp_all add: length_entry unat_of_nat take_bit_nat_eq_self)
  let ?p = "offset es i + length (entry_head ?e)"
  have p: "?R - length ?s = ?p" using R by (simp add: length_entry)
  have dp: "drop ?p (block_bytes es rs) = ?s @ concat (map EncodeFixed32 rs) @ EncodeFixed32 (of_nat (length rs))"
  proof -
    have "drop ?p (layout es) = ?s"
      using arg_cong [OF drop_layout_nth [OF i], of "drop (length (entry_head ?e))"] by (simp add: entry_bytes_def add.commute)
    moreover have "?p \<le> ?R" using p by simp
    ultimately show ?thesis by (simp add: block_bytes_def)
  qed
  have room: "?p + ?n \<le> length (it_data it)"
    using it(1) R length_layout_le [of es rs] by (simp add: iter_of_def length_entry)
  have key: "take (e_shared ?e) (it_key it) @ take ?n (drop ?p (it_data it)) = e_key ?e"
    using it(1) k(2) by (simp add: iter_of_def dp)
  define it1 where "it1 = it\<lparr>it_current := offset es i, it_key := e_key ?e, it_value := Some (?p + ?n, length (e_val ?e))\<rparr>"
  have "iter_of es rs it1" "it_restart_index it1 < length rs" using it by (simp_all add: it1_def iter_of_def)
  from advance_restart_ok [OF this] obtain j where j: "j < length rs" "advance_restart it1 = Inr (it1\<lparr>it_restart_index := j\<rparr>)" by blast
  have R': "it_restarts it = ?R" using it(1) by (simp add: iter_of_def)
  have "ParseNextKey it = Inr (True, it1\<lparr>it_restart_index := j\<rparr>)"
    unfolding ParseNextKey_def n and_then.simps Let_def
    using less R' d dec small k(1) room key j(2) p
    by (simp add: it1_def del: take_append length_append)
  moreover have "iter_at es rs (it1\<lparr>it_restart_index := j\<rparr>) i"
    using it i j(1) value_offset [OF i] by (simp add: iter_at_def it1_def iter_of_def)
  ultimately show ?thesis by blast
qed

lemma parse_end:
  assumes ok: "block_ok es rs" and b: "iter_before es rs it (length es)"
  shows "\<exists>it'. ParseNextKey it = Inr (False, it') \<and> iter_ended es rs it'"
proof -
  from b obtain off len where it: "iter_of es rs it" and v: "it_value it = Some (off, len)" "off + len = length (layout es)"
    by (auto simp: iter_before_def offset_end)
  have "NextEntryOffset it = Inr (length (layout es))"
    using v ok length_layout_le [of es rs] by (simp add: NextEntryOffset_def block_ok_def)
  then show ?thesis using it by (simp add: ParseNextKey_def iter_of_def iter_ended_def Let_def)
qed

lemma at_before:
  assumes ok: "block_ok es rs" and a: "iter_at es rs it i"
  shows "iter_before es rs it (Suc i)"
proof -
  have c: "chained [] es" using ok by (simp add: block_ok_def)
  have i: "i < length es" and it: "iter_of es rs it" "it_key it = e_key (es ! i)" "it_restart_index it < length rs"
    "it_value it = Some (offset es (Suc i) - length (e_val (es ! i)), length (e_val (es ! i)))"
    using a by (auto simp: iter_at_def)
  have "length (e_val (es ! i)) \<le> offset es (Suc i)" using i by (simp add: offset_Suc length_entry)
  moreover have "e_shared (es ! Suc i) \<le> length (it_key it) \<and>
      take (e_shared (es ! Suc i)) (it_key it) = take (e_shared (es ! Suc i)) (e_key (es ! Suc i))" if "Suc i < length es"
    using chained_nth [OF c that] it(2) by (simp add: Let_def)
  ultimately show ?thesis using it i by (simp add: iter_before_def)
qed

lemma next_offset_at:
  assumes ok: "block_ok es rs" and a: "iter_at es rs it i"
  shows "NextEntryOffset it = Inr (offset es (Suc i))"
proof -
  have i: "i < length es" and v: "it_value it = Some (offset es (Suc i) - length (e_val (es ! i)), length (e_val (es ! i)))"
    using a by (auto simp: iter_at_def)
  have "offset es (Suc i) < 2 ^ 32"
    using offset_le [of es "Suc i"] length_layout_le [of es rs] ok by (simp add: block_ok_def)
  moreover have "length (e_val (es ! i)) \<le> offset es (Suc i)" using i by (simp add: offset_Suc length_entry)
  ultimately show ?thesis using v by (simp add: NextEntryOffset_def)
qed

lemma seek_restart:
  assumes ok: "block_ok es rs" and it: "iter_of es rs it" and j: "j < length rs"
  shows "\<exists>it' i. SeekToRestartPoint it j = Inr it' \<and> iter_before es rs it' i \<and> unat (rs ! j) = offset es i \<and>
    i \<le> length es \<and> (i = length es \<longrightarrow> es = []) \<and> (i < length es \<longrightarrow> e_shared (es ! i) = 0) \<and> it_current it' = it_current it"
proof -
  have "rs ! j \<in> set rs" using j by simp
  then obtain i where i: "i \<le> length es" "unat (rs ! j) = offset es i" "i < length es \<longrightarrow> e_shared (es ! i) = 0"
    "i = length es \<longrightarrow> es = []"
    using ok by (auto simp: block_ok_def restarts_ok_def)
  let ?it = "it\<lparr>it_key := [], it_restart_index := j, it_value := Some (unat (rs ! j), 0)\<rparr>"
  have "SeekToRestartPoint it j = Inr ?it" using GetRestartPoint_ok [OF it j] by (simp add: SeekToRestartPoint_def)
  moreover have "iter_before es rs ?it i" using it i j by (simp add: iter_before_def iter_of_def)
  ultimately show ?thesis using i by (intro exI [of _ ?it] exI [of _ i]) simp
qed

lemma at_valid: "iter_at es rs it i \<Longrightarrow> BlockIter_Valid it"
  using offset_less [of i "length es" es] offset_end [of es] by (simp add: iter_at_def iter_of_def BlockIter_Valid_def)

lemma ended_invalid: "iter_ended es rs it \<Longrightarrow> \<not> BlockIter_Valid it"
  by (simp add: iter_ended_def iter_of_def BlockIter_Valid_def)

section \<open>Walking through a block\<close>

text \<open>Where an iterator lands that looks for entry \<open>n\<close>.\<close>

definition lands :: "bentry list \<Rightarrow> u32 list \<Rightarrow> BlockIter \<Rightarrow> nat \<Rightarrow> bool" where
  "lands es rs it n = (if n < length es then iter_at es rs it n else iter_ended es rs it)"

lemma parse_lands:
  assumes "block_ok es rs" and "iter_before es rs it i"
  shows "\<exists>it'. ParseNextKey it = Inr (i < length es, it') \<and> lands es rs it' i"
proof (cases "i < length es")
  case True
  then show ?thesis using parse_entry [OF assms True] by (simp add: lands_def)
next
  case False
  then have "i = length es" using assms(2) by (simp add: iter_before_def)
  then show ?thesis using parse_end [OF assms(1)] assms(2) by (simp add: lands_def)
qed

lemma next_lands: "block_ok es rs \<Longrightarrow> iter_at es rs it i \<Longrightarrow> \<exists>it'. BlockIter_Next it = Inr it' \<and> lands es rs it' (Suc i)"
  using parse_lands [OF _ at_before] at_valid [of es rs it i] by (fastforce simp: BlockIter_Next_def)

lemma first_restart:
  assumes "block_ok es rs" and "iter_of es rs it"
  shows "\<exists>it'. SeekToRestartPoint it 0 = Inr it' \<and> iter_before es rs it' 0"
proof -
  have rs: "0 < length rs" "rs ! 0 = 0" using assms(1) by (auto simp: block_ok_def restarts_ok_def)
  from seek_restart [OF assms rs(1)] obtain it' i where s: "SeekToRestartPoint it 0 = Inr it'" "iter_before es rs it' i"
    "offset es i = 0" "i \<le> length es" "i = length es \<longrightarrow> es = []" using rs(2) by auto
  have "i = 0"
  proof (rule ccontr)
    assume "i \<noteq> 0"
    then have "offset es 0 < offset es i" using s(4) by (intro offset_less) auto
    then show False using s(3) by simp
  qed
  then show ?thesis using s by blast
qed

lemma first_lands: "block_ok es rs \<Longrightarrow> iter_of es rs it \<Longrightarrow> \<exists>it'. BlockIter_SeekToFirst it = Inr it' \<and> lands es rs it' 0"
  using first_restart parse_lands [of es rs _ 0] by (fastforce simp: BlockIter_SeekToFirst_def)

lemma scan_until_lands:
  assumes ok: "block_ok es rs"
  shows "iter_before es rs it i \<Longrightarrow> i \<le> n \<Longrightarrow> n < length es \<Longrightarrow> bound = offset es (Suc n) \<Longrightarrow>
    \<exists>it'. scan_until it bound = Some (Inr it') \<and> iter_at es rs it' n"
proof (induction "n - i" arbitrary: it i)
  case 0
  then have i: "i = n" "i < length es" by auto
  from parse_entry [OF ok 0(2) i(2)] obtain it' where it': "ParseNextKey it = Inr (True, it')" "iter_at es rs it' i" by blast
  then show ?case using next_offset_at [OF ok it'(2)] 0 i by (subst scan_until.simps) simp
next
  case (Suc m)
  then have i: "i < length es" "Suc i \<le> n" by auto
  from parse_entry [OF ok Suc(3) i(1)] obtain it' where it': "ParseNextKey it = Inr (True, it')" "iter_at es rs it' i" by blast
  have "offset es (Suc i) < bound" using offset_less [of "Suc i" "Suc n" es] i Suc.prems by simp
  moreover have "\<exists>it''. scan_until it' bound = Some (Inr it'') \<and> iter_at es rs it'' n"
    by (rule Suc(1) [of "Suc i"]) (use Suc at_before [OF ok it'(2)] i in auto)
  ultimately show ?case using it' next_offset_at [OF ok it'(2)] by (subst scan_until.simps) simp
qed

lemma restart_before_ok:
  assumes it: "iter_of es rs it" and "j < length rs"
  shows "case restart_before it original j of
    Inr None \<Rightarrow> original \<le> unat (rs ! 0)
  | Inr (Some k) \<Rightarrow> k < length rs \<and> unat (rs ! k) < original
  | Inl _ \<Rightarrow> False"
  using assms(2)
proof (induction j)
  case 0
  then show ?case using GetRestartPoint_ok [OF it 0] by simp
next
  case (Suc j)
  then show ?case using GetRestartPoint_ok [OF it Suc.prems] by (auto split: sum.splits option.splits)
qed

lemma last_lands:
  assumes ok: "block_ok es rs" and it: "iter_of es rs it"
  shows "\<exists>it'. BlockIter_SeekToLast it = Some (Inr it') \<and> (if es = [] then iter_ended es rs it' else iter_at es rs it' (length es - 1))"
proof -
  have n: "it_num_restarts it - 1 < length rs" "it_num_restarts it = length rs" "it_restarts it = length (layout es)"
    using ok it by (auto simp: block_ok_def restarts_ok_def iter_of_def)
  from seek_restart [OF ok it n(1)] obtain it1 i where s: "SeekToRestartPoint it (it_num_restarts it - 1) = Inr it1"
    "iter_before es rs it1 i" "i \<le> length es" "i = length es \<longrightarrow> es = []" by blast
  have R: "it_restarts it1 = length (layout es)" using s(2) by (simp add: iter_before_def iter_of_def)
  show ?thesis
  proof (cases "es = []")
    case True
    then have "\<exists>it'. ParseNextKey it1 = Inr (False, it') \<and> iter_ended es rs it'" using parse_end [OF ok] s by simp
    then show ?thesis using s(1) True by (auto simp: BlockIter_SeekToLast_def scan_until.simps [of it1])
  next
    case False
    then have "i \<le> length es - 1" "length es - 1 < length es" "length (layout es) = offset es (Suc (length es - 1))"
      using s(3,4) offset_end [of es] by (auto simp: Suc_diff_1)
    from scan_until_lands [OF ok s(2) this] show ?thesis using s(1) False R by (simp add: BlockIter_SeekToLast_def)
  qed
qed

lemma prev_lands:
  assumes ok: "block_ok es rs" and a: "iter_at es rs it i"
  shows "\<exists>it'. BlockIter_Prev it = Some (Inr it') \<and> (if i = 0 then iter_ended es rs it' else iter_at es rs it' (i - 1))"
proof -
  have it: "iter_of es rs it" and j: "it_restart_index it < length rs" and i: "i < length es" "it_current it = offset es i"
    using a by (auto simp: iter_at_def)
  have v: "BlockIter_Valid it" by (rule at_valid [OF a])
  have rs: "unat (rs ! 0) = 0" using ok by (auto simp: block_ok_def restarts_ok_def)
  note rb = restart_before_ok [OF it j, of "it_current it"]
  show ?thesis
  proof (cases "restart_before it (it_current it) (it_restart_index it)")
    case (Inl e)
    then show ?thesis using rb by simp
  next
    case (Inr k)
    show ?thesis
    proof (cases k)
      case None
      with Inr rb rs have "offset es i = offset es 0" by (simp add: i(2))
      then have "i = 0" using offset_inj [of i es 0] i(1) by (cases es) auto
      then show ?thesis using Inr None v it by (simp add: BlockIter_Prev_def iter_ended_def iter_of_def)
    next
      case (Some k')
      with Inr rb have k': "k' < length rs" "unat (rs ! k') < offset es i" by (simp_all add: i(2))
      from seek_restart [OF ok it k'(1)] obtain it1 i' where s: "SeekToRestartPoint it k' = Inr it1" "iter_before es rs it1 i'"
        "unat (rs ! k') = offset es i'" by blast
      have i': "i' < i"
      proof (rule ccontr)
        assume "\<not> i' < i"
        then show False using offset_mono [of i i' es] k'(2) s(3) by simp
      qed
      have "i' \<le> i - 1" "i - 1 < length es" "offset es i = offset es (Suc (i - 1))" using i' i(1) by auto
      from scan_until_lands [OF ok s(2) this] obtain it' where
        "scan_until it1 (offset es i) = Some (Inr it')" "iter_at es rs it' (i - 1)" by blast
      then show ?thesis using Inr Some v s(1) i i' by (simp add: BlockIter_Prev_def)
    qed
  qed
qed

section \<open>Searching a block\<close>

definition first_at_least :: "Comparator \<Rightarrow> bytes \<Rightarrow> bentry list \<Rightarrow> nat" where
  "first_at_least c target es = length (takeWhile (\<lambda>e. Compare c (e_key e) target < 0) es)"

lemma first_at_least_below: "j < first_at_least c target es \<Longrightarrow> Compare c (e_key (es ! j)) target < 0"
  unfolding first_at_least_def using set_takeWhileD nth_mem takeWhile_nth by metis

lemma first_at_least_found: "first_at_least c target es < length es \<Longrightarrow> \<not> Compare c (e_key (es ! first_at_least c target es)) target < 0"
  unfolding first_at_least_def by (rule nth_length_takeWhile)

lemma first_at_least_le: "first_at_least c target es \<le> length es"
  by (simp add: first_at_least_def length_takeWhile_le)

abbreviation strictly_sorted :: "Comparator \<Rightarrow> bentry list \<Rightarrow> bool" where
  "strictly_sorted c es \<equiv> sorted_wrt (\<lambda>a b. Compare c (e_key a) (e_key b) < 0) es"

lemma scan_to_lands:
  assumes ok: "block_ok es rs"
  shows "iter_before es rs it i \<Longrightarrow> i \<le> first_at_least c target es \<Longrightarrow>
    \<exists>it'. scan_to c it target = Some (Inr it') \<and> lands es rs it' (first_at_least c target es)"
proof (induction "first_at_least c target es - i" arbitrary: it i)
  case 0
  then have i: "i = first_at_least c target es" by simp
  from parse_lands [OF ok 0(2)] obtain it' where p: "ParseNextKey it = Inr (i < length es, it')" "lands es rs it' i" by blast
  have "i < length es \<Longrightarrow> 0 \<le> Compare c (it_key it') target"
    using p(2) first_at_least_found [of c target es] i by (simp add: lands_def iter_at_def)
  then show ?case using p i by (subst scan_to.simps) auto
next
  case (Suc m)
  then have i: "i < first_at_least c target es" by simp
  then have "i < length es" using first_at_least_le [of c target es] by simp
  from parse_entry [OF ok Suc(3) this] obtain it' where p: "ParseNextKey it = Inr (True, it')" "iter_at es rs it' i" by blast
  have "Compare c (it_key it') target < 0" using p(2) first_at_least_below [OF i] by (simp add: iter_at_def)
  moreover have "\<exists>it''. scan_to c it' target = Some (Inr it'') \<and> lands es rs it'' (first_at_least c target es)"
    by (rule Suc(1) [of "Suc i"]) (use Suc at_before [OF ok p(2)] i in auto)
  ultimately show ?case using p(1) by (subst scan_to.simps) auto
qed

text \<open>The key that the binary search reads at a restart point.\<close>

lemma decode_at_restart:
  assumes ok: "block_ok es rs" and it: "iter_of es rs it" and i: "i < length es" "e_shared (es ! i) = 0"
  shows "\<exists>n v s. DecodeEntry (drop (offset es i) (take (it_restarts it) (it_data it))) = Some (0, n, v, s) \<and>
    it_restarts it - length s + unat n \<le> length (it_data it) \<and>
    take (unat n) (drop (it_restarts it - length s) (it_data it)) = e_key (es ! i)"
proof -
  let ?it = "it\<lparr>it_key := [], it_restart_index := 0, it_value := Some (offset es i, 0)\<rparr>"
  have rs: "0 < length rs" using ok by (auto simp: block_ok_def restarts_ok_def)
  have "iter_before es rs ?it i" using it i rs by (simp add: iter_before_def iter_of_def)
  from parse_entry [OF ok this i(1)] obtain it' where p: "ParseNextKey ?it = Inr (True, it')" "iter_at es rs it' i" by blast
  have n: "NextEntryOffset ?it = Inr (offset es i)"
    using offset_le [of es i] length_layout_le [of es rs] ok by (simp add: NextEntryOffset_def block_ok_def)
  have adv: "advance_restart x = Inr y \<Longrightarrow> it_key y = it_key x" for x y
    by (induction x rule: advance_restart.induct) (subst (asm) (2) advance_restart.simps, auto split: if_splits)
  show ?thesis
  proof (cases "DecodeEntry (drop (offset es i) (take (it_restarts it) (it_data it)))")
    case None
    then show ?thesis using p(1) n by (auto simp: ParseNextKey_def Let_def split: if_splits)
  next
    case (Some q)
    obtain sh nn vl s where q: "q = (sh, nn, vl, s)" by (cases q)
    have zero: "sh = 0" using p(1) n Some q by (auto simp: ParseNextKey_def Let_def unat_eq_zero split: if_splits)
    have "it_restarts it - length s + unat nn \<le> length (it_data it) \<and>
        it_key it' = take (unat nn) (drop (it_restarts it - length s) (it_data it))"
      using p(1) n Some q zero adv by (auto simp: ParseNextKey_def Let_def split: if_splits)
    then show ?thesis using Some q zero p(2) by (auto simp: iter_at_def)
  qed
qed

lemma bisect_ok:
  assumes ok: "block_ok es rs" and it: "iter_of es rs it"
  shows "right < length rs \<Longrightarrow> left \<le> right \<Longrightarrow>
    \<exists>l. bisect c it target left right = Inr (Some l) \<and> l < length rs \<and>
      (l = left \<or> (\<exists>i < length es. unat (rs ! l) = offset es i \<and> Compare c (e_key (es ! i)) target < 0))"
proof (induction "right - left" arbitrary: left right rule: less_induct)
  case less
  show ?case
  proof (cases "left < right")
    case False
    then have "left < length rs" using less.prems by simp
    then show ?thesis using False by (subst bisect.simps) simp
  next
    case True
    let ?mid = "(left + right + 1) div 2"
    have mid: "left < ?mid" "?mid \<le> right" using True by auto
    have es: "es \<noteq> []" using ok less.prems(1) True by (auto simp: block_ok_def restarts_ok_def)
    have "rs ! ?mid \<in> set rs" using less.prems(1) mid by simp
    then obtain i where i: "unat (rs ! ?mid) = offset es i" "i < length es" "e_shared (es ! i) = 0"
      using ok es by (fastforce simp: block_ok_def restarts_ok_def le_eq_less_or_eq)
    have pt: "GetRestartPoint it ?mid = Inr (offset es i)" using GetRestartPoint_ok [OF it] less.prems(1) mid i(1) by simp
    from decode_at_restart [OF ok it i(2,3)] obtain n v s where
      d: "DecodeEntry (drop (offset es i) (take (it_restarts it) (it_data it))) = Some (0, n, v, s)"
      "it_restarts it - length s + unat n \<le> length (it_data it)"
      "take (unat n) (drop (it_restarts it - length s) (it_data it)) = e_key (es ! i)" by blast
    have eq: "bisect c it target left right =
        (if Compare c (e_key (es ! i)) target < 0 then bisect c it target ?mid right else bisect c it target left (?mid - 1))"
      using True pt d by (subst bisect.simps) (simp add: Let_def)
    show ?thesis
    proof (cases "Compare c (e_key (es ! i)) target < 0")
      case below: True
      have "right - ?mid < right - left" using mid by linarith
      from less.hyps [OF this less.prems(1) mid(2)] below i(1,2) eq show ?thesis by auto
    next
      case False
      have "?mid - 1 - left < right - left" "?mid - 1 < length rs" "left \<le> ?mid - 1" using mid less.prems(1) by linarith+
      from less.hyps [OF this] False eq show ?thesis by auto
    qed
  qed
qed

context comparator
begin

lemma below_first:
  assumes "strictly_sorted c es" and "i < length es" and "Compare c (e_key (es ! i)) target < 0"
  shows "i < first_at_least c target es"
proof (rule ccontr)
  let ?n = "first_at_least c target es"
  assume "\<not> i < ?n"
  then have n: "?n \<le> i" "?n < length es" using assms(2) by auto
  have "Compare c (e_key (es ! ?n)) target < 0"
  proof (cases "?n = i")
    case False
    then have "Compare c (e_key (es ! ?n)) (e_key (es ! i)) < 0"
      using assms(1,2) n by (simp add: sorted_wrt_iff_nth_less)
    then show ?thesis using assms(3) by (rule cmp_trans)
  qed (use assms(3) in simp)
  then show False using first_at_least_found [OF n(2)] by simp
qed

lemma found_first:
  assumes "strictly_sorted c es" and "i < length es" and "e_key (es ! i) = target"
  shows "first_at_least c target es = i"
proof (rule antisym)
  show "first_at_least c target es \<le> i"
  proof (rule ccontr)
    assume "\<not> ?thesis"
    then have "Compare c (e_key (es ! i)) target < 0" by (intro first_at_least_below) simp
    then show False using assms(3) cmp_refl [of target] by simp
  qed
  show "i \<le> first_at_least c target es"
  proof (cases i)
    case (Suc j)
    then have "Compare c (e_key (es ! j)) target < 0" using assms by (auto simp: sorted_wrt_iff_nth_less)
    from below_first [OF assms(1) _ this] Suc assms(2) show ?thesis by simp
  qed simp
qed

text \<open>\<open>Seek\<close> finds the first entry whose key is not below the target, wherever the iterator stood before.\<close>

lemma seek_lands:
  assumes ok: "block_ok es rs" and sorted: "strictly_sorted c es" and it: "iter_of es rs it"
    and pos: "BlockIter_Valid it \<longrightarrow> (\<exists>i. iter_at es rs it i)"
  shows "\<exists>it'. BlockIter_Seek c it target = Some (Inr it') \<and> lands es rs it' (first_at_least c target es)"
proof -
  let ?n = "first_at_least c target es"
  let ?cmp = "if BlockIter_Valid it then Compare c (it_key it) target else 0"
  let ?left = "if ?cmp < 0 then it_restart_index it else 0"
  let ?right = "if ?cmp > 0 then it_restart_index it else it_num_restarts it - 1"
  have rs: "0 < length rs" "it_num_restarts it = length rs" using ok it by (auto simp: block_ok_def restarts_ok_def iter_of_def)
  show ?thesis
  proof (cases "BlockIter_Valid it \<and> ?cmp = 0")
    case True
    then obtain i where i: "iter_at es rs it i" using pos by blast
    then have "e_key (es ! i) = target" "i < length es" using True cmp_eq by (auto simp: iter_at_def)
    then have "lands es rs it ?n" using found_first [OF sorted] i by (simp add: lands_def)
    moreover have "BlockIter_Seek c it target = Some (Inr it)"
      unfolding BlockIter_Seek_def Let_def by (rule if_P [OF True])
    ultimately show ?thesis by blast
  next
    case False
    have ri: "it_restart_index it < length rs" if "BlockIter_Valid it" using that pos by (auto simp: iter_at_def)
    have range: "?right < length rs" "?left \<le> ?right"
      using rs ri by (auto split: if_splits)
    from bisect_ok [OF ok it range, of c target] obtain l where
      b: "bisect c it target ?left ?right = Inr (Some l)" and l: "l < length rs" and
      cases_l: "l = ?left \<or> (\<exists>i < length es. unat (rs ! l) = offset es i \<and> Compare c (e_key (es ! i)) target < 0)" by blast
    have eq: "BlockIter_Seek c it target =
        (if l = it_restart_index it \<and> ?cmp < 0 then scan_to c it target
         else (case SeekToRestartPoint it l of Inl e \<Rightarrow> Some (Inl e) | Inr it \<Rightarrow> scan_to c it target))"
      unfolding BlockIter_Seek_def Let_def using False b by (simp only: if_False sum.case option.case)
    show ?thesis
    proof (cases "l = it_restart_index it \<and> ?cmp < 0")
      case True
      then have v: "BlockIter_Valid it" by (auto split: if_splits)
      then obtain i where i: "iter_at es rs it i" using pos by blast
      then have "Compare c (e_key (es ! i)) target < 0" "i < length es" using True v by (auto simp: iter_at_def)
      from below_first [OF sorted this(2,1)] scan_to_lands [OF ok at_before [OF ok i], of c target] True eq
      show ?thesis by auto
    next
      case no_skip: False
      from seek_restart [OF ok it l] obtain it1 i where s: "SeekToRestartPoint it l = Inr it1" "iter_before es rs it1 i"
        "unat (rs ! l) = offset es i" "i \<le> length es" "i = length es \<longrightarrow> es = []" by blast
      have "i \<le> ?n"
      proof (cases "l = ?left")
        case True
        with no_skip have "l = 0" by (auto split: if_splits)
        then have "offset es i = 0" using s(3) ok by (auto simp: block_ok_def restarts_ok_def)
        then have "i = 0" using offset_less [of 0 i es] s(4,5) by (cases es; cases "i = 0") auto
        then show ?thesis by simp
      next
        case False
        then obtain j where j: "j < length es" "unat (rs ! l) = offset es j" "Compare c (e_key (es ! j)) target < 0"
          using cases_l by blast
        then have "i < length es" using s(4,5) by (cases "i = length es") auto
        then have "i = j" using offset_inj [of i es j] j s(3) by simp
        then show ?thesis using below_first [OF sorted j(1,3)] by simp
      qed
      from scan_to_lands [OF ok s(2) this] s(1) eq no_skip show ?thesis by simp
    qed
  qed
qed

end

section \<open>The builder\<close>

lemma shared_prefix_ok:
  "shared_prefix a b \<le> length a \<and> shared_prefix a b \<le> length b \<and> take (shared_prefix a b) a = take (shared_prefix a b) b"
  by (induction a b rule: shared_prefix.induct) auto

definition builder_holds :: "Comparator \<Rightarrow> nat \<Rightarrow> BlockBuilder \<Rightarrow> bentry list \<Rightarrow> bool" where
  "builder_holds c k b es \<longleftrightarrow> bb_buffer b = layout es \<and> bb_last_key b = (if es = [] then [] else e_key (last es)) \<and>
     \<not> bb_finished b \<and> bb_counter b \<le> k \<and> (es = [] \<longrightarrow> bb_counter b = 0) \<and>
     chained [] es \<and> restarts_ok (bb_restarts b) es \<and> strictly_sorted c es \<and> length (bb_restarts b) \<le> Suc (length es)"

lemma restarts_ok_snoc:
  assumes "restarts_ok rs es" and "es = [] \<longrightarrow> e_shared e = 0"
  shows "restarts_ok rs (es @ [e])"
proof -
  have off: "i \<le> length es \<Longrightarrow> offset (es @ [e]) i = offset es i" for i by (simp add: offset_def)
  have "\<exists>i \<le> length (es @ [e]). unat r = offset (es @ [e]) i \<and> (i < length (es @ [e]) \<longrightarrow> e_shared ((es @ [e]) ! i) = 0) \<and>
      (i = length (es @ [e]) \<longrightarrow> es @ [e] = [])" if "r \<in> set rs" for r
  proof -
    from assms(1) that obtain i where i: "i \<le> length es" "unat r = offset es i" "i < length es \<longrightarrow> e_shared (es ! i) = 0"
      "i = length es \<longrightarrow> es = []" by (auto simp: restarts_ok_def)
    then show ?thesis using assms(2) off [of i] by (intro exI [of _ i]) (auto simp: nth_append le_eq_less_or_eq)
  qed
  then show ?thesis using assms(1) by (simp add: restarts_ok_def)
qed

lemma restarts_ok_new:
  assumes "restarts_ok rs (es @ [e])" and "e_shared e = 0" and "length (layout es) < 2 ^ 32"
  shows "restarts_ok (rs @ [of_nat (length (layout es))]) (es @ [e])"
proof -
  have "unat (of_nat (length (layout es)) :: u32) = offset (es @ [e]) (length es)"
    using assms(3) by (simp add: offset_def unat_of_nat take_bit_nat_eq_self)
  then show ?thesis using assms(1,2) by (auto simp: restarts_ok_def nth_append intro!: exI [of _ "length es"])
qed

lemma Add_holds:
  assumes h: "builder_holds c k b es" and k: "1 \<le> k" and size: "length (layout es) < 2 ^ 32"
    and key: "es = [] \<or> Compare c key (e_key (last es)) > 0" and sorted: "\<forall>e \<in> set es. Compare c (e_key e) key < 0"
  shows "\<exists>b' sh. BlockBuilder_Add c k b key val = Inr b' \<and> builder_holds c k b' (es @ [(sh, key, val)])"
proof -
  let ?last = "if es = [] then [] else e_key (last es)"
  define sh where "sh = (if bb_counter b < k then shared_prefix ?last key else 0)"
  define rs where "rs = (if bb_counter b < k then bb_restarts b else bb_restarts b @ [of_nat (length (bb_buffer b))])"
  define n where "n = (if bb_counter b < k then bb_counter b else 0)"
  let ?e = "(sh, key, val)"
  have sp: "sh \<le> length ?last" "sh \<le> length key" "take sh ?last = take sh key"
    using shared_prefix_ok [of ?last key] by (auto simp: sh_def)
  have lk: "take sh ?last @ drop sh key = key" using sp(3) by simp
  have buf: "bb_buffer b = layout es" "bb_last_key b = ?last" "\<not> bb_finished b" "bb_counter b \<le> k"
    using h by (auto simp: builder_holds_def)
  have empty: "layout es = [] \<longleftrightarrow> es = []"
  proof (cases es)
    case (Cons e es')
    have "0 < length (entry_bytes e)" using length_head [of e] unfolding length_entry by linarith
    then show ?thesis using Cons by auto
  qed simp
  let ?b = "b\<lparr>bb_buffer := layout es @ entry_bytes ?e, bb_restarts := rs, bb_counter := n + 1, bb_last_key := key\<rparr>"
  have "BlockBuilder_Add c k b key val = Inr ?b"
    using buf key empty lk
    by (auto simp: BlockBuilder_Add_def PutVarint32_def Let_def entry_bytes_def entry_head_def sh_def rs_def n_def
        split: if_splits)
  moreover have "restarts_ok rs (es @ [?e])"
  proof -
    have "es = [] \<longrightarrow> sh = 0" using sp(1) by (cases "es = []") simp_all
    then have r: "restarts_ok (bb_restarts b) (es @ [?e])" using h by (intro restarts_ok_snoc) (auto simp: builder_holds_def)
    show ?thesis
    proof (cases "bb_counter b < k")
      case False
      then show ?thesis using restarts_ok_new [OF r _ size] buf(1) by (simp add: rs_def sh_def)
    qed (use r in \<open>simp add: rs_def\<close>)
  qed
  moreover have "strictly_sorted c (es @ [?e])" using sorted h by (auto simp: sorted_wrt_append builder_holds_def)
  moreover have "chained [] (es @ [?e])" using h sp by (auto simp: builder_holds_def chained_snoc Let_def)
  moreover have "length rs \<le> Suc (length (es @ [?e]))" using h by (simp add: rs_def builder_holds_def)
  ultimately have "builder_holds c k ?b (es @ [?e])" using buf(3,4) k by (simp add: builder_holds_def n_def)
  with \<open>BlockBuilder_Add c k b key val = Inr ?b\<close> show ?thesis by blast
qed

text \<open>Adding a list of pairs to an empty builder.\<close>

fun BlockBuilder_Adds :: "Comparator \<Rightarrow> nat \<Rightarrow> BlockBuilder \<Rightarrow> (bytes \<times> bytes) list \<Rightarrow> BlockBuilder result" where
  "BlockBuilder_Adds c k b [] = Inr b"
| "BlockBuilder_Adds c k b ((key, val) # kvs) = and_then (BlockBuilder_Add c k b key val) (\<lambda>b. BlockBuilder_Adds c k b kvs)"

text \<open>An upper bound of the bytes that the pairs and their restart points take.\<close>

definition pairs_size :: "(bytes \<times> bytes) list \<Rightarrow> nat" where
  "pairs_size kvs = (\<Sum>(k, v) \<leftarrow> kvs. 19 + length k + length v)"

lemma length_entry_le: "length (entry_bytes e) \<le> 15 + length (e_key e) + length (e_val e)"
proof -
  have "length (EncodeVarint32 v) \<le> 5" for v by (auto simp: EncodeVarint32_def)
  from add_mono [OF this add_mono [OF this this]] have "length (entry_head e) \<le> 15" by (simp add: entry_head_def)
  then show ?thesis by (simp add: length_entry)
qed

lemma length_layout_pairs: "length (layout es) + 4 * length es \<le> pairs_size (map snd es)"
proof (induction es)
  case (Cons e es)
  then show ?case using length_entry_le [of e] by (simp add: pairs_size_def case_prod_beta)
qed (simp add: pairs_size_def)

context comparator
begin

lemma Adds_hold:
  "builder_holds c k b es \<Longrightarrow> 1 \<le> k \<Longrightarrow> sorted_wrt (\<lambda>a b. Compare c (fst a) (fst b) < 0) (map snd es @ kvs) \<Longrightarrow>
   pairs_size (map snd es @ kvs) < 2 ^ 32 \<Longrightarrow>
   \<exists>b' es'. BlockBuilder_Adds c k b kvs = Inr b' \<and> builder_holds c k b' es' \<and> map snd es' = map snd es @ kvs"
proof (induction kvs arbitrary: b es)
  case Nil
  then show ?case by auto
next
  case (Cons kv kvs)
  obtain key val where kv: "kv = (key, val)" by (cases kv)
  have below: "\<forall>e \<in> set es. Compare c (e_key e) key < 0"
    using Cons.prems(3) by (auto simp: sorted_wrt_append kv)
  then have last: "es = [] \<or> Compare c key (e_key (last es)) > 0" using cmp_anti last_in_set by metis
  have size: "length (layout es) < 2 ^ 32"
    using length_layout_pairs [of es] Cons.prems(4) by (simp add: pairs_size_def)
  from Add_holds [OF Cons.prems(1,2) size last below] obtain b1 sh where
    b1: "BlockBuilder_Add c k b key val = Inr b1" "builder_holds c k b1 (es @ [(sh, key, val)])" by blast
  from Cons.IH [OF b1(2) Cons.prems(2)] Cons.prems(3,4) b1(1) show ?case by (simp add: kv)
qed

end

lemma make_holds: "1 \<le> k \<Longrightarrow> \<exists>b. BlockBuilder_make k = Inr b \<and> builder_holds c k b []"
  by (simp add: BlockBuilder_make_def builder_holds_def restarts_ok_def)

lemma foldl_PutFixed32: "foldl PutFixed32 buf rs = buf @ concat (map EncodeFixed32 rs)"
  by (induction rs arbitrary: buf) (simp_all add: PutFixed32_def)

lemma Finish_bytes: "builder_holds c k b es \<Longrightarrow> fst (BlockBuilder_Finish b) = block_bytes es (bb_restarts b)"
  by (simp add: BlockBuilder_Finish_def builder_holds_def block_bytes_def foldl_PutFixed32 PutFixed32_def Let_def)

lemma length_restarts: "length (concat (map EncodeFixed32 rs)) = length rs * 4"
  by (induction rs) simp_all

text \<open>Opening what the builder finished.\<close>

lemma open_block:
  assumes ok: "block_ok es rs"
  shows "\<exists>it. Block_NewIterator (Block_make (block_bytes es rs)) = Inr (Block_iterator it) \<and> iter_of es rs it \<and> \<not> BlockIter_Valid it"
proof -
  let ?d = "block_bytes es rs" and ?n = "of_nat (length rs) :: u32"
  have size: "length ?d < 2 ^ 32" "rs \<noteq> []" using ok by (auto simp: block_ok_def restarts_ok_def)
  have len: "length ?d = length (layout es) + length rs * 4 + 4" by (simp add: block_bytes_def length_restarts)
  have n: "unat ?n = length rs" using size(1) len by (simp add: unat_of_nat take_bit_nat_eq_self)
  have last: "drop (length ?d - 4) ?d = EncodeFixed32 ?n"
    using len by (simp add: block_bytes_def length_restarts)
  then have nr: "NumRestarts \<lparr>bl_data = ?d, bl_size = length ?d, bl_restart_offset = r\<rparr> = Inr ?n" for r
    using len by (simp add: NumRestarts_def)
  have mk: "Block_make ?d = \<lparr>bl_data = ?d, bl_size = length ?d, bl_restart_offset = length (layout es)\<rparr>"
    using nr [of 0] n len size(1) by (simp add: Block_make_def Let_def)
  have "?n \<noteq> 0" using n size(2) by (metis length_0_conv unat_0)
  then show ?thesis
    using nr n size(2) len by (simp add: mk Block_NewIterator_def BlockIter_make_def iter_of_def BlockIter_Valid_def)
qed

section \<open>The iterator as a cursor\<close>

text \<open>The calls that a client makes on an iterator, and running a sequence of them.\<close>

datatype block_op = To_first | To_last | To_next | To_prev | To_key bytes

fun BlockIter_do :: "Comparator \<Rightarrow> BlockIter \<Rightarrow> block_op \<Rightarrow> BlockIter result option" where
  "BlockIter_do c it To_first = Some (BlockIter_SeekToFirst it)"
| "BlockIter_do c it To_last = BlockIter_SeekToLast it"
| "BlockIter_do c it To_next = Some (BlockIter_Next it)"
| "BlockIter_do c it To_prev = BlockIter_Prev it"
| "BlockIter_do c it (To_key target) = BlockIter_Seek c it target"

fun BlockIter_run :: "Comparator \<Rightarrow> BlockIter \<Rightarrow> block_op list \<Rightarrow> BlockIter result option" where
  "BlockIter_run c it [] = Some (Inr it)"
| "BlockIter_run c it (x # xs) =
     (case BlockIter_do c it x of
        None \<Rightarrow> None | Some (Inl e) \<Rightarrow> Some (Inl e) | Some (Inr it) \<Rightarrow> BlockIter_run c it xs)"

text \<open>The specification: a position in the sorted list of pairs, or none; a step from no position fails its assertion.\<close>

definition cursor_at :: "(bytes \<times> bytes) list \<Rightarrow> nat \<Rightarrow> nat option" where
  "cursor_at kvs i = (if i < length kvs then Some i else None)"

fun cursor_do :: "Comparator \<Rightarrow> (bytes \<times> bytes) list \<Rightarrow> nat option \<Rightarrow> block_op \<Rightarrow> nat option result" where
  "cursor_do c kvs cur To_first = Inr (cursor_at kvs 0)"
| "cursor_do c kvs cur To_last = Inr (cursor_at kvs (length kvs - 1))"
| "cursor_do c kvs (Some i) To_next = Inr (cursor_at kvs (Suc i))"
| "cursor_do c kvs (Some i) To_prev = Inr (if i = 0 then None else Some (i - 1))"
| "cursor_do c kvs cur (To_key target) = Inr (cursor_at kvs (length (takeWhile (\<lambda>(k, v). Compare c k target < 0) kvs)))"
| "cursor_do c kvs None _ = Inl Assert_failed"

fun cursor_run :: "Comparator \<Rightarrow> (bytes \<times> bytes) list \<Rightarrow> nat option \<Rightarrow> block_op list \<Rightarrow> nat option result" where
  "cursor_run c kvs cur [] = Inr cur"
| "cursor_run c kvs cur (x # xs) = and_then (cursor_do c kvs cur x) (\<lambda>cur. cursor_run c kvs cur xs)"

text \<open>What a client sees of an iterator.\<close>

definition block_entry :: "BlockIter \<Rightarrow> (bytes \<times> bytes) option result" where
  "block_entry it =
     (if BlockIter_Valid it
      then and_then (BlockIter_key it) (\<lambda>k. and_then (BlockIter_value it) (\<lambda>v. Inr (Some (k, v)))) else Inr None)"

definition stands :: "bentry list \<Rightarrow> u32 list \<Rightarrow> BlockIter \<Rightarrow> nat option \<Rightarrow> bool" where
  "stands es rs it cur \<longleftrightarrow>
     (case cur of None \<Rightarrow> iter_of es rs it \<and> \<not> BlockIter_Valid it | Some i \<Rightarrow> iter_at es rs it i)"

lemma stands_of: "stands es rs it cur \<Longrightarrow> iter_of es rs it"
  by (auto simp: stands_def iter_at_def split: option.splits)

lemma lands_stands: "lands es rs it n \<Longrightarrow> stands es rs it (cursor_at (map snd es) n)"
  using ended_invalid [of es rs it] by (auto simp: lands_def stands_def cursor_at_def iter_ended_def)

lemma ended_stands: "iter_ended es rs it \<Longrightarrow> stands es rs it None"
  using ended_invalid [of es rs it] by (simp add: stands_def iter_ended_def)

lemma value_at:
  assumes a: "iter_at es rs it i"
  shows "BlockIter_value it = Inr (e_val (es ! i))"
proof -
  let ?e = "es ! i"
  let ?pre = "layout (take i es) @ entry_head ?e @ drop (e_shared ?e) (e_key ?e)"
  have i: "i < length es" using a by (simp add: iter_at_def)
  then have "layout es = layout (take i es) @ entry_bytes ?e @ layout (drop (Suc i) es)"
    by (metis id_take_nth_drop layout_simps(2,3))
  then have data: "block_bytes es rs = ?pre @ e_val ?e @
      layout (drop (Suc i) es) @ concat (map EncodeFixed32 rs) @ EncodeFixed32 (of_nat (length rs))"
    by (simp add: block_bytes_def entry_bytes_def)
  have "offset es (Suc i) - length (e_val ?e) = length ?pre"
    unfolding offset_Suc [OF i] by (simp add: offset_def entry_bytes_def)
  then have v: "it_value it = Some (length ?pre, length (e_val ?e))" and d: "it_data it = block_bytes es rs"
    using a by (simp_all add: iter_at_def iter_of_def)
  show ?thesis using at_valid [OF a] unfolding BlockIter_value_def v d option.case prod.case data by simp
qed

lemma stands_entry: "stands es rs it cur \<Longrightarrow> block_entry it = Inr (map_option (\<lambda>i. map snd es ! i) cur)"
  by (cases cur) (auto simp: stands_def block_entry_def at_valid BlockIter_key_def value_at, auto simp: iter_at_def)

context comparator
begin

lemma do_refines:
  assumes ok: "block_ok es rs" and sorted: "strictly_sorted c es" and st: "stands es rs it cur"
  shows "case cursor_do c (map snd es) cur x of
      Inl e \<Rightarrow> BlockIter_do c it x = Some (Inl e)
    | Inr cur' \<Rightarrow> \<exists>it'. BlockIter_do c it x = Some (Inr it') \<and> stands es rs it' cur'"
proof (cases x)
  case To_first
  then show ?thesis using first_lands [OF ok stands_of [OF st]] lands_stands by auto
next
  case To_last
  from last_lands [OF ok stands_of [OF st]] obtain it' where it': "BlockIter_SeekToLast it = Some (Inr it')"
    "if es = [] then iter_ended es rs it' else iter_at es rs it' (length es - 1)" by blast
  then have "stands es rs it' (cursor_at (map snd es) (length es - 1))"
    using ended_stands [of es rs it'] by (cases "es = []") (simp_all add: cursor_at_def stands_def)
  then show ?thesis using To_last it'(1) by simp
next
  case To_next
  then show ?thesis using next_lands [OF ok] st lands_stands
    by (cases cur) (auto simp: stands_def BlockIter_Next_def, fastforce simp: BlockIter_Next_def stands_def)
next
  case To_prev
  show ?thesis
  proof (cases cur)
    case None
    then show ?thesis using st To_prev by (simp add: stands_def BlockIter_Prev_def)
  next
    case (Some i)
    then have "iter_at es rs it i" using st by (simp add: stands_def)
    from prev_lands [OF ok this] show ?thesis using Some To_prev ended_stands by (auto simp: stands_def)
  qed
next
  case (To_key target)
  have "BlockIter_Valid it \<longrightarrow> (\<exists>i. iter_at es rs it i)" using st by (auto simp: stands_def split: option.splits)
  from seek_lands [OF ok sorted stands_of [OF st] this, of target]
  obtain it' where s: "BlockIter_Seek c it target = Some (Inr it')" "lands es rs it' (first_at_least c target es)" by blast
  have "first_at_least c target es = length (takeWhile (\<lambda>(k, v). Compare c k target < 0) (map snd es))"
    by (simp add: first_at_least_def takeWhile_map comp_def case_prod_beta)
  then show ?thesis using To_key s lands_stands [OF s(2)] by simp
qed

lemma run_refines:
  assumes ok: "block_ok es rs" and sorted: "strictly_sorted c es"
  shows "stands es rs it cur \<Longrightarrow>
    case cursor_run c (map snd es) cur xs of
      Inl e \<Rightarrow> BlockIter_run c it xs = Some (Inl e)
    | Inr cur' \<Rightarrow> \<exists>it'. BlockIter_run c it xs = Some (Inr it') \<and> stands es rs it' cur'"
proof (induction xs arbitrary: it cur)
  case Nil
  then show ?case by simp
next
  case (Cons x xs)
  note d = do_refines [OF ok sorted Cons.prems, of x]
  show ?case
  proof (cases "cursor_do c (map snd es) cur x")
    case (Inl e)
    then show ?thesis using d by simp
  next
    case (Inr cur')
    with d obtain it' where it': "BlockIter_do c it x = Some (Inr it')" "stands es rs it' cur'" by auto
    then have "BlockIter_run c it (x # xs) = BlockIter_run c it' xs" by simp
    then show ?thesis using Cons.IH [OF it'(2)] Inr by (simp only: cursor_run.simps and_then.simps)
  qed
qed

end

section \<open>Building and opening a block\<close>

definition build_block :: "Comparator \<Rightarrow> nat \<Rightarrow> (bytes \<times> bytes) list \<Rightarrow> bytes result" where
  "build_block c k kvs =
     and_then (BlockBuilder_make k) (\<lambda>b. and_then (BlockBuilder_Adds c k b kvs) (\<lambda>b. Inr (fst (BlockBuilder_Finish b))))"

abbreviation keys_increase :: "Comparator \<Rightarrow> (bytes \<times> bytes) list \<Rightarrow> bool" where
  "keys_increase c kvs \<equiv> sorted_wrt (\<lambda>a b. Compare c (fst a) (fst b) < 0) kvs"

context comparator
begin

lemma build_ok:
  assumes k: "1 \<le> k" and sorted: "keys_increase c kvs" and size: "pairs_size kvs + 8 < 2 ^ 32"
  shows "\<exists>es rs. build_block c k kvs = Inr (block_bytes es rs) \<and> block_ok es rs \<and> strictly_sorted c es \<and> map snd es = kvs"
proof -
  from make_holds [OF k] obtain b0 where b0: "BlockBuilder_make k = Inr b0" "builder_holds c k b0 []" by blast
  from Adds_hold [OF b0(2) k] sorted size obtain b es where
    b: "BlockBuilder_Adds c k b0 kvs = Inr b" "builder_holds c k b es" "map snd es = kvs" by force
  have "length (block_bytes es (bb_restarts b)) = length (layout es) + length (bb_restarts b) * 4 + 4"
    by (simp add: block_bytes_def length_restarts)
  moreover have "length (bb_restarts b) \<le> Suc (length es)" using b(2) by (simp add: builder_holds_def)
  ultimately have "length (block_bytes es (bb_restarts b)) < 2 ^ 32"
    using length_layout_pairs [of es] size unfolding b(3) by linarith
  then have "block_ok es (bb_restarts b)" "strictly_sorted c es" using b(2) by (simp_all add: builder_holds_def block_ok_def)
  moreover have "build_block c k kvs = Inr (block_bytes es (bb_restarts b))"
    using Finish_bytes [OF b(2)] by (simp add: build_block_def b0(1) b(1))
  ultimately show ?thesis using b(3) by blast
qed

lemma built_block_refines:
  assumes "1 \<le> k" and "keys_increase c kvs" and "pairs_size kvs + 8 < 2 ^ 32"
  shows "\<exists>data it. build_block c k kvs = Inr data \<and> Block_NewIterator (Block_make data) = Inr (Block_iterator it) \<and>
    (\<forall>xs. case cursor_run c kvs None xs of
       Inl e \<Rightarrow> BlockIter_run c it xs = Some (Inl e)
     | Inr cur \<Rightarrow> \<exists>it'. BlockIter_run c it xs = Some (Inr it') \<and> it_status it' = Status_OK \<and>
         block_entry it' = Inr (map_option (\<lambda>i. kvs ! i) cur))"
proof -
  from build_ok [OF assms] obtain es rs where
    es: "build_block c k kvs = Inr (block_bytes es rs)" "block_ok es rs" "strictly_sorted c es" "map snd es = kvs" by blast
  from open_block [OF es(2)] obtain it where
    it: "Block_NewIterator (Block_make (block_bytes es rs)) = Inr (Block_iterator it)" "stands es rs it None"
    by (auto simp: stands_def)
  have "case cursor_run c kvs None xs of
       Inl e \<Rightarrow> BlockIter_run c it xs = Some (Inl e)
     | Inr cur \<Rightarrow> \<exists>it'. BlockIter_run c it xs = Some (Inr it') \<and> it_status it' = Status_OK \<and>
         block_entry it' = Inr (map_option (\<lambda>i. kvs ! i) cur)" for xs
    using run_refines [OF es(2,3) it(2), of xs] stands_entry [of es rs] stands_of [of es rs] es(4)
    by (fastforce simp: iter_of_def split: sum.splits)
  then show ?thesis using es(1) it(1) by blast
qed

end

section \<open>Properties\<close>

text \<open>
  C40: a block built from pairs with increasing keys, for every restart interval of at least one,
  opens, and its iterator is a cursor over those pairs: whatever sequence of \<open>SeekToFirst\<close>, \<open>SeekToLast\<close>, \<open>Next\<close>,
  \<open>Prev\<close> and \<open>Seek\<close> a client makes, every call ends, the iterator shows the pair at the position of the cursor or is
  not valid when the cursor has none, its status stays OK, and a step from an invalid position is the only assertion
  that fails. The pairs have to fit a block whose offsets are \<open>uint32_t\<close>.
\<close>

theorem block_iterator_refines:
  assumes "1 \<le> k" and "keys_increase BytewiseComparator kvs" and "pairs_size kvs + 8 < 2 ^ 32"
  shows "\<exists>data it. build_block BytewiseComparator k kvs = Inr data \<and>
    Block_NewIterator (Block_make data) = Inr (Block_iterator it) \<and>
    (\<forall>xs. case cursor_run BytewiseComparator kvs None xs of
       Inl e \<Rightarrow> BlockIter_run BytewiseComparator it xs = Some (Inl e)
     | Inr cur \<Rightarrow> \<exists>it'. BlockIter_run BytewiseComparator it xs = Some (Inr it') \<and> it_status it' = Status_OK \<and>
         block_entry it' = Inr (map_option (\<lambda>i. kvs ! i) cur))"
  by (rule bytewise.built_block_refines [OF assms])

theorem block_iterator_refines_witness:
  "\<exists>data it it'. build_block BytewiseComparator 2 [([1], [10]), ([1, 2], []), ([3], [30])] = Inr data \<and>
    Block_NewIterator (Block_make data) = Inr (Block_iterator it) \<and>
    BlockIter_run BytewiseComparator it [To_last, To_prev, To_key [2], To_first, To_key [1, 1]] = Some (Inr it') \<and>
    it_status it' = Status_OK \<and> block_entry it' = Inr (Some ([1, 2], []))"
proof -
  let ?kvs = "[([1], [10]), ([1, 2], []), ([3], [30])] :: (bytes \<times> bytes) list"
  have s: "keys_increase BytewiseComparator ?kvs" by (simp add: BytewiseComparator_def)
  have p: "pairs_size ?kvs + 8 < 2 ^ 32" by (simp add: pairs_size_def)
  have c: "cursor_run BytewiseComparator ?kvs None [To_last, To_prev, To_key [2], To_first, To_key [1, 1]] = Inr (Some 1)"
    by (simp add: cursor_at_def BytewiseComparator_def)
  obtain data it where d: "build_block BytewiseComparator 2 ?kvs = Inr data"
    "Block_NewIterator (Block_make data) = Inr (Block_iterator it)"
    "\<forall>xs. case cursor_run BytewiseComparator ?kvs None xs of
       Inl e \<Rightarrow> BlockIter_run BytewiseComparator it xs = Some (Inl e)
     | Inr cur \<Rightarrow> \<exists>it'. BlockIter_run BytewiseComparator it xs = Some (Inr it') \<and> it_status it' = Status_OK \<and>
         block_entry it' = Inr (map_option (\<lambda>i. ?kvs ! i) cur)"
    using block_iterator_refines [OF _ s p, of 2] by auto
  show ?thesis
    using d(1,2) d(3) [rule_format, of "[To_last, To_prev, To_key [2], To_first, To_key [1, 1]]"] unfolding c by auto
qed

text \<open>
  \<open>DecodeEntry\<close> adds the two lengths of an entry in 32 bits. An entry whose lengths together
  exceed \<open>2 ^ 32\<close> is accepted although its key and value do not lie in the block, as soon as the wrapped sum fits.
\<close>

lemma block_length_wraps:
  assumes "2 ^ 32 \<le> unat ns + unat vl" and "unat ns + unat vl - 2 ^ 32 \<le> length r" and "length r < 2 ^ 32"
  shows "DecodeEntry (EncodeVarint32 sh @ EncodeVarint32 ns @ EncodeVarint32 vl @ r) = Some (sh, ns, vl, r) \<and>
    length r < unat ns + unat vl"
proof -
  let ?s = "EncodeVarint32 sh @ EncodeVarint32 ns @ EncodeVarint32 vl @ r"
  have enc: "GetVarint32Ptr (EncodeVarint32 v @ t) = Some (v, t)" for v t
    using GetVarint32_Encode [of v t] by (simp only: GetVarint32_def)
  then have slow: "slow_entry ?s = Some (sh, ns, vl, r)" by (simp add: slow_entry_def)
  have one: "1 \<le> length (EncodeVarint32 v)" for v by (auto simp: EncodeVarint32_def)
  have "1 + (1 + (1 + length r)) \<le> length ?s" unfolding length_append by (intro add_mono one order_refl)
  then have len: "3 \<le> length ?s" by linarith
  have b: "unat ns < 2 ^ 32" "unat vl < 2 ^ 32" using unsigned_less [of ns] unsigned_less [of vl] by simp_all
  have "unat (ns + vl) = (unat ns + unat vl) mod 2 ^ 32" by (simp add: unat_word_ariths)
  also have "\<dots> = unat ns + unat vl - 2 ^ 32"
    using assms(1) b by (simp add: le_mod_geq)
  finally have "\<not> of_nat (length r) < ns + vl"
    using assms(2,3) by (simp add: word_less_nat_alt unat_of_nat take_bit_nat_eq_self)
  then show ?thesis using assms(1,3) by (simp only: DecodeEntry_slow [OF len] slow option.case prod.case if_False) simp
qed

end
