(* ===== verification/Bench.thy ===== *)
theory Bench
  imports Wire
begin

text \<open>
  The benchmark client (\<open>benchmark.cc\<close>, \<open>include/generator.h\<close>) and the start-up of both programs
  (\<open>include/instance.h\<close>, \<open>include/flags.h\<close>, \<open>server.cc\<close>): how keys and values are made, how the workload files are
  read, how the operations are split among the client threads and what each thread sends. The clients are the
  argument \<open>Client\<close>, a record of the virtual functions of \<open>frontend/cs.h\<close>; time measurement is left out.
\<close>

section \<open>Keys and values\<close>

definition str :: "string \<Rightarrow> bytes" where "str s = map of_char s"

text \<open>The decimal digits of a number, and \<open>%0*d\<close> with a width, which counts the sign.\<close>

fun digits :: "nat \<Rightarrow> string" where
  "digits n = (if n < 10 then [char_of (48 + n)] else digits (n div 10) @ [char_of (48 + n mod 10)])"

declare digits.simps [simp del]

definition pad_zero :: "nat \<Rightarrow> string \<Rightarrow> string" where
  "pad_zero w s = replicate (w - length s) (CHR ''0'') @ s"

definition format_0d :: "nat \<Rightarrow> int \<Rightarrow> string" where
  "format_0d w i = (if i < 0 then CHR ''-'' # pad_zero (w - 1) (digits (nat (- i))) else pad_zero w (digits (nat i)))"

definition KEY_PREFIX :: bytes where "KEY_PREFIX = str ''KEY_''"

definition BuildKey :: "u32 \<Rightarrow> bytes" where
  "BuildKey key_num = KEY_PREFIX @ take 12 (str (format_0d 12 (sint key_num)))"

text \<open>\<open>VALUE_POOL\<close> is an array, so its size counts the terminating zero.\<close>

definition VALUE_POOL :: bytes where
  "VALUE_POOL = str (
      ''l9hd62^dfh.pxrC6ZU79OnfCZ06DsNXWY3U4dt1JTGQVvylBdZSlHWXC4PokCxsMdjv8xRptFMMQyH12DEr7Zur'' @
      ''tZpsyreMmPwuw7WMRnoN5wAYWtkqDwXyQlYb4RgtSc4xsonpTx2UhIUi15oJTx1CXAhmECacCQf4eeJ9Utus0N'' @
      ''mKgEFV8qYDsNtJ21TkjCyCDhVIATkEugCw1BfNIB9AZDGiqXc0llp4rlJPl4bIG2QC4La3M1oh3yIGkolpdoYV'' @
      ''er1dc9EfQz88q5Hv00g53Q3H6jcgicoY8YW5K4josd2e53ikesQi2kzqvTI9xxM5wtFexkFm8wFdTf37Hz204w'' @
      ''fQErGZkdMnRxXJ5EJ627e7zuFuVtazb0L65B3nU5R9tyUl2bTZiDcakK9evrTXoTkbkGjkCOiMSTNCzlUZCxof'' @
      ''jYQCLusRkXEm0CNVuifTnytctwLfKjwob4hJ0WxlQN9FV9Mm9zT61EQ8zEMrqr6hf7XMqhcQR7DWAKaspUaU6h'' @
      ''oP2w3t3MktVaBp6MgS6Apbkb7EsihETHHqKFkKMCkYBbKfgsq7Jy49T1Wx2UJsD3XX03kVBbqRWmrjIKzqQEnN'' @
      ''sd0f-0d09540936/.f/dfprjetroeijtte0985409609254fj/.s.1293@1!$43556oi5y6o54yi6ikjsdbfsd'' @
      '')('' @ ''*7^hdjdyf484*^%$$3{}}{}{POI)_IUOHH&*^^&$Dydyutd65456djug('' @ ''*_('' @ ''*OIHJHKJBKJBKJB@A@A$gggg'' @
      ''+_0-8435906IYWV79364ngkbo5m788*()M<:>><:Lpkdfgmgrtjyoyij5yj657i6509ju560ju560ju0uj0uj6'' @
      ''NvhE8N7yR26fgHncH6QbsI10HyxlvYHKFiMk5nPNDbffueF2xKLzteSd0NazU2APkJWXvBW2oUu8dkZnWMM8TH'' @
      ''vrUoLDWwMdh14MfxwmEQbtGnUHEpRktUB6b7JTJN8IHyxlvYHKFiMk5nPND()bueF2xKLz;|@f,t'') @ [0]"

lemma VALUE_POOL_length: "length VALUE_POOL = 1024"
  by (simp add: VALUE_POOL_def str_def)

lemma VALUE_POOL_text: "0 \<notin> set (take 1023 VALUE_POOL)" "VALUE_POOL ! 1023 = 0"
  by (simp_all add: VALUE_POOL_def str_def)

lemma unat_add_below: "unat cur + n \<le> unat len \<Longrightarrow> unat (cur + of_nat n :: u32) = unat cur + n" for len :: u32
proof -
  assume "unat cur + n \<le> unat len"
  also have "unat len < 2 ^ 32" using unsigned_less [of len] by simp
  finally show ?thesis by (simp add: unat_word_ariths unat_of_nat take_bit_nat_eq_self)
qed

text \<open>The loop of \<open>BuildValue\<close>: \<open>cur_length\<close> is an \<open>int\<close> that is compared as an unsigned number.\<close>

function BuildValue_loop :: "u32 \<Rightarrow> u32 \<Rightarrow> bytes \<Rightarrow> bytes" where
  "BuildValue_loop len cur_length result =
     (if cur_length < len then
        let cut_len = min (unat (len - cur_length)) (length VALUE_POOL) in
        BuildValue_loop len (cur_length + of_nat cut_len) (result @ take cut_len VALUE_POOL)
      else result)"
  by auto
termination
proof (relation "measure (\<lambda>(len, cur, _). unat (len - cur))", goal_cases)
  case (2 len cur result cut)
  have d: "unat (len - cur) = unat len - unat cur" "unat cur < unat len"
    using 2(1) by (simp_all add: unat_sub word_less_nat_alt less_imp_le)
  have c: "0 < cut" "cut \<le> unat (len - cur)" using 2(2) d by (simp_all add: VALUE_POOL_length)
  have "unat (cur + of_nat cut) = unat cur + cut" by (rule unat_add_below [of cur cut len]) (use c(2) d in linarith)
  with c d show ?case by (simp add: unat_sub word_le_nat_alt)
qed simp

declare BuildValue_loop.simps [simp del]

definition BuildValue :: "u32 \<Rightarrow> bytes \<Rightarrow> bytes" where
  "BuildValue len key =
     (let result = str ''VALUE_'' @ key in
      BuildValue_loop (len - of_nat (length result)) 0 result)"

text \<open>What a client reads of a string that it is given as a \<open>const char *\<close>.\<close>

definition c_str :: "bytes \<Rightarrow> bytes" where "c_str bs = takeWhile (\<lambda>b. b \<noteq> 0) bs"

section \<open>Workload files\<close>

definition isspace :: "char \<Rightarrow> bool" where
  "isspace c \<longleftrightarrow> c \<in> {CHR '' '', CHR 0x09, CHR 0x0a, CHR 0x0b, CHR 0x0c, CHR 0x0d}"

definition next_token :: "string \<Rightarrow> string \<times> string" where
  "next_token s = (let s = dropWhile isspace s in (takeWhile (\<lambda>c. \<not> isspace c) s, dropWhile (\<lambda>c. \<not> isspace c) s))"

text \<open>
  \<open>infile >> op >> key\<close> followed by \<open>good()\<close>: a token that is empty sets \<open>failbit\<close>, and one that ends with the file
  sets \<open>eofbit\<close>.
\<close>

definition read_pair :: "string \<Rightarrow> (string \<times> string \<times> string) option" where
  "read_pair s =
     (let (w, r) = next_token s; (key, r') = next_token r in
      if w \<noteq> [] \<and> r \<noteq> [] \<and> key \<noteq> [] \<and> r' \<noteq> [] then Some (w, key, r') else None)"

lemma next_token_le: "next_token s = (t, r) \<Longrightarrow> length r \<le> length s"
  by (auto simp: next_token_def Let_def intro: order.trans [OF length_dropWhile_le length_dropWhile_le])

lemma next_token_less: "next_token s = (t, r) \<Longrightarrow> t \<noteq> [] \<Longrightarrow> length r < length s"
proof -
  assume t: "next_token s = (t, r)" "t \<noteq> []"
  let ?s = "dropWhile isspace s"
  have "length ?s = length t + length r"
    using t(1) takeWhile_dropWhile_id [of "\<lambda>c. \<not> isspace c" ?s] unfolding next_token_def Let_def
    by (metis length_append prod.inject)
  then show ?thesis using t(2) length_dropWhile_le [of isspace s] by (cases t) auto
qed

lemma read_pair_less: "read_pair s = Some (w, key, r) \<Longrightarrow> length r < length s"
  unfolding read_pair_def Let_def
  by (auto split: prod.splits if_splits) (meson next_token_less less_trans)

text \<open>The flag tells whether \<open>LoadData\<close> goes on: a line that is not an insertion makes it return.\<close>

function load_init :: "string \<Rightarrow> bytes list \<Rightarrow> bytes list \<times> bool" where
  "load_init s init_keys =
     (case read_pair s of
        None \<Rightarrow> (init_keys, True)
      | Some (w, key, r) \<Rightarrow> if w \<noteq> ''INSERT'' then (init_keys, False) else load_init r (init_keys @ [str key]))"
  by auto
termination by (relation "measure (length \<circ> fst)") (auto dest: read_pair_less)

definition op_of_word :: "string \<Rightarrow> Operation option" where
  "op_of_word w =
     (if w = ''INSERT'' then Some PUT else if w = ''READ'' then Some GET
      else if w = ''UPDATE'' then Some UPDATE else if w = ''DELETE'' then Some DELETE else None)"

function load_txn :: "string \<Rightarrow> (Operation \<times> bytes) list \<Rightarrow> (Operation \<times> bytes) list" where
  "load_txn s ops =
     (case read_pair s of
        None \<Rightarrow> ops
      | Some (w, key, r) \<Rightarrow>
          (case op_of_word w of None \<Rightarrow> ops | Some p \<Rightarrow> load_txn r (ops @ [(p, str key)])))"
  by auto
termination by (relation "measure (length \<circ> fst)") (auto dest: read_pair_less)

declare load_init.simps [simp del] load_txn.simps [simp del]

text \<open>\<open>None\<close> is a file that cannot be opened. The vectors \<open>ops_\<close> and \<open>keys_\<close> are one list of pairs.\<close>

definition LoadData ::
  "bool \<Rightarrow> bool \<Rightarrow> string option \<Rightarrow> string option \<Rightarrow> (bytes list \<times> (Operation \<times> bytes) list) result" where
  "LoadData queryonly loadonly init_file txn_file =
     (case init_file of
        None \<Rightarrow> Inl Exit_failure
      | Some f \<Rightarrow>
          let (init_keys, go_on) = (if \<not> queryonly then load_init f [] else ([], True)) in
          if \<not> go_on then Inr (init_keys, [])
          else
            (case txn_file of
               None \<Rightarrow> Inl Exit_failure
             | Some g \<Rightarrow> Inr (init_keys, if \<not> loadonly then load_txn g [] else [])))"

section \<open>The threads\<close>

record 'c Client =
  cl_SendPut :: "'c \<Rightarrow> bytes \<Rightarrow> bytes \<Rightarrow> 'c result"
  cl_SendUpdate :: "'c \<Rightarrow> bytes \<Rightarrow> bytes \<Rightarrow> 'c result"
  cl_SendGet :: "'c \<Rightarrow> bytes \<Rightarrow> (bytes option \<times> 'c) result"
  cl_SendDelete :: "'c \<Rightarrow> bytes \<Rightarrow> (bool \<times> 'c) result"
  cl_SendClose :: "'c \<Rightarrow> 'c result"


fun Populate :: "'c Client \<Rightarrow> u32 \<Rightarrow> bytes list \<Rightarrow> 'c \<Rightarrow> 'c result" where
  "Populate vt valsize [] c = Inr c"
| "Populate vt valsize (key # keys) c =
     and_then (cl_SendPut vt c (c_str key) (c_str (BuildValue valsize key))) (Populate vt valsize keys)"

definition run_op :: "'c Client \<Rightarrow> u32 \<Rightarrow> Operation \<Rightarrow> bytes \<Rightarrow> 'c \<Rightarrow> 'c result" where
  "run_op vt valsize p key c =
     (let val = BuildValue valsize key in
      case p of
        PUT \<Rightarrow> cl_SendPut vt c (c_str key) (c_str (key @ val))
      | UPDATE \<Rightarrow> cl_SendUpdate vt c (c_str key) (c_str val)
      | GET \<Rightarrow> and_then (cl_SendGet vt c (c_str key)) (\<lambda>(found, c). and_then (check (found \<noteq> None) Assert_failed) (\<lambda>_. Inr c))
      | DELETE \<Rightarrow> and_then (cl_SendDelete vt c (c_str key)) (\<lambda>(found, c). and_then (check found Assert_failed) (\<lambda>_. Inr c))
      | _ \<Rightarrow> Inr c)"

fun Bench_Run :: "'c Client \<Rightarrow> u32 \<Rightarrow> (Operation \<times> bytes) list \<Rightarrow> 'c \<Rightarrow> 'c result" where
  "Bench_Run vt valsize [] c = Inr c"
| "Bench_Run vt valsize ((p, key) # ops) c = and_then (run_op vt valsize p key c) (Bench_Run vt valsize ops)"


section \<open>Start-up\<close>

record MyOption =
  opt_dir :: string
  opt_pmem :: string
  opt_cmb_device :: string
  opt_rdma_device :: string
  opt_port :: int
  opt_gid :: int
  opt_ipaddr :: string
  opt_ipport :: int
  opt_front_type :: string
  opt_client_num :: int
  opt_lat_mode :: bool
  opt_db_type :: string
  opt_sync :: bool
  opt_opnum :: int
  opt_initnum :: int
  opt_valsize :: int
  opt_init_file :: string
  opt_txn_file :: string

definition default_opt :: MyOption where
  "default_opt = \<lparr>opt_dir = ''/data/nvme0'', opt_pmem = ''/dev/dax1.0'', opt_cmb_device = ''/dev/nvme0'',
     opt_rdma_device = ''mlx5_0'', opt_port = 1, opt_gid = 3, opt_ipaddr = ''192.168.2.1'', opt_ipport = 4040,
     opt_front_type = ''pmraccess'', opt_client_num = 1, opt_lat_mode = False, opt_db_type = ''cuckoodb'',
     opt_sync = True, opt_opnum = 1000, opt_initnum = 0, opt_valsize = 40,
     opt_init_file = ''/home/lyp/pmraccess/build/dataset.dat'', opt_txn_file = ''/home/lyp/pmraccess/build/query.dat''\<rparr>"

datatype db_class = Class_LevelDB | Class_CuckooDB
datatype front_class = Class_PMem | Class_PMR | Class_Group

definition OpenDB :: "MyOption \<Rightarrow> db_class option" where
  "OpenDB opt =
     (if opt_db_type opt = ''leveldb'' then Some Class_LevelDB
      else if opt_db_type opt = ''cuckoodb'' then Some Class_CuckooDB else None)"

definition NewClient :: "MyOption \<Rightarrow> front_class option" where
  "NewClient opt =
     (if opt_front_type opt = ''pmemaccess'' then Some Class_PMem
      else if opt_front_type opt = ''pmraccess'' then Some Class_PMR
      else if opt_front_type opt = ''groupaccess'' then Some Class_Group else None)"

definition NewServer :: "MyOption \<Rightarrow> db_class option \<Rightarrow> (front_class \<times> db_class option) option" where
  "NewServer opt db =
     (if opt_front_type opt = ''pmemaccess'' then Some (Class_PMem, db)
      else if opt_front_type opt = ''pmraccess'' then Some (Class_PMR, db)
      else if opt_front_type opt = ''groupaccess'' then Some (Class_Group, db) else None)"

text \<open>\<open>main\<close> of the server, up to \<open>Listen\<close>; the arguments are the two options it accepts.\<close>

definition server_main :: "string \<Rightarrow> string \<Rightarrow> (front_class \<times> db_class option) result" where
  "server_main fronttype dbtype =
     (let opt = default_opt\<lparr>opt_front_type := fronttype, opt_db_type := dbtype\<rparr>;
          db = OpenDB opt in
      case NewServer opt db of None \<Rightarrow> Inl Exit_failure | Some s \<Rightarrow> Inr s)"

text \<open>A database type that does not exist is not refused: the server listens with a null database.\<close>

lemma server_main_unknown_db:
  "dbtype \<noteq> ''leveldb'' \<Longrightarrow> dbtype \<noteq> ''cuckoodb'' \<Longrightarrow> server_main ''pmraccess'' dbtype = Inr (Class_PMR, None)"
  by (simp add: server_main_def OpenDB_def NewServer_def)

text \<open>Client and server of the same front type agree.\<close>

lemma client_server_agree:
  "NewClient opt = Some f \<longleftrightarrow> (\<exists>db. NewServer opt db = Some (f, db))"
  by (auto simp: NewClient_def NewServer_def)

section \<open>What the threads cover\<close>




section \<open>What a client receives of a value\<close>

lemma BuildValue_loop_length:
  "cur \<le> len \<Longrightarrow> length (BuildValue_loop len cur result) = length result + (unat len - unat cur)"
proof (induction len cur result rule: BuildValue_loop.induct)
  case (1 len cur result)
  show ?case
  proof (cases "cur < len")
    case True
    let ?cut = "min (unat (len - cur)) (length VALUE_POOL)"
    have d: "unat (len - cur) = unat len - unat cur" "unat cur < unat len"
      using True by (simp_all add: unat_sub word_less_nat_alt less_imp_le)
    have b: "unat cur + ?cut \<le> unat len" using d by simp
    then have u: "unat (cur + of_nat ?cut) = unat cur + ?cut" by (rule unat_add_below)
    then have "cur + of_nat ?cut \<le> len" using b by (simp add: word_le_nat_alt)
    from 1(1) [OF True refl this] u b show ?thesis
      by (subst BuildValue_loop.simps) (simp add: True Let_def min_def)
  next
    case False
    with 1(2) have "cur = len" by simp
    then show ?thesis by (subst BuildValue_loop.simps) simp
  qed
qed

lemma BuildValue_first:
  assumes "1024 \<le> unat len"
  shows "\<exists>rest. BuildValue_loop len 0 result = result @ VALUE_POOL @ rest"
proof -
  have grows: "\<exists>rest. BuildValue_loop len cur r = r @ rest" for cur r
    by (induction len cur r rule: BuildValue_loop.induct) (subst BuildValue_loop.simps, auto simp: Let_def)
  have "0 < len" "min (unat len) (length VALUE_POOL) = 1024" using assms by (simp_all add: VALUE_POOL_length word_less_nat_alt)
  then have "BuildValue_loop len 0 result = BuildValue_loop len 1024 (result @ VALUE_POOL)"
    by (subst BuildValue_loop.simps) (simp add: Let_def VALUE_POOL_length)
  with grows [of 1024 "result @ VALUE_POOL"] show ?thesis by auto
qed

lemma length_prefix: "length (str ''VALUE_'') = 6" "0 \<notin> set (str ''VALUE_'')"
  by (simp_all add: str_def)

lemma pool_split: "VALUE_POOL = take 1023 VALUE_POOL @ [0]"
proof -
  have "VALUE_POOL = take 1023 VALUE_POOL @ VALUE_POOL ! 1023 # drop 1024 VALUE_POOL"
    using id_take_nth_drop [of 1023 VALUE_POOL] by (simp add: VALUE_POOL_length)
  then show ?thesis by (simp add: VALUE_POOL_text VALUE_POOL_length)
qed

section \<open>Reading back a workload\<close>

definition word_ok :: "string \<Rightarrow> bool" where "word_ok w \<longleftrightarrow> w \<noteq> [] \<and> (\<forall>c \<in> set w. \<not> isspace c)"

definition line :: "string \<Rightarrow> string \<Rightarrow> string" where "line w key = w @ '' '' @ key @ [CHR 0x0a]"

lemma isspace_simps [simp]: "isspace (CHR 0x0a)" "isspace (CHR '' '')"
  by (simp_all add: isspace_def)

lemma next_token_word: "word_ok w \<Longrightarrow> isspace c \<Longrightarrow> next_token (w @ c # r) = (w, c # r)"
  by (cases w) (auto simp: word_ok_def next_token_def Let_def takeWhile_append2 dropWhile_append2)

lemma next_token_skip: "isspace c \<Longrightarrow> next_token (c # s) = next_token s"
  by (simp add: next_token_def)

lemma read_pair_line:
  "word_ok w \<Longrightarrow> word_ok key \<Longrightarrow> read_pair (line w key @ r) = Some (w, key, CHR 0x0a # r)"
  using next_token_word [of w "CHR '' ''" "key @ CHR 0x0a # r"] next_token_word [of key "CHR 0x0a" r]
  by (simp add: read_pair_def line_def next_token_skip word_ok_def)

lemma read_pair_skip: "isspace c \<Longrightarrow> read_pair (c # s) = read_pair s"
  by (simp add: read_pair_def next_token_skip)

lemma load_init_skip: "isspace c \<Longrightarrow> load_init (c # s) ks = load_init s ks"
  by (subst (1 2) load_init.simps) (simp add: read_pair_skip)

lemma load_init_lines:
  "\<forall>k \<in> set keys. word_ok k \<Longrightarrow>
   load_init (concat (map (line ''INSERT'') keys)) ks = (ks @ map str keys, True)"
proof (induction keys arbitrary: ks)
  case Nil
  then show ?case by (subst load_init.simps) (simp add: read_pair_def next_token_def)
next
  case (Cons k keys)
  have w: "word_ok ''INSERT''" by (simp add: word_ok_def isspace_def)
  have "read_pair (concat (map (line ''INSERT'') (k # keys))) =
      Some (''INSERT'', k, CHR 0x0a # concat (map (line ''INSERT'') keys))"
    using read_pair_line [OF w, of k] Cons.prems by simp
  then show ?case using Cons by (subst load_init.simps) (simp add: load_init_skip)
qed

text \<open>Without the last line break the last key is not loaded.\<close>

lemma load_init_unfinished:
  assumes "\<forall>k \<in> set keys. word_ok k" and "word_ok k"
  shows "load_init (concat (map (line ''INSERT'') keys) @ ''INSERT '' @ k) ks = (ks @ map str keys, True)"
  using assms(1)
proof (induction keys arbitrary: ks)
  case Nil
  have w: "word_ok ''INSERT''" by (simp add: word_ok_def isspace_def)
  have "dropWhile isspace k = k" "dropWhile (\<lambda>c. \<not> isspace c) k = []"
    using assms(2) by (cases k; auto simp: word_ok_def)+
  then have "next_token k = (takeWhile (\<lambda>c. \<not> isspace c) k, [])" by (simp add: next_token_def)
  then have "read_pair (''INSERT '' @ k) = None"
    using next_token_word [OF w, of "CHR '' ''" k] by (simp add: read_pair_def next_token_skip)
  then show ?case by (subst load_init.simps) simp
next
  case (Cons k' keys)
  have w: "word_ok ''INSERT''" by (simp add: word_ok_def isspace_def)
  have "read_pair (concat (map (line ''INSERT'') (k' # keys)) @ ''INSERT '' @ k) =
      Some (''INSERT'', k', CHR 0x0a # concat (map (line ''INSERT'') keys) @ ''INSERT '' @ k)"
    using read_pair_line [OF w, of k' "concat (map (line ''INSERT'') keys) @ ''INSERT '' @ k"] Cons.prems by simp
  then show ?case using Cons by (subst load_init.simps) (simp add: load_init_skip)
qed

section \<open>Properties\<close>



text \<open>
  \<open>BuildValue\<close> makes a value of the requested size when that leaves room for the prefix and
  the key; a smaller size wraps around and makes a value of four gigabytes more; and a size that takes more than
  the text of the pool contains its terminating zero, so that the client, which is given a C string, sends only
  the part before it.
\<close>

lemma bench_value_size:
  assumes "0 \<notin> set key" and "6 + length key < 2 ^ 32"
  shows "(6 + length key \<le> unat valsize \<longrightarrow> length (BuildValue valsize key) = unat valsize) \<and>
    (unat valsize < 6 + length key \<longrightarrow> length (BuildValue valsize key) = 2 ^ 32 + unat valsize) \<and>
    (6 + length key + 1024 \<le> unat valsize \<longrightarrow> length (c_str (BuildValue valsize key)) = 6 + length key + 1023)"
proof (intro conjI impI)
  let ?r = "str ''VALUE_'' @ key" and ?n = "of_nat (6 + length key) :: u32"
  have n: "unat ?n = 6 + length key" using assms(2) by (simp add: unat_of_nat take_bit_nat_eq_self del: of_nat_add)
  have l: "length ?r = 6 + length key" by (simp add: length_prefix)
  have v: "BuildValue valsize key = BuildValue_loop (valsize - ?n) 0 ?r" by (simp only: BuildValue_def Let_def l)
  have size: "length (BuildValue valsize key) = 6 + length key + unat (valsize - ?n)"
    unfolding v by (subst BuildValue_loop_length) (simp_all add: length_prefix)
  show "length (BuildValue valsize key) = unat valsize" if "6 + length key \<le> unat valsize"
    using size n that by (simp add: unat_sub word_le_nat_alt)
  show "length (BuildValue valsize key) = 2 ^ 32 + unat valsize" if "unat valsize < 6 + length key"
    using size n that assms(2) unat_sub_if' [of valsize ?n] by (simp add: word_size)
  show "length (c_str (BuildValue valsize key)) = 6 + length key + 1023" if "6 + length key + 1024 \<le> unat valsize"
  proof -
    have "1024 \<le> unat (valsize - ?n)" using n that by (simp add: unat_sub word_le_nat_alt)
    from BuildValue_first [OF this, of ?r] obtain rest where "BuildValue valsize key = ?r @ VALUE_POOL @ rest"
      unfolding v by blast
    moreover have "VALUE_POOL @ rest = take 1023 VALUE_POOL @ 0 # rest"
      using arg_cong [OF pool_split, of "\<lambda>p. p @ rest"] by (simp only: append.assoc append.simps)
    ultimately have "BuildValue valsize key = (?r @ take 1023 VALUE_POOL) @ 0 # rest" by (simp only: append.assoc)
    moreover have "0 \<notin> set (?r @ take 1023 VALUE_POOL)" using assms(1) VALUE_POOL_text(1) length_prefix(2) by simp
    ultimately have "c_str (BuildValue valsize key) = ?r @ take 1023 VALUE_POOL"
      unfolding c_str_def by (simp only: takeWhile_tail) (auto intro!: takeWhile_eq_all_conv [THEN iffD2])
    then show ?thesis by (simp add: length_prefix VALUE_POOL_length)
  qed
qed

end
