(* ===== verification/Cuckoo_Table.thy ===== *)
theory Cuckoo_Table
  imports Prelude
begin

text \<open>
  The hash map of \<open>database/cuckoodb/libcuckoo/cuckoohash_map.h\<close> and \<open>bucket_container.h\<close> (the front end has the same
  files once more) as \<open>CuckooDB\<close> and the PMR server instantiate it: four slots per bucket, keys that are not simple, data
  that can be moved without exceptions. The table is the record of its members: the current and the old bucket
  container, the lock arrays with the element counters and the migration flags, and the number of locks that wait for
  migration. The operations are those of one caller in \<open>normal_mode\<close>: taking a lock migrates the buckets below it, and
  \<open>check_hashpower\<close> compares with the hashpower read before. A slot is free or holds the partial key, the key and the
  value; memory of free slots is not read. The hash function is a parameter.
\<close>

section \<open>Hashing\<close>

definition slot_per_bucket :: nat where "slot_per_bucket = 4"

definition kMaxNumLocks :: nat where "kMaxNumLocks = 65536"

definition DEFAULT_SIZE :: nat where "DEFAULT_SIZE = 2 ^ 16 * 4"

definition NO_MAXIMUM_HASHPOWER :: nat where "NO_MAXIMUM_HASHPOWER = 2 ^ 64 - 1"

definition partial_key :: "u64 \<Rightarrow> byte" where
  "partial_key hash =
     (let hash_32bit = (ucast hash XOR ucast (drop_bit 32 hash)) :: u32;
          hash_16bit = (ucast hash_32bit XOR ucast (drop_bit 16 hash_32bit)) :: u16 in
      ucast hash_16bit XOR ucast (drop_bit 8 hash_16bit))"

record hash_value =
  hv_hash :: u64
  hv_partial :: byte

definition hashed_key :: "('k \<Rightarrow> u64) \<Rightarrow> 'k \<Rightarrow> hash_value" where
  "hashed_key h key = \<lparr>hv_hash = h key, hv_partial = partial_key (h key)\<rparr>"

definition hashsize :: "nat \<Rightarrow> nat" where "hashsize hp = 2 ^ hp"

definition hashmask :: "nat \<Rightarrow> u64" where "hashmask hp = push_bit hp 1 - 1"

definition index_hash :: "nat \<Rightarrow> u64 \<Rightarrow> nat" where
  "index_hash hp hv = unat (hv AND hashmask hp)"

definition alt_index :: "nat \<Rightarrow> byte \<Rightarrow> nat \<Rightarrow> nat" where
  "alt_index hp partial index =
     (let nonzero_tag = ucast partial + 1 :: u64 in
      unat ((of_nat index XOR (nonzero_tag * 0xc6a4a7935bd1e995)) AND hashmask hp))"

definition lock_ind :: "nat \<Rightarrow> nat" where "lock_ind bucket_ind = bucket_ind AND (kMaxNumLocks - 1)"

text \<open>The loop of \<open>reserve_calc\<close> looks for the smallest power that is large enough.\<close>

function reserve_calc_loop :: "nat \<Rightarrow> nat \<Rightarrow> nat" where
  "reserve_calc_loop buckets blog2 = (if 2 ^ blog2 < buckets then reserve_calc_loop buckets (blog2 + 1) else blog2)"
  by auto
termination
proof (relation "measure (\<lambda>(buckets, blog2). buckets - blog2)")
  fix buckets blog2 :: nat
  assume "2 ^ blog2 < buckets"
  with less_exp [of blog2] have "blog2 < buckets" by linarith
  then show "((buckets, blog2 + 1), buckets, blog2) \<in> measure (\<lambda>(buckets, blog2). buckets - blog2)" by simp
qed simp

declare reserve_calc_loop.simps [simp del]

definition reserve_calc :: "nat \<Rightarrow> nat result" where
  "reserve_calc n =
     (let buckets = (n + slot_per_bucket - 1) div slot_per_bucket;
          blog2 = reserve_calc_loop buckets 0 in
      and_then (check (n \<le> buckets * slot_per_bucket \<and> buckets \<le> hashsize blog2) Assert_failed) (\<lambda>_. Inr blog2))"

section \<open>Bucket containers\<close>

type_synonym ('k, 'v) slot = "(byte \<times> 'k \<times> 'v) option"
type_synonym ('k, 'v) bucket = "('k, 'v) slot list"

text \<open>\<open>None\<close> for the buckets: they have been deallocated.\<close>

record ('k, 'v) bucket_container =
  bc_hashpower :: nat
  bc_buckets :: "('k, 'v) bucket list option"

definition empty_bucket :: "('k, 'v) bucket" where "empty_bucket = replicate slot_per_bucket None"

definition bucket_container_make :: "nat \<Rightarrow> ('k, 'v) bucket_container" where
  "bucket_container_make hp = \<lparr>bc_hashpower = hp, bc_buckets = Some (replicate (2 ^ hp) empty_bucket)\<rparr>"

definition bc_size :: "('k, 'v) bucket_container \<Rightarrow> nat" where "bc_size bc = 2 ^ bc_hashpower bc"

definition bc_at :: "('k, 'v) bucket_container \<Rightarrow> nat \<Rightarrow> ('k, 'v) bucket result" where
  "bc_at bc i =
     (case bc_buckets bc of None \<Rightarrow> Inl Out_of_bounds | Some bs \<Rightarrow> if i < length bs then Inr (bs ! i) else Inl Out_of_bounds)"

definition put_slot ::
  "('k, 'v) bucket_container \<Rightarrow> nat \<Rightarrow> nat \<Rightarrow> ('k, 'v) slot \<Rightarrow> ('k, 'v) bucket_container" where
  "put_slot bc ind slot x = bc\<lparr>bc_buckets := map_option (\<lambda>bs. bs[ind := (bs ! ind)[slot := x]]) (bc_buckets bc)\<rparr>"

definition setKV ::
  "('k, 'v) bucket_container \<Rightarrow> nat \<Rightarrow> nat \<Rightarrow> byte \<Rightarrow> 'k \<Rightarrow> 'v \<Rightarrow> ('k, 'v) bucket_container result" where
  "setKV bc ind slot p k v =
     and_then (bc_at bc ind) (\<lambda>b.
     and_then (check (slot < length b) Out_of_bounds) (\<lambda>_.
     and_then (check (b ! slot = None) Assert_failed) (\<lambda>_.
     Inr (put_slot bc ind slot (Some (p, k, v))))))"

definition eraseKV :: "('k, 'v) bucket_container \<Rightarrow> nat \<Rightarrow> nat \<Rightarrow> ('k, 'v) bucket_container result" where
  "eraseKV bc ind slot =
     and_then (bc_at bc ind) (\<lambda>b.
     and_then (check (slot < length b) Out_of_bounds) (\<lambda>_.
     and_then (check (b ! slot \<noteq> None) Assert_failed) (\<lambda>_.
     Inr (put_slot bc ind slot None))))"

definition bc_clear :: "('k, 'v) bucket_container \<Rightarrow> ('k, 'v) bucket_container" where
  "bc_clear bc = bc\<lparr>bc_buckets := map_option (map (map (\<lambda>_. None))) (bc_buckets bc)\<rparr>"

definition clear_and_deallocate :: "('k, 'v) bucket_container \<Rightarrow> ('k, 'v) bucket_container" where
  "clear_and_deallocate bc = bc\<lparr>bc_buckets := None\<rparr>"

section \<open>The table\<close>

record spinlock =
  elem_counter :: int
  is_migrated :: bool

definition spinlock_make :: spinlock where "spinlock_make = \<lparr>elem_counter = 0, is_migrated = True\<rparr>"

record ('k, 'v) table =
  t_buckets :: "('k, 'v) bucket_container"
  t_old_buckets :: "('k, 'v) bucket_container"
  t_all_locks :: "spinlock list list"
  t_num_remaining :: nat
  t_maximum_hashpower :: nat

definition hashpower :: "('k, 'v) table \<Rightarrow> nat" where "hashpower t = bc_hashpower (t_buckets t)"

definition get_current_locks :: "('k, 'v) table \<Rightarrow> spinlock list" where "get_current_locks t = last (t_all_locks t)"

definition set_current_locks :: "('k, 'v) table \<Rightarrow> spinlock list \<Rightarrow> ('k, 'v) table" where
  "set_current_locks t ls = t\<lparr>t_all_locks := butlast (t_all_locks t) @ [ls]\<rparr>"

definition table_make :: "nat \<Rightarrow> ('k, 'v) table result" where
  "table_make n =
     and_then (reserve_calc n) (\<lambda>hp.
     Inr \<lparr>t_buckets = bucket_container_make hp, t_old_buckets = bucket_container_make 0,
       t_all_locks = [replicate (min (2 ^ hp) kMaxNumLocks) spinlock_make],
       t_num_remaining = 0, t_maximum_hashpower = NO_MAXIMUM_HASHPOWER\<rparr>)"

definition table_size :: "('k, 'v) table \<Rightarrow> nat result" where
  "table_size t =
     (if t_all_locks t = [] then Inr 0
      else
        let s = sum_list (map elem_counter (get_current_locks t)) in
        and_then (check (0 \<le> s) Assert_failed) (\<lambda>_. Inr (nat s)))"

definition capacity :: "('k, 'v) table \<Rightarrow> nat" where "capacity t = bc_size (t_buckets t) * slot_per_bucket"

text \<open>
  \<open>load_factor() < minimum_load_factor()\<close>. The capacity is a power of two, so the quotient of the two doubles is exact
  while the table has less than \<open>2 ^ 53\<close> elements; the default minimum 0.05 is the double
  \<open>7205759403792794 / 2 ^ 57\<close>.
\<close>

definition load_below_minimum :: "('k, 'v) table \<Rightarrow> bool result" where
  "load_below_minimum t = and_then (table_size t) (\<lambda>n. Inr (n * 2 ^ 57 < 7205759403792794 * capacity t))"

section \<open>Migration\<close>

text \<open>\<open>num_remaining_lazy_rehash_locks(n)\<close> and its decrement.\<close>

definition set_num_remaining :: "nat \<Rightarrow> ('k, 'v) table \<Rightarrow> ('k, 'v) table" where
  "set_num_remaining n t =
     (let t = t\<lparr>t_num_remaining := n\<rparr> in
      if n = 0 then t\<lparr>t_old_buckets := clear_and_deallocate (t_old_buckets t)\<rparr> else t)"

definition decrement_num_remaining :: "('k, 'v) table \<Rightarrow> ('k, 'v) table result" where
  "decrement_num_remaining t =
     and_then (check (1 \<le> t_num_remaining t) Assert_failed) (\<lambda>_. Inr (set_num_remaining (t_num_remaining t - 1) t))"

fun move_bucket_loop ::
  "('k \<Rightarrow> u64) \<Rightarrow> nat \<Rightarrow> nat \<Rightarrow> nat \<Rightarrow> ('k, 'v) bucket \<Rightarrow> nat \<Rightarrow> nat \<Rightarrow> ('k, 'v) bucket_container \<Rightarrow>
   ('k, 'v) bucket_container result" where
  "move_bucket_loop h old_hp new_hp old_ind [] old_slot new_slot bc = Inr bc"
| "move_bucket_loop h old_hp new_hp old_ind (None # ss) old_slot new_slot bc =
     move_bucket_loop h old_hp new_hp old_ind ss (Suc old_slot) new_slot bc"
| "move_bucket_loop h old_hp new_hp old_ind (Some (p, k, v) # ss) old_slot new_slot bc =
     (let hv = hashed_key h k;
          new_ind = old_ind + hashsize old_hp;
          old_ihash = index_hash old_hp (hv_hash hv);
          old_ahash = alt_index old_hp (hv_partial hv) old_ihash;
          new_ihash = index_hash new_hp (hv_hash hv);
          new_ahash = alt_index new_hp (hv_partial hv) new_ihash in
      if old_ind = old_ihash \<and> new_ihash = new_ind \<or> old_ind = old_ahash \<and> new_ahash = new_ind then
        and_then (setKV bc new_ind new_slot p k v)
          (move_bucket_loop h old_hp new_hp old_ind ss (Suc old_slot) (Suc new_slot))
      else
        and_then (check (old_ind = old_ihash \<and> new_ihash = old_ihash \<or> old_ind = old_ahash \<and> new_ahash = old_ahash)
          Assert_failed) (\<lambda>_.
        and_then (setKV bc old_ind old_slot p k v)
          (move_bucket_loop h old_hp new_hp old_ind ss (Suc old_slot) new_slot)))"

definition move_bucket :: "('k \<Rightarrow> u64) \<Rightarrow> nat \<Rightarrow> ('k, 'v) table \<Rightarrow> ('k, 'v) table result" where
  "move_bucket h old_ind t =
     and_then (bc_at (t_old_buckets t) old_ind) (\<lambda>b.
     and_then (move_bucket_loop h (bc_hashpower (t_old_buckets t)) (hashpower t) old_ind b 0 0 (t_buckets t)) (\<lambda>bc.
     Inr (t\<lparr>t_buckets := bc\<rparr>)))"

text \<open>The buckets of the old container that lock \<open>l\<close> controls.\<close>

definition locked_buckets :: "nat \<Rightarrow> ('k, 'v) table \<Rightarrow> nat list" where
  "locked_buckets l t = map (\<lambda>n. l + n * kMaxNumLocks)
     [0..<(bc_size (t_old_buckets t) - l + (kMaxNumLocks - 1)) div kMaxNumLocks]"

definition rehash_lock :: "bool \<Rightarrow> ('k \<Rightarrow> u64) \<Rightarrow> nat \<Rightarrow> ('k, 'v) table \<Rightarrow> ('k, 'v) table result" where
  "rehash_lock lazy h l t =
     (let locks = get_current_locks t in
      and_then (check (l < length locks) Out_of_bounds) (\<lambda>_.
      if is_migrated (locks ! l) then Inr t
      else
        and_then (check (length locks = kMaxNumLocks) Assert_failed) (\<lambda>_.
        and_then (check (bc_hashpower (t_old_buckets t) + 1 = hashpower t) Assert_failed) (\<lambda>_.
        and_then (check (kMaxNumLocks \<le> bc_size (t_old_buckets t)) Assert_failed) (\<lambda>_.
        and_then (each (move_bucket h) (locked_buckets l t) t) (\<lambda>t.
        let t = set_current_locks t (locks[l := (locks ! l)\<lparr>is_migrated := True\<rparr>]) in
        if lazy then decrement_num_remaining t else Inr t))))))"

section \<open>Locking\<close>

definition check_hashpower :: "nat \<Rightarrow> ('k, 'v) table \<Rightarrow> unit result" where
  "check_hashpower hp t = check (hashpower t = hp) Hashpower_changed"

definition lock_one :: "('k \<Rightarrow> u64) \<Rightarrow> nat \<Rightarrow> nat \<Rightarrow> ('k, 'v) table \<Rightarrow> ('k, 'v) table result" where
  "lock_one h hp i t = and_then (check_hashpower hp t) (\<lambda>_. rehash_lock True h (lock_ind i) t)"

definition lock_two :: "('k \<Rightarrow> u64) \<Rightarrow> nat \<Rightarrow> nat \<Rightarrow> nat \<Rightarrow> ('k, 'v) table \<Rightarrow> ('k, 'v) table result" where
  "lock_two h hp i1 i2 t =
     (let l1 = lock_ind i1; l2 = lock_ind i2;
          (l1, l2) = (if l2 < l1 then (l2, l1) else (l1, l2)) in
      and_then (check_hashpower hp t) (\<lambda>_. each (rehash_lock True h) [l1, l2] t))"

definition lock_three :: "('k \<Rightarrow> u64) \<Rightarrow> nat \<Rightarrow> nat \<Rightarrow> nat \<Rightarrow> nat \<Rightarrow> ('k, 'v) table \<Rightarrow> ('k, 'v) table result" where
  "lock_three h hp i1 i2 i3 t =
     (let l0 = lock_ind i1; l1 = lock_ind i2; l2 = lock_ind i3;
          (l2, l1) = (if l2 < l1 then (l1, l2) else (l2, l1));
          (l2, l0) = (if l2 < l0 then (l0, l2) else (l2, l0));
          (l1, l0) = (if l1 < l0 then (l0, l1) else (l1, l0)) in
      and_then (check_hashpower hp t) (\<lambda>_. each (rehash_lock True h) [l0, l1, l2] t))"

text \<open>The two buckets of a hash value, locked.\<close>

definition snapshot_and_lock_two ::
  "('k \<Rightarrow> u64) \<Rightarrow> hash_value \<Rightarrow> ('k, 'v) table \<Rightarrow> (nat \<times> nat \<times> ('k, 'v) table) result" where
  "snapshot_and_lock_two h hv t =
     (let hp = hashpower t;
          i1 = index_hash hp (hv_hash hv);
          i2 = alt_index hp (hv_partial hv) i1 in
      and_then (lock_two h hp i1 i2 t) (\<lambda>t. Inr (i1, i2, t)))"

section \<open>Searching\<close>

datatype cuckoo_status = St_ok | St_failure | St_key_not_found | St_key_duplicated | St_table_full | St_under_expansion

record table_position =
  tp_index :: nat
  tp_slot :: nat
  tp_status :: cuckoo_status

fun try_read_from_bucket :: "('k, 'v) bucket \<Rightarrow> byte \<Rightarrow> 'k \<Rightarrow> nat \<Rightarrow> nat option" where
  "try_read_from_bucket [] partial key i = None"
| "try_read_from_bucket (None # b) partial key i = try_read_from_bucket b partial key (Suc i)"
| "try_read_from_bucket (Some (p, k, v) # b) partial key i =
     (if partial \<noteq> p then try_read_from_bucket b partial key (Suc i)
      else if k = key then Some i else try_read_from_bucket b partial key (Suc i))"

definition cuckoo_find ::
  "('k, 'v) table \<Rightarrow> 'k \<Rightarrow> byte \<Rightarrow> nat \<Rightarrow> nat \<Rightarrow> table_position result" where
  "cuckoo_find t key partial i1 i2 =
     and_then (bc_at (t_buckets t) i1) (\<lambda>b1.
     case try_read_from_bucket b1 partial key 0 of
       Some slot \<Rightarrow> Inr \<lparr>tp_index = i1, tp_slot = slot, tp_status = St_ok\<rparr>
     | None \<Rightarrow>
         and_then (bc_at (t_buckets t) i2) (\<lambda>b2.
         case try_read_from_bucket b2 partial key 0 of
           Some slot \<Rightarrow> Inr \<lparr>tp_index = i2, tp_slot = slot, tp_status = St_ok\<rparr>
         | None \<Rightarrow> Inr \<lparr>tp_index = 0, tp_slot = 0, tp_status = St_key_not_found\<rparr>))"

text \<open>The mapped value at a position.\<close>

definition mapped :: "('k, 'v) table \<Rightarrow> nat \<Rightarrow> nat \<Rightarrow> 'v result" where
  "mapped t i slot =
     and_then (bc_at (t_buckets t) i) (\<lambda>b.
     if slot < length b then (case b ! slot of Some (p, k, v) \<Rightarrow> Inr v | None \<Rightarrow> Inl Out_of_bounds) else Inl Out_of_bounds)"

definition set_mapped :: "('k, 'v) table \<Rightarrow> nat \<Rightarrow> nat \<Rightarrow> 'v \<Rightarrow> ('k, 'v) table result" where
  "set_mapped t i slot v' =
     and_then (bc_at (t_buckets t) i) (\<lambda>b.
     if slot < length b then
       (case b ! slot of
          Some (p, k, v) \<Rightarrow> Inr (t\<lparr>t_buckets := put_slot (t_buckets t) i slot (Some (p, k, v'))\<rparr>)
        | None \<Rightarrow> Inl Out_of_bounds)
     else Inl Out_of_bounds)"

text \<open>\<open>try_find_insert_bucket\<close>: the slot of the key, or the last free slot that was seen.\<close>

fun try_find_insert_loop :: "('k, 'v) bucket \<Rightarrow> byte \<Rightarrow> 'k \<Rightarrow> nat \<Rightarrow> nat option \<Rightarrow> bool \<times> nat option" where
  "try_find_insert_loop [] partial key i slot = (True, slot)"
| "try_find_insert_loop (None # b) partial key i slot = try_find_insert_loop b partial key (Suc i) (Some i)"
| "try_find_insert_loop (Some (p, k, v) # b) partial key i slot =
     (if partial \<noteq> p then try_find_insert_loop b partial key (Suc i) slot
      else if k = key then (False, Some i)
      else try_find_insert_loop b partial key (Suc i) slot)"

definition try_find_insert_bucket :: "('k, 'v) bucket \<Rightarrow> byte \<Rightarrow> 'k \<Rightarrow> bool \<times> nat option" where
  "try_find_insert_bucket b partial key = try_find_insert_loop b partial key 0 None"

section \<open>The search for a cuckoo path\<close>

definition MAX_BFS_PATH_LEN :: nat where "MAX_BFS_PATH_LEN = 5"

definition MAX_CUCKOO_COUNT :: nat where
  "MAX_CUCKOO_COUNT = 2 * ((slot_per_bucket ^ MAX_BFS_PATH_LEN - 1) div (slot_per_bucket - 1))"

text \<open>The path code is a \<open>uint16_t\<close>; \<open>depth\<close> is \<open>-1\<close> when no path was found.\<close>

record b_slot =
  sl_bucket :: nat
  sl_pathcode :: nat
  sl_depth :: int

definition b_slot_make :: "nat \<Rightarrow> nat \<Rightarrow> int \<Rightarrow> b_slot result" where
  "b_slot_make b p d =
     and_then (check (d < int MAX_BFS_PATH_LEN) Assert_failed) (\<lambda>_.
     Inr \<lparr>sl_bucket = b, sl_pathcode = p mod 2 ^ 16, sl_depth = d\<rparr>)"

text \<open>The queue: the slots that have been stored so far (\<open>last_\<close> is their number) and \<open>first_\<close>.\<close>

record b_queue =
  q_slots :: "b_slot list"
  q_first :: nat

definition b_queue_make :: b_queue where "b_queue_make = \<lparr>q_slots = [], q_first = 0\<rparr>"

definition q_full :: "b_queue \<Rightarrow> bool" where "q_full q \<longleftrightarrow> length (q_slots q) = MAX_CUCKOO_COUNT"

definition enqueue :: "b_slot \<Rightarrow> b_queue \<Rightarrow> b_queue result" where
  "enqueue x q =
     and_then (check (\<not> q_full q) Assert_failed) (\<lambda>_.
     and_then (check (length (q_slots q) < MAX_CUCKOO_COUNT) Out_of_bounds) (\<lambda>_.
     Inr (q\<lparr>q_slots := q_slots q @ [x]\<rparr>)))"

definition q_empty :: "b_queue \<Rightarrow> bool" where "q_empty q \<longleftrightarrow> q_first q = length (q_slots q)"

definition dequeue :: "b_queue \<Rightarrow> (b_slot \<times> b_queue) result" where
  "dequeue q =
     and_then (check (\<not> q_empty q) Assert_failed) (\<lambda>_.
     and_then (check (q_first q < length (q_slots q)) Assert_failed) (\<lambda>_.
     and_then (check (q_first q < MAX_CUCKOO_COUNT) Out_of_bounds) (\<lambda>_.
     Inr (q_slots q ! q_first q, q\<lparr>q_first := Suc (q_first q)\<rparr>))))"

text \<open>The inner loop of \<open>slot_search\<close>; \<open>n\<close> slots are left. It returns the finished path, or the queue with the successors.\<close>

fun search_slots ::
  "nat \<Rightarrow> b_slot \<Rightarrow> ('k, 'v) bucket \<Rightarrow> nat \<Rightarrow> b_queue \<Rightarrow> (b_slot option \<times> b_queue) result" where
  "search_slots hp x b 0 q = Inr (None, q)"
| "search_slots hp x b (Suc n) q =
     (let slot = (sl_pathcode x mod slot_per_bucket + (slot_per_bucket - Suc n)) mod slot_per_bucket in
      and_then (check (slot < length b) Out_of_bounds) (\<lambda>_.
      case b ! slot of
        None \<Rightarrow> Inr (Some (x\<lparr>sl_pathcode := (sl_pathcode x * slot_per_bucket + slot) mod 2 ^ 16\<rparr>), q)
      | Some (partial, _, _) \<Rightarrow>
          if sl_depth x < int MAX_BFS_PATH_LEN - 1 then
            and_then (check (\<not> q_full q) Assert_failed) (\<lambda>_.
            and_then (b_slot_make (alt_index hp partial (sl_bucket x)) (sl_pathcode x * slot_per_bucket + slot)
              (sl_depth x + 1)) (\<lambda>y.
            and_then (enqueue y q) (search_slots hp x b n)))
          else search_slots hp x b n q))"

function slot_search_loop ::
  "('k \<Rightarrow> u64) \<Rightarrow> nat \<Rightarrow> b_queue \<Rightarrow> ('k, 'v) table \<Rightarrow> (b_slot \<times> ('k, 'v) table) result" where
  "slot_search_loop h hp q t =
     (if q_empty q then and_then (b_slot_make 0 0 (- 1)) (\<lambda>x. Inr (x, t))
      else
        and_then (dequeue q) (\<lambda>(x, q).
        and_then (lock_one h hp (sl_bucket x) t) (\<lambda>t.
        and_then (bc_at (t_buckets t) (sl_bucket x)) (\<lambda>b.
        and_then (search_slots hp x b slot_per_bucket q) (\<lambda>(r, q).
        case r of Some x \<Rightarrow> Inr (x, t) | None \<Rightarrow> slot_search_loop h hp q t)))))"
  by pat_completeness auto

lemma search_slots_first: "search_slots hp x b n q = Inr (r, q') \<Longrightarrow> q_first q' = q_first q"
proof (induction hp x b n q rule: search_slots.induct)
  case (2 hp x b n q)
  then show ?case by (fastforce simp: Let_def enqueue_def split: option.splits if_splits)
qed simp

termination slot_search_loop
proof (relation "measure (\<lambda>(h, hp, q, t). MAX_CUCKOO_COUNT - q_first q)", goal_cases)
  case (2 h hp q t xq x q' t' b rq r q'')
  have "q_first q < MAX_CUCKOO_COUNT" "q_first q' = Suc (q_first q)"
    using 2(2,3) by (auto simp: dequeue_def)
  then show ?case using search_slots_first [OF 2(6) [folded 2(7)]] 2 by simp
qed simp

declare slot_search_loop.simps [simp del]

definition slot_search ::
  "('k \<Rightarrow> u64) \<Rightarrow> nat \<Rightarrow> nat \<Rightarrow> nat \<Rightarrow> ('k, 'v) table \<Rightarrow> (b_slot \<times> ('k, 'v) table) result" where
  "slot_search h hp i1 i2 t =
     and_then (b_slot_make i1 0 0) (\<lambda>x1.
     and_then (enqueue x1 b_queue_make) (\<lambda>q.
     and_then (b_slot_make i2 1 0) (\<lambda>x2.
     and_then (enqueue x2 q) (\<lambda>q.
     slot_search_loop h hp q t))))"

text \<open>A position of a cuckoo path; the hash value is not set at the free slot that ends the path.\<close>

record CuckooRecord =
  cr_bucket :: nat
  cr_slot :: nat
  cr_hv :: "hash_value option"

text \<open>The slots of a path from the first to the last, and what is left of the path code.\<close>

fun path_slots :: "nat \<Rightarrow> nat \<Rightarrow> nat list \<times> nat" where
  "path_slots 0 c = ([c mod slot_per_bucket], c div slot_per_bucket)"
| "path_slots (Suc d) c =
     (let (ss, c') = path_slots d (c div slot_per_bucket) in (ss @ [c mod slot_per_bucket], c'))"

text \<open>Following a path from a bucket on; it ends at the first free slot.\<close>

fun path_records ::
  "('k \<Rightarrow> u64) \<Rightarrow> nat \<Rightarrow> nat \<Rightarrow> nat list \<Rightarrow> ('k, 'v) table \<Rightarrow> (CuckooRecord list \<times> ('k, 'v) table) result" where
  "path_records h hp i [] t = Inr ([], t)"
| "path_records h hp i (s # ss) t =
     and_then (lock_one h hp i t) (\<lambda>t.
     and_then (bc_at (t_buckets t) i) (\<lambda>b.
     and_then (check (s < length b) Out_of_bounds) (\<lambda>_.
     case b ! s of
       None \<Rightarrow> Inr ([\<lparr>cr_bucket = i, cr_slot = s, cr_hv = None\<rparr>], t)
     | Some (_, key, _) \<Rightarrow>
         let hv = hashed_key h key; r = \<lparr>cr_bucket = i, cr_slot = s, cr_hv = Some hv\<rparr> in
         if ss = [] then Inr ([r], t)
         else
           and_then (check (i = index_hash hp (hv_hash hv) \<or>
             i = alt_index hp (hv_partial hv) (index_hash hp (hv_hash hv))) Assert_failed) (\<lambda>_.
           and_then (path_records h hp (alt_index hp (hv_partial hv) i) ss t) (\<lambda>(rs, t). Inr (r # rs, t))))))"

text \<open>\<open>cuckoopath_search\<close>: the records of the path (the depth is one less than their number), none for \<open>-1\<close>.\<close>

definition cuckoopath_search ::
  "('k \<Rightarrow> u64) \<Rightarrow> nat \<Rightarrow> nat \<Rightarrow> nat \<Rightarrow> ('k, 'v) table \<Rightarrow> (CuckooRecord list \<times> ('k, 'v) table) result" where
  "cuckoopath_search h hp i1 i2 t =
     and_then (slot_search h hp i1 i2 t) (\<lambda>(x, t).
     if sl_depth x = - 1 then Inr ([], t)
     else
       let (ss, pathcode) = path_slots (nat (sl_depth x)) (sl_pathcode x) in
       if pathcode = 0 then path_records h hp i1 ss t
       else and_then (check (pathcode = 1) Assert_failed) (\<lambda>_. path_records h hp i2 ss t))"

fun cuckoopath_move_loop ::
  "('k \<Rightarrow> u64) \<Rightarrow> nat \<Rightarrow> CuckooRecord list \<Rightarrow> nat \<Rightarrow> nat \<Rightarrow> nat \<Rightarrow> ('k, 'v) table \<Rightarrow> (bool \<times> ('k, 'v) table) result" where
  "cuckoopath_move_loop h hp path 0 i1 i2 t = Inr (True, t)"
| "cuckoopath_move_loop h hp path (Suc d) i1 i2 t =
     (let f = path ! d; g = path ! Suc d; fs = cr_slot f; ts = cr_slot g in
      and_then (if d = 0 then lock_three h hp i1 i2 (cr_bucket g) t else lock_two h hp (cr_bucket f) (cr_bucket g) t) (\<lambda>t.
      and_then (bc_at (t_buckets t) (cr_bucket f)) (\<lambda>fb.
      and_then (bc_at (t_buckets t) (cr_bucket g)) (\<lambda>tb.
      and_then (check (fs < length fb \<and> ts < length tb) Out_of_bounds) (\<lambda>_.
      case fb ! fs of
        None \<Rightarrow> Inr (False, t)
      | Some (p, k, v) \<Rightarrow>
          if tb ! ts \<noteq> None \<or> map_option hv_hash (cr_hv f) \<noteq> Some (h k) then Inr (False, t)
          else
            and_then (setKV (t_buckets t) (cr_bucket g) ts p k v) (\<lambda>bc.
            and_then (eraseKV bc (cr_bucket f) fs) (\<lambda>bc.
            cuckoopath_move_loop h hp path d i1 i2 (t\<lparr>t_buckets := bc\<rparr>))))))))"

definition cuckoopath_move ::
  "('k \<Rightarrow> u64) \<Rightarrow> nat \<Rightarrow> CuckooRecord list \<Rightarrow> nat \<Rightarrow> nat \<Rightarrow> nat \<Rightarrow> ('k, 'v) table \<Rightarrow> (bool \<times> ('k, 'v) table) result" where
  "cuckoopath_move h hp path depth i1 i2 t =
     (if depth = 0 then
        let i = cr_bucket (path ! 0); s = cr_slot (path ! 0) in
        and_then (check (i = i1 \<or> i = i2) Assert_failed) (\<lambda>_.
        and_then (lock_two h hp i1 i2 t) (\<lambda>t.
        and_then (bc_at (t_buckets t) i) (\<lambda>b.
        and_then (check (s < length b) Out_of_bounds) (\<lambda>_.
        Inr (b ! s = None, t)))))
      else cuckoopath_move_loop h hp path depth i1 i2 t)"

text \<open>
  The loop of \<open>run_cuckoo\<close>: search and move until a move succeeds or no path is found. It returns the position that was
  freed. The exception \<open>hashpower_changed\<close>, which the code turns into a retry, stays a fault here: it tells that
  another thread has resized the table.
\<close>

partial_function (option) run_cuckoo ::
  "('k \<Rightarrow> u64) \<Rightarrow> nat \<Rightarrow> nat \<Rightarrow> nat \<Rightarrow> ('k, 'v) table \<Rightarrow> ((nat \<times> nat) option \<times> ('k, 'v) table) result option" where
  "run_cuckoo h hp i1 i2 t =
     (case cuckoopath_search h hp i1 i2 t of
        Inl e \<Rightarrow> Some (Inl e)
      | Inr (path, t) \<Rightarrow>
          if path = [] then Some (Inr (None, t))
          else
            (case cuckoopath_move h hp path (length path - 1) i1 i2 t of
               Inl e \<Rightarrow> Some (Inl e)
             | Inr (moved, t) \<Rightarrow>
                 if \<not> moved then run_cuckoo h hp i1 i2 t
                 else
                   let i = cr_bucket (path ! 0); s = cr_slot (path ! 0) in
                   Some (and_then (check (i = i1 \<or> i = i2) Assert_failed) (\<lambda>_.
                     and_then (bc_at (t_buckets t) i) (\<lambda>b.
                     and_then (check (s < length b \<and> b ! s = None) Assert_failed) (\<lambda>_.
                     Inr (Some (i, s), t)))))))"

section \<open>Insertion\<close>

definition cuckoo_insert ::
  "('k \<Rightarrow> u64) \<Rightarrow> hash_value \<Rightarrow> nat \<Rightarrow> nat \<Rightarrow> 'k \<Rightarrow> ('k, 'v) table \<Rightarrow> (table_position \<times> ('k, 'v) table) result option" where
  "cuckoo_insert h hv i1 i2 key t =
     (case bc_at (t_buckets t) i1 of Inl e \<Rightarrow> Some (Inl e) | Inr b1 \<Rightarrow>
      (case try_find_insert_bucket b1 (hv_partial hv) key of (new1, res1) \<Rightarrow>
       if \<not> new1 then Some (Inr (\<lparr>tp_index = i1, tp_slot = the res1, tp_status = St_key_duplicated\<rparr>, t))
       else
       (case bc_at (t_buckets t) i2 of Inl e \<Rightarrow> Some (Inl e) | Inr b2 \<Rightarrow>
       (case try_find_insert_bucket b2 (hv_partial hv) key of (new2, res2) \<Rightarrow>
        if \<not> new2 then Some (Inr (\<lparr>tp_index = i2, tp_slot = the res2, tp_status = St_key_duplicated\<rparr>, t))
        else
          case res1 of
            Some s \<Rightarrow> Some (Inr (\<lparr>tp_index = i1, tp_slot = s, tp_status = St_ok\<rparr>, t))
          | None \<Rightarrow>
          case res2 of
            Some s \<Rightarrow> Some (Inr (\<lparr>tp_index = i2, tp_slot = s, tp_status = St_ok\<rparr>, t))
          | None \<Rightarrow>
          case run_cuckoo h (hashpower t) i1 i2 t of
            None \<Rightarrow> None
          | Some (Inl e) \<Rightarrow> Some (Inl e)
          | Some (Inr (None, t)) \<Rightarrow> Some (Inr (\<lparr>tp_index = 0, tp_slot = 0, tp_status = St_table_full\<rparr>, t))
          | Some (Inr (Some (i, s), t)) \<Rightarrow>
              Some (and_then (bc_at (t_buckets t) i) (\<lambda>b.
              and_then (check (s < length b \<and> b ! s = None) Assert_failed) (\<lambda>_.
              and_then (check (i = index_hash (hashpower t) (hv_hash hv) \<or>
                i = alt_index (hashpower t) (hv_partial hv) (index_hash (hashpower t) (hv_hash hv))) Assert_failed) (\<lambda>_.
              and_then (cuckoo_find t key (hv_partial hv) i1 i2) (\<lambda>pos.
              if tp_status pos = St_ok then Inr (pos\<lparr>tp_status := St_key_duplicated\<rparr>, t)
              else Inr (\<lparr>tp_index = i, tp_slot = s, tp_status = St_ok\<rparr>, t))))))))))"

definition count_at :: "int \<Rightarrow> nat \<Rightarrow> ('k, 'v) table \<Rightarrow> ('k, 'v) table" where
  "count_at d i t =
     (let locks = get_current_locks t; l = lock_ind i in
      set_current_locks t (locks[l := (locks ! l)\<lparr>elem_counter := elem_counter (locks ! l) + d\<rparr>]))"

definition add_to_bucket ::
  "nat \<Rightarrow> nat \<Rightarrow> byte \<Rightarrow> 'k \<Rightarrow> 'v \<Rightarrow> ('k, 'v) table \<Rightarrow> ('k, 'v) table result" where
  "add_to_bucket i slot partial key val t =
     and_then (setKV (t_buckets t) i slot partial key val) (\<lambda>bc. Inr (count_at 1 i (t\<lparr>t_buckets := bc\<rparr>)))"

definition del_from_bucket :: "nat \<Rightarrow> nat \<Rightarrow> ('k, 'v) table \<Rightarrow> ('k, 'v) table result" where
  "del_from_bucket i slot t =
     and_then (eraseKV (t_buckets t) i slot) (\<lambda>bc. Inr (count_at (- 1) i (t\<lparr>t_buckets := bc\<rparr>)))"

definition check_resize_validity :: "nat \<Rightarrow> nat \<Rightarrow> ('k, 'v) table \<Rightarrow> cuckoo_status result" where
  "check_resize_validity orig_hp new_hp t =
     and_then (check (t_maximum_hashpower t = NO_MAXIMUM_HASHPOWER \<or> new_hp \<le> t_maximum_hashpower t)
       Maximum_hashpower_exceeded) (\<lambda>_.
     and_then (load_below_minimum t) (\<lambda>low.
     and_then (check (\<not> low) Load_factor_too_low) (\<lambda>_.
     Inr (if hashpower t \<noteq> orig_hp then St_under_expansion else St_ok))))"

definition maybe_resize_locks :: "nat \<Rightarrow> ('k, 'v) table \<Rightarrow> ('k, 'v) table" where
  "maybe_resize_locks new_bucket_count t =
     (let locks = get_current_locks t in
      if \<not> (length locks < kMaxNumLocks \<and> length locks < new_bucket_count) then t
      else t\<lparr>t_all_locks := t_all_locks t @
        [locks @ replicate (min kMaxNumLocks new_bucket_count - length locks) spinlock_make]\<rparr>)"

definition cuckoo_fast_double ::
  "('k \<Rightarrow> u64) \<Rightarrow> nat \<Rightarrow> ('k, 'v) table \<Rightarrow> (cuckoo_status \<times> ('k, 'v) table) result" where
  "cuckoo_fast_double h current_hp t =
     (let new_hp = current_hp + 1 in
      and_then (check_resize_validity current_hp new_hp t) (\<lambda>st.
      if st \<noteq> St_ok then Inr (st, t)
      else
        and_then (each (rehash_lock False h) [0..<length (get_current_locks t)] t) (\<lambda>t.
        let t = maybe_resize_locks (2 ^ new_hp) (set_num_remaining 0 t);
            t = t\<lparr>t_old_buckets := t_buckets t, t_buckets := bucket_container_make new_hp\<rparr> in
        if bc_size (t_old_buckets t) < kMaxNumLocks then
          and_then (each (move_bucket h) [0..<bc_size (t_old_buckets t)] t) (\<lambda>t. Inr (St_ok, set_num_remaining 0 t))
        else
          let locks = map (\<lambda>l. l\<lparr>is_migrated := False\<rparr>) (get_current_locks t) in
          Inr (St_ok, set_num_remaining (length locks) (set_current_locks t locks)))))"

partial_function (option) cuckoo_insert_loop ::
  "('k \<Rightarrow> u64) \<Rightarrow> hash_value \<Rightarrow> nat \<Rightarrow> nat \<Rightarrow> 'k \<Rightarrow> ('k, 'v) table \<Rightarrow> (table_position \<times> ('k, 'v) table) result option" where
  "cuckoo_insert_loop h hv i1 i2 key t =
     (case cuckoo_insert h hv i1 i2 key t of
        None \<Rightarrow> None
      | Some (Inl e) \<Rightarrow> Some (Inl e)
      | Some (Inr (pos, t')) \<Rightarrow>
          if tp_status pos = St_ok \<or> tp_status pos = St_key_duplicated then Some (Inr (pos, t'))
          else if tp_status pos = St_table_full then
            (case cuckoo_fast_double h (hashpower t) t' of
               Inl e \<Rightarrow> Some (Inl e)
             | Inr (_, t') \<Rightarrow>
                 (case snapshot_and_lock_two h hv t' of
                    Inl e \<Rightarrow> Some (Inl e) | Inr (i1, i2, t') \<Rightarrow> cuckoo_insert_loop h hv i1 i2 key t'))
          else if tp_status pos = St_under_expansion then
            (case snapshot_and_lock_two h hv t' of
               Inl e \<Rightarrow> Some (Inl e) | Inr (i1, i2, t') \<Rightarrow> cuckoo_insert_loop h hv i1 i2 key t')
          else Some (Inl Assert_failed))"

section \<open>The operations of the map\<close>

text \<open>
  \<open>uprase_fn\<close> with a functor that takes only the mapped value: it is invoked when the key already existed, changes the
  value and says whether the element is to be erased.
\<close>

definition uprase_fn ::
  "('k \<Rightarrow> u64) \<Rightarrow> 'k \<Rightarrow> ('v \<Rightarrow> 'v \<times> bool) \<Rightarrow> 'v \<Rightarrow> ('k, 'v) table \<Rightarrow> (bool \<times> ('k, 'v) table) result option" where
  "uprase_fn h key fn val t =
     (let hv = hashed_key h key in
      case snapshot_and_lock_two h hv t of
        Inl e \<Rightarrow> Some (Inl e)
      | Inr (i1, i2, t) \<Rightarrow>
          (case cuckoo_insert_loop h hv i1 i2 key t of
             None \<Rightarrow> None
           | Some (Inl e) \<Rightarrow> Some (Inl e)
           | Some (Inr (pos, t)) \<Rightarrow>
               Some (if tp_status pos = St_ok
                 then and_then (add_to_bucket (tp_index pos) (tp_slot pos) (hv_partial hv) key val t) (\<lambda>t. Inr (True, t))
                 else
                   and_then (mapped t (tp_index pos) (tp_slot pos)) (\<lambda>v.
                   and_then (set_mapped t (tp_index pos) (tp_slot pos) (fst (fn v))) (\<lambda>t.
                   if snd (fn v) then and_then (del_from_bucket (tp_index pos) (tp_slot pos) t) (\<lambda>t. Inr (False, t))
                   else Inr (False, t))))))"

definition upsert ::
  "('k \<Rightarrow> u64) \<Rightarrow> 'k \<Rightarrow> ('v \<Rightarrow> 'v) \<Rightarrow> 'v \<Rightarrow> ('k, 'v) table \<Rightarrow> (bool \<times> ('k, 'v) table) result option" where
  "upsert h key fn val t = uprase_fn h key (\<lambda>v. (fn v, False)) val t"

definition insert_or_assign ::
  "('k \<Rightarrow> u64) \<Rightarrow> 'k \<Rightarrow> 'v \<Rightarrow> ('k, 'v) table \<Rightarrow> (bool \<times> ('k, 'v) table) result option" where
  "insert_or_assign h key val t = upsert h key (\<lambda>_. val) val t"

definition table_insert ::
  "('k \<Rightarrow> u64) \<Rightarrow> 'k \<Rightarrow> 'v \<Rightarrow> ('k, 'v) table \<Rightarrow> (bool \<times> ('k, 'v) table) result option" where
  "table_insert h key val t = upsert h key (\<lambda>v. v) val t"

text \<open>\<open>find_fn\<close> hands the value to its functor; here it returns it. The table may change: buckets migrate.\<close>

definition find_fn :: "('k \<Rightarrow> u64) \<Rightarrow> 'k \<Rightarrow> ('k, 'v) table \<Rightarrow> ('v option \<times> ('k, 'v) table) result" where
  "find_fn h key t =
     (let hv = hashed_key h key in
      and_then (snapshot_and_lock_two h hv t) (\<lambda>(i1, i2, t).
      and_then (cuckoo_find t key (hv_partial hv) i1 i2) (\<lambda>pos.
      if tp_status pos = St_ok
      then and_then (mapped t (tp_index pos) (tp_slot pos)) (\<lambda>v. Inr (Some v, t)) else Inr (None, t))))"

definition table_find :: "('k \<Rightarrow> u64) \<Rightarrow> 'k \<Rightarrow> 'v \<Rightarrow> ('k, 'v) table \<Rightarrow> (bool \<times> 'v \<times> ('k, 'v) table) result" where
  "table_find h key val t =
     and_then (find_fn h key t) (\<lambda>(r, t). Inr (case r of Some v \<Rightarrow> (True, v, t) | None \<Rightarrow> (False, val, t)))"

text \<open>The \<open>find\<close> that returns the value; \<open>d\<close> is \<open>mapped_type()\<close>.\<close>

definition table_find_default :: "('k \<Rightarrow> u64) \<Rightarrow> 'v \<Rightarrow> 'k \<Rightarrow> ('k, 'v) table \<Rightarrow> ('v \<times> ('k, 'v) table) result" where
  "table_find_default h d key t =
     (let hv = hashed_key h key in
      and_then (snapshot_and_lock_two h hv t) (\<lambda>(i1, i2, t).
      and_then (cuckoo_find t key (hv_partial hv) i1 i2) (\<lambda>pos.
      if tp_status pos = St_ok
      then and_then (mapped t (tp_index pos) (tp_slot pos)) (\<lambda>v. Inr (v, t)) else Inr (d, t))))"

definition table_contains :: "('k \<Rightarrow> u64) \<Rightarrow> 'k \<Rightarrow> ('k, 'v) table \<Rightarrow> (bool \<times> ('k, 'v) table) result" where
  "table_contains h key t = and_then (find_fn h key t) (\<lambda>(r, t). Inr (r \<noteq> None, t))"

definition update_fn :: "('k \<Rightarrow> u64) \<Rightarrow> 'k \<Rightarrow> ('v \<Rightarrow> 'v) \<Rightarrow> ('k, 'v) table \<Rightarrow> (bool \<times> ('k, 'v) table) result" where
  "update_fn h key fn t =
     (let hv = hashed_key h key in
      and_then (snapshot_and_lock_two h hv t) (\<lambda>(i1, i2, t).
      and_then (cuckoo_find t key (hv_partial hv) i1 i2) (\<lambda>pos.
      if tp_status pos = St_ok
      then and_then (mapped t (tp_index pos) (tp_slot pos)) (\<lambda>v.
        and_then (set_mapped t (tp_index pos) (tp_slot pos) (fn v)) (\<lambda>t. Inr (True, t)))
      else Inr (False, t))))"

definition erase_fn :: "('k \<Rightarrow> u64) \<Rightarrow> 'k \<Rightarrow> ('v \<Rightarrow> 'v \<times> bool) \<Rightarrow> ('k, 'v) table \<Rightarrow> (bool \<times> ('k, 'v) table) result" where
  "erase_fn h key fn t =
     (let hv = hashed_key h key in
      and_then (snapshot_and_lock_two h hv t) (\<lambda>(i1, i2, t).
      and_then (cuckoo_find t key (hv_partial hv) i1 i2) (\<lambda>pos.
      if tp_status pos = St_ok
      then and_then (mapped t (tp_index pos) (tp_slot pos)) (\<lambda>v.
        and_then (set_mapped t (tp_index pos) (tp_slot pos) (fst (fn v))) (\<lambda>t.
        if snd (fn v) then and_then (del_from_bucket (tp_index pos) (tp_slot pos) t) (\<lambda>t. Inr (True, t)) else Inr (True, t)))
      else Inr (False, t))))"

definition table_erase :: "('k \<Rightarrow> u64) \<Rightarrow> 'k \<Rightarrow> ('k, 'v) table \<Rightarrow> (bool \<times> ('k, 'v) table) result" where
  "table_erase h key t = erase_fn h key (\<lambda>v. (v, True)) t"

definition table_update :: "('k \<Rightarrow> u64) \<Rightarrow> 'k \<Rightarrow> 'v \<Rightarrow> ('k, 'v) table \<Rightarrow> (bool \<times> ('k, 'v) table) result" where
  "table_update h key val t = update_fn h key (\<lambda>_. val) t"

definition cuckoo_clear :: "('k, 'v) table \<Rightarrow> ('k, 'v) table" where
  "cuckoo_clear t =
     (let t = set_num_remaining 0 (t\<lparr>t_buckets := bc_clear (t_buckets t)\<rparr>) in
      set_current_locks t (map (\<lambda>l. l\<lparr>elem_counter := 0, is_migrated := True\<rparr>) (get_current_locks t)))"

end
