(* ===== verification/Cuckoo_View.thy ===== *)
theory Cuckoo_View
  imports Cuckoo_Table
begin

text \<open>
  The table as one array of buckets: what is stored in it once every bucket that waits for migration is counted at the
  place it will move to. Taking a lock migrates buckets but leaves this view alone; every other operation reads and
  writes only buckets whose lock it holds, where the view and the array agree.
\<close>

section \<open>The two buckets of a key\<close>

definition tag :: "byte \<Rightarrow> nat" where
  "tag p = unat ((ucast p + 1) * 0xc6a4a7935bd1e995 :: u64)"

definition bucket1 :: "('k \<Rightarrow> u64) \<Rightarrow> nat \<Rightarrow> 'k \<Rightarrow> nat" where "bucket1 h hp k = index_hash hp (h k)"

definition bucket2 :: "('k \<Rightarrow> u64) \<Rightarrow> nat \<Rightarrow> 'k \<Rightarrow> nat" where
  "bucket2 h hp k = alt_index hp (partial_key (h k)) (bucket1 h hp k)"

lemma hashmask_mask: "hashmask hp = mask hp"
  by (simp add: hashmask_def mask_eq_exp_minus_1 push_bit_eq_mult)

lemma index_hash_eq: "index_hash hp x = take_bit hp (unat x)"
  by (simp add: index_hash_def hashmask_mask flip: take_bit_eq_mask) (simp add: unsigned_take_bit_eq)

lemma alt_index_eq: "hp \<le> 64 \<Longrightarrow> alt_index hp p i = take_bit hp (i XOR tag p)"
  by (simp add: alt_index_def hashmask_mask flip: take_bit_eq_mask)
    (simp add: tag_def unsigned_take_bit_eq unsigned_xor_eq unsigned_of_nat take_bit_xor min_def Let_def)

lemma index_hash_less [simp]: "index_hash hp x < 2 ^ hp"
  by (simp add: index_hash_eq)

lemma alt_index_less [simp]: "hp \<le> 64 \<Longrightarrow> alt_index hp p i < 2 ^ hp"
  unfolding alt_index_eq by (rule take_bit_nat_less_exp)

lemma alt_index_alt_index: "hp \<le> 64 \<Longrightarrow> i < 2 ^ hp \<Longrightarrow> alt_index hp p (alt_index hp p i) = i"
  by (simp add: alt_index_eq take_bit_xor xor.assoc take_bit_nat_eq_self)

lemma bucket_less [simp]: "bucket1 h hp k < 2 ^ hp" "hp \<le> 64 \<Longrightarrow> bucket2 h hp k < 2 ^ hp"
  by (simp_all add: bucket1_def bucket2_def)

lemma alt_bucket: "hp \<le> 64 \<Longrightarrow> alt_index hp (partial_key (h k)) (bucket1 h hp k) = bucket2 h hp k"
  "hp \<le> 64 \<Longrightarrow> alt_index hp (partial_key (h k)) (bucket2 h hp k) = bucket1 h hp k"
  by (simp_all add: bucket2_def alt_index_alt_index)

text \<open>One more bit of the hash: each bucket of a key stays or moves up by the old size.\<close>

lemma take_bit_Suc_cases: "take_bit (Suc n) a = take_bit n a \<or> take_bit (Suc n) a = take_bit n a + 2 ^ n" for a :: nat
  by (cases "bit a n") (simp_all add: take_bit_Suc_from_most)

lemma bucket1_grows: "bucket1 h (Suc hp) k = bucket1 h hp k \<or> bucket1 h (Suc hp) k = bucket1 h hp k + 2 ^ hp"
  unfolding bucket1_def index_hash_eq by (rule take_bit_Suc_cases)

lemma bucket2_grows:
  assumes "hp < 64"
  shows "bucket2 h (Suc hp) k = bucket2 h hp k \<or> bucket2 h (Suc hp) k = bucket2 h hp k + 2 ^ hp"
proof -
  let ?p = "partial_key (h k)" and ?a = "unat (h k)"
  have "bucket2 h (Suc hp) k = take_bit (Suc hp) (?a XOR tag ?p)" "bucket2 h hp k = take_bit hp (?a XOR tag ?p)"
    using assms by (simp_all add: bucket2_def bucket1_def alt_index_eq index_hash_eq take_bit_xor)
  then show ?thesis by (metis take_bit_Suc_cases)
qed

lemma lock_ind_mod: "lock_ind i = i mod kMaxNumLocks"
proof -
  have "kMaxNumLocks - 1 = mask 16" by (simp add: kMaxNumLocks_def mask_eq_exp_minus_1)
  then have "lock_ind i = take_bit 16 i" by (simp only: lock_ind_def take_bit_eq_mask)
  then show ?thesis by (simp add: take_bit_eq_mod kMaxNumLocks_def)
qed

section \<open>Splitting a bucket\<close>

definition goes_up :: "('k \<Rightarrow> u64) \<Rightarrow> nat \<Rightarrow> nat \<Rightarrow> 'k \<Rightarrow> bool" where
  "goes_up h hp i k \<longleftrightarrow> i = bucket1 h hp k \<and> bucket1 h (Suc hp) k = i + 2 ^ hp \<or>
     i = bucket2 h hp k \<and> bucket2 h (Suc hp) k = i + 2 ^ hp"

fun moving_up :: "('k \<Rightarrow> u64) \<Rightarrow> nat \<Rightarrow> nat \<Rightarrow> ('k, 'v) slot \<Rightarrow> bool" where
  "moving_up h hp i None = False"
| "moving_up h hp i (Some (p, k, v)) = goes_up h hp i k"

definition low_half :: "('k \<Rightarrow> u64) \<Rightarrow> nat \<Rightarrow> nat \<Rightarrow> ('k, 'v) bucket \<Rightarrow> ('k, 'v) bucket" where
  "low_half h hp i b = map (\<lambda>s. if moving_up h hp i s then None else s) b"

definition ups :: "('k \<Rightarrow> u64) \<Rightarrow> nat \<Rightarrow> nat \<Rightarrow> ('k, 'v) bucket \<Rightarrow> ('k, 'v) bucket" where
  "ups h hp i b = filter (moving_up h hp i) b"

definition high_half :: "('k \<Rightarrow> u64) \<Rightarrow> nat \<Rightarrow> nat \<Rightarrow> ('k, 'v) bucket \<Rightarrow> ('k, 'v) bucket" where
  "high_half h hp i b = ups h hp i b @ replicate (length b - length (ups h hp i b)) None"

definition placed :: "('k \<Rightarrow> u64) \<Rightarrow> nat \<Rightarrow> nat \<Rightarrow> ('k, 'v) bucket \<Rightarrow> bool" where
  "placed h hp i b \<longleftrightarrow> (\<forall>p k v. Some (p, k, v) \<in> set b \<longrightarrow>
     p = partial_key (h k) \<and> (i = bucket1 h hp k \<or> i = bucket2 h hp k))"

definition grown_bucket :: "('k \<Rightarrow> u64) \<Rightarrow> nat \<Rightarrow> ('k, 'v) bucket list \<Rightarrow> nat \<Rightarrow> ('k, 'v) bucket" where
  "grown_bucket h hp obs i = (if i < 2 ^ hp then low_half h hp i (obs ! i) else high_half h hp (i - 2 ^ hp) (obs ! (i - 2 ^ hp)))"

lemma moving_up_Some: "moving_up h hp i s \<Longrightarrow> \<exists>p k v. s = Some (p, k, v)"
  by (cases s) auto

lemma length_halves [simp]: "length (low_half h hp i b) = length b" "length (high_half h hp i b) = length b"
  by (simp_all add: low_half_def high_half_def ups_def)

lemma goes_up_or_stays:
  assumes "hp < 64" and "i = bucket1 h hp k \<or> i = bucket2 h hp k"
  shows "if goes_up h hp i k then i + 2 ^ hp = bucket1 h (Suc hp) k \<or> i + 2 ^ hp = bucket2 h (Suc hp) k
    else i = bucket1 h hp k \<and> bucket1 h (Suc hp) k = i \<or> i = bucket2 h hp k \<and> bucket2 h (Suc hp) k = i"
  using assms(2) bucket1_grows [of h hp k] bucket2_grows [OF assms(1), of h k] unfolding goes_up_def by auto

lemma set_low_half: "Some e \<in> set (low_half h hp i b) \<longleftrightarrow> Some e \<in> set b \<and> \<not> moving_up h hp i (Some e)"
  by (auto simp: low_half_def)

lemma set_high_half: "Some e \<in> set (high_half h hp i b) \<longleftrightarrow> Some e \<in> set b \<and> moving_up h hp i (Some e)"
  by (auto simp: high_half_def ups_def)

lemma placed_halves:
  assumes "hp < 64" and "placed h hp i b"
  shows "placed h (Suc hp) i (low_half h hp i b)" and "placed h (Suc hp) (i + 2 ^ hp) (high_half h hp i b)"
proof -
  have "p = partial_key (h k) \<and> (if goes_up h hp i k then i + 2 ^ hp = bucket1 h (Suc hp) k \<or> i + 2 ^ hp = bucket2 h (Suc hp) k
    else i = bucket1 h (Suc hp) k \<or> i = bucket2 h (Suc hp) k)" if "Some (p, k, v) \<in> set b" for p k v
  proof -
    from assms(2) that have p: "p = partial_key (h k)" "i = bucket1 h hp k \<or> i = bucket2 h hp k" by (auto simp: placed_def)
    from goes_up_or_stays [OF assms(1) p(2)] p(1) show ?thesis by (auto split: if_splits)
  qed
  then show "placed h (Suc hp) i (low_half h hp i b)" and "placed h (Suc hp) (i + 2 ^ hp) (high_half h hp i b)"
    unfolding placed_def set_low_half set_high_half by fastforce+
qed

section \<open>Moving a bucket\<close>

lemma setKV_ok:
  assumes "bc_buckets bc = Some bs" and "i < length bs" and "s < length (bs ! i)" and "bs ! i ! s = None"
  shows "setKV bc i s p k v = Inr (bc\<lparr>bc_buckets := Some (bs[i := (bs ! i)[s := Some (p, k, v)]])\<rparr>)"
  using assms by (simp add: setKV_def bc_at_def put_slot_def)

lemma eraseKV_ok:
  assumes "bc_buckets bc = Some bs" and "i < length bs" and "s < length (bs ! i)" and "bs ! i ! s \<noteq> None"
  shows "eraseKV bc i s = Inr (bc\<lparr>bc_buckets := Some (bs[i := (bs ! i)[s := None]])\<rparr>)"
  using assms by (simp add: eraseKV_def bc_at_def put_slot_def)

lemma move_bucket_loop_Some:
  assumes "hp < 64" and "i = bucket1 h hp k \<or> i = bucket2 h hp k"
  shows "move_bucket_loop h hp (Suc hp) i (Some (p, k, v) # ss) j n bc =
    (if goes_up h hp i k
     then and_then (setKV bc (i + 2 ^ hp) n p k v) (move_bucket_loop h hp (Suc hp) i ss (Suc j) (Suc n))
     else and_then (setKV bc i j p k v) (move_bucket_loop h hp (Suc hp) i ss (Suc j) n))"
proof -
  let ?stays = "i = bucket1 h hp k \<and> bucket1 h (Suc hp) k = bucket1 h hp k \<or>
      i = bucket2 h hp k \<and> bucket2 h (Suc hp) k = bucket2 h hp k"
  have "\<not> goes_up h hp i k \<Longrightarrow> check ?stays Assert_failed = Inr ()" using goes_up_or_stays [OF assms] by auto
  moreover have "move_bucket_loop h hp (Suc hp) i (Some (p, k, v) # ss) j n bc =
    (if goes_up h hp i k
     then and_then (setKV bc (i + 2 ^ hp) n p k v) (move_bucket_loop h hp (Suc hp) i ss (Suc j) (Suc n))
     else and_then (check ?stays Assert_failed) (\<lambda>_.
       and_then (setKV bc i j p k v) (move_bucket_loop h hp (Suc hp) i ss (Suc j) n)))"
    by (simp only: move_bucket_loop.simps Let_def hashed_key_def hash_value.simps goes_up_def bucket1_def bucket2_def hashsize_def)
  ultimately show ?thesis by (cases "goes_up h hp i k") (simp_all only: and_then.simps if_True if_False not_False_eq_True)
qed

lemma move_bucket_loop_ok:
  assumes "hp < 64" and "placed h hp i ss" and "bc_buckets bc = Some bs" and "i + 2 ^ hp < length bs"
    and "bs ! i = low @ replicate (length ss + m) None"
    and "bs ! (i + 2 ^ hp) = up @ replicate (length ss + n) None"
  shows "move_bucket_loop h hp (Suc hp) i ss (length low) (length up) bc = Inr (bc\<lparr>bc_buckets := Some (bs
    [i := low @ low_half h hp i ss @ replicate m None,
     i + 2 ^ hp := up @ ups h hp i ss @ replicate (length ss - length (ups h hp i ss) + n) None])\<rparr>)"
  using assms(2-)
proof (induction ss arbitrary: low up n bc bs)
  case Nil
  have "bs[i := low @ replicate m None, i + 2 ^ hp := up @ replicate n None] = bs"
    by (metis Nil(4,5) add_0 list.size(3) list_update_id)
  then show ?case using Nil(2) by (simp add: low_half_def ups_def)
next
  case (Cons s ss)
  let ?u = "i + 2 ^ hp"
  have pl: "placed h hp i ss" using Cons.prems(1) by (simp add: placed_def)
  have ne: "i \<noteq> ?u" "i < length bs" using Cons.prems(3) by auto
  have len: "length (ups h hp i ss) \<le> length ss" by (simp add: ups_def)
  have None_end: "replicate (length (s # ss) + x) None = None # replicate (length ss + x) None" for x by simp
  have up': "bs ! ?u = up @ replicate (length ss + Suc n) None" using Cons.prems(5) by simp
  show ?case
  proof (cases s)
    case None
    have low': "bs ! i = (low @ [None]) @ replicate (length ss + m) None" using Cons.prems(4) by simp
    from Cons.IH [OF pl Cons.prems(2,3) low' up'] None len show ?thesis
      by (simp add: low_half_def ups_def Suc_diff_le)
  next
    case (Some e)
    obtain p k v where e: "e = (p, k, v)" by (cases e)
    have pk: "p = partial_key (h k)" "i = bucket1 h hp k \<or> i = bucket2 h hp k"
      using Cons.prems(1) by (auto simp: placed_def Some e)
    show ?thesis
    proof (cases "goes_up h hp i k")
      case True
      let ?bs = "bs[?u := (up @ [Some (p, k, v)]) @ replicate (length ss + n) None]"
      have set: "setKV bc ?u (length up) p k v = Inr (bc\<lparr>bc_buckets := Some ?bs\<rparr>)"
        using setKV_ok [OF Cons.prems(2,3), of "length up" p k v] unfolding Cons.prems(5) None_end by simp
      have low': "?bs ! i = (low @ [None]) @ replicate (length ss + m) None" using Cons.prems(4) ne by simp
      have up'': "?bs ! ?u = (up @ [Some (p, k, v)]) @ replicate (length ss + n) None" using Cons.prems(3) by simp
      have "move_bucket_loop h hp (Suc hp) i (s # ss) (length low) (length up) bc =
          move_bucket_loop h hp (Suc hp) i ss (length (low @ [None :: ('a, 'b) slot])) (length (up @ [Some (p, k, v)]))
            (bc\<lparr>bc_buckets := Some ?bs\<rparr>)"
        using True unfolding Some e move_bucket_loop_Some [OF assms(1) pk(2)] by (simp add: set)
      also have "\<dots> = Inr (bc\<lparr>bc_buckets := Some (?bs[i := (low @ [None]) @ low_half h hp i ss @ replicate m None,
          ?u := (up @ [Some (p, k, v)]) @ ups h hp i ss @ replicate (length ss - length (ups h hp i ss) + n) None])\<rparr>)"
        using Cons.IH [OF pl _ _ low' up'', of "bc\<lparr>bc_buckets := Some ?bs\<rparr>"] Cons.prems(3) by simp
      finally show ?thesis using True ne by (simp add: Some e low_half_def ups_def list_update_swap [of ?u i])
    next
      case False
      let ?bs = "bs[i := (low @ [Some (p, k, v)]) @ replicate (length ss + m) None]"
      have set: "setKV bc i (length low) p k v = Inr (bc\<lparr>bc_buckets := Some ?bs\<rparr>)"
        using setKV_ok [OF Cons.prems(2) ne(2), of "length low" p k v] unfolding Cons.prems(4) None_end by simp
      have low': "?bs ! i = (low @ [Some (p, k, v)]) @ replicate (length ss + m) None" using ne by simp
      have up'': "?bs ! ?u = up @ replicate (length ss + Suc n) None" using up' ne by simp
      have "move_bucket_loop h hp (Suc hp) i (s # ss) (length low) (length up) bc =
          move_bucket_loop h hp (Suc hp) i ss (length (low @ [Some (p, k, v)])) (length up) (bc\<lparr>bc_buckets := Some ?bs\<rparr>)"
        using False unfolding Some e move_bucket_loop_Some [OF assms(1) pk(2)] by (simp add: set)
      also have "\<dots> = Inr (bc\<lparr>bc_buckets := Some (?bs[i := (low @ [Some (p, k, v)]) @ low_half h hp i ss @ replicate m None,
          ?u := up @ ups h hp i ss @ replicate (length ss - length (ups h hp i ss) + Suc n) None])\<rparr>)"
        using Cons.IH [OF pl _ _ low' up'', of "bc\<lparr>bc_buckets := Some ?bs\<rparr>"] Cons.prems(3) by simp
      finally show ?thesis using False len by (simp add: Some e low_half_def ups_def Suc_diff_le)
    qed
  qed
qed

section \<open>Shape and view of a table\<close>

definition waits :: "('k, 'v) table \<Rightarrow> nat \<Rightarrow> bool" where
  "waits t l \<longleftrightarrow> \<not> is_migrated (get_current_locks t ! l)"

abbreviation buckets_of :: "('k, 'v) table \<Rightarrow> ('k, 'v) bucket list" where
  "buckets_of t \<equiv> the (bc_buckets (t_buckets t))"

abbreviation old_buckets_of :: "('k, 'v) table \<Rightarrow> ('k, 'v) bucket list" where
  "old_buckets_of t \<equiv> the (bc_buckets (t_old_buckets t))"

abbreviation old_hashpower :: "('k, 'v) table \<Rightarrow> nat" where "old_hashpower t \<equiv> bc_hashpower (t_old_buckets t)"

definition view :: "('k \<Rightarrow> u64) \<Rightarrow> ('k, 'v) table \<Rightarrow> nat \<Rightarrow> ('k, 'v) bucket" where
  "view h t i =
     (if hashsize (hashpower t) \<le> i then empty_bucket
      else if waits t (lock_ind i) then grown_bucket h (old_hashpower t) (old_buckets_of t) i
      else buckets_of t ! i)"

definition container_ok :: "('k, 'v) bucket_container \<Rightarrow> bool" where
  "container_ok bc \<longleftrightarrow> (\<exists>bs. bc_buckets bc = Some bs \<and> length bs = 2 ^ bc_hashpower bc \<and> (\<forall>b \<in> set bs. length b = slot_per_bucket))"

text \<open>The old buckets that wait for migration: their new places are still empty.\<close>

definition ready :: "('k \<Rightarrow> u64) \<Rightarrow> ('k, 'v) table \<Rightarrow> nat \<Rightarrow> bool" where
  "ready h t i \<longleftrightarrow> placed h (old_hashpower t) i (old_buckets_of t ! i) \<and> buckets_of t ! i = empty_bucket \<and>
     buckets_of t ! (i + 2 ^ old_hashpower t) = empty_bucket"

definition waiting_ok :: "('k \<Rightarrow> u64) \<Rightarrow> ('k, 'v) table \<Rightarrow> bool" where
  "waiting_ok h t \<longleftrightarrow> container_ok (t_old_buckets t) \<and> Suc (old_hashpower t) = hashpower t \<and>
     kMaxNumLocks \<le> 2 ^ old_hashpower t \<and> (\<forall>i < 2 ^ old_hashpower t. waits t (lock_ind i) \<longrightarrow> ready h t i)"

definition shape :: "('k \<Rightarrow> u64) \<Rightarrow> ('k, 'v) table \<Rightarrow> bool" where
  "shape h t \<longleftrightarrow> container_ok (t_buckets t) \<and> hashpower t < 64 \<and> t_all_locks t \<noteq> [] \<and>
     length (get_current_locks t) = min (2 ^ hashpower t) kMaxNumLocks \<and> t_maximum_hashpower t = NO_MAXIMUM_HASHPOWER \<and>
     ((\<exists>l < length (get_current_locks t). waits t l) \<longrightarrow> waiting_ok h t)"

definition counted :: "('k, 'v) table \<Rightarrow> bool" where
  "counted t \<longleftrightarrow> t_num_remaining t = length (filter (\<lambda>l. \<not> is_migrated l) (get_current_locks t))"

lemma hashpower_simps [simp]:
  "hashpower (t_old_buckets_update f t) = hashpower t" "hashpower (t_all_locks_update g t) = hashpower t"
  "hashpower (t_num_remaining_update n t) = hashpower t" "hashpower (set_current_locks t ls) = hashpower t"
  by (simp_all add: hashpower_def set_current_locks_def)

lemma locks_simps [simp]:
  "get_current_locks (t_buckets_update f t) = get_current_locks t"
  "get_current_locks (t_old_buckets_update f t) = get_current_locks t"
  "get_current_locks (t_num_remaining_update n t) = get_current_locks t"
  "get_current_locks (set_current_locks t ls) = ls"
  by (simp_all add: get_current_locks_def set_current_locks_def)

lemma waits_simps [simp]:
  "waits (t_buckets_update f t) l = waits t l" "waits (t_old_buckets_update g t) l = waits t l"
  "waits (t_num_remaining_update n t) l = waits t l"
  by (simp_all add: waits_def)

lemma set_current_locks_sel [simp]:
  "t_buckets (set_current_locks t ls) = t_buckets t" "t_old_buckets (set_current_locks t ls) = t_old_buckets t"
  "t_num_remaining (set_current_locks t ls) = t_num_remaining t" "t_all_locks (set_current_locks t ls) \<noteq> []"
  "t_maximum_hashpower (set_current_locks t ls) = t_maximum_hashpower t"
  by (simp_all add: set_current_locks_def)

lemma container_okD:
  assumes "container_ok bc"
  shows "bc_buckets bc = Some (the (bc_buckets bc))" "length (the (bc_buckets bc)) = 2 ^ bc_hashpower bc"
    "i < 2 ^ bc_hashpower bc \<Longrightarrow> length (the (bc_buckets bc) ! i) = slot_per_bucket"
  using assms by (auto simp: container_ok_def)

section \<open>Migrating buckets\<close>

definition base :: "('k, 'v) table \<Rightarrow> nat \<Rightarrow> nat" where
  "base t i = (if i < 2 ^ old_hashpower t then i else i - 2 ^ old_hashpower t)"

text \<open>The table after the old buckets of a set have been moved.\<close>

definition migrate :: "('k \<Rightarrow> u64) \<Rightarrow> ('k, 'v) table \<Rightarrow> nat set \<Rightarrow> ('k, 'v) table" where
  "migrate h t S = t\<lparr>t_buckets := (t_buckets t)\<lparr>bc_buckets := Some (map (\<lambda>i. if base t i \<in> S
     then grown_bucket h (old_hashpower t) (old_buckets_of t) i else buckets_of t ! i) [0..<length (buckets_of t)])\<rparr>\<rparr>"

lemma migrate_sel [simp]:
  "t_old_buckets (migrate h t S) = t_old_buckets t" "t_all_locks (migrate h t S) = t_all_locks t"
  "t_num_remaining (migrate h t S) = t_num_remaining t" "t_maximum_hashpower (migrate h t S) = t_maximum_hashpower t"
  "hashpower (migrate h t S) = hashpower t" "get_current_locks (migrate h t S) = get_current_locks t"
  "waits (migrate h t S) l = waits t l" "bc_hashpower (t_buckets (migrate h t S)) = bc_hashpower (t_buckets t)"
  "base (migrate h t S) i = base t i" "length (buckets_of (migrate h t S)) = length (buckets_of t)"
  by (simp_all add: migrate_def hashpower_def base_def)

lemma migrate_nth:
  "i < length (buckets_of t) \<Longrightarrow> buckets_of (migrate h t S) ! i =
    (if base t i \<in> S then grown_bucket h (old_hashpower t) (old_buckets_of t) i else buckets_of t ! i)"
  by (simp add: migrate_def)

lemma migrate_migrate: "migrate h (migrate h t S) S' = migrate h t (S \<union> S')"
proof -
  have "buckets_of (migrate h (migrate h t S) S') = buckets_of (migrate h t (S \<union> S'))"
    by (rule nth_equalityI) (simp_all add: migrate_nth)
  then show ?thesis by (simp add: migrate_def)
qed

lemma migrate_empty: "container_ok (t_buckets t) \<Longrightarrow> migrate h t {} = t"
  using container_okD(1) [of "t_buckets t"] by (simp add: migrate_def map_nth)

lemma container_ok_migrate:
  assumes "container_ok (t_buckets t)" and "container_ok (t_old_buckets t)" and "Suc (old_hashpower t) = hashpower t"
  shows "container_ok (t_buckets (migrate h t S))"
proof -
  note new = container_okD [OF assms(1)] and old = container_okD [OF assms(2)]
  have "length (grown_bucket h (old_hashpower t) (old_buckets_of t) i) = slot_per_bucket" if "i < 2 ^ hashpower t" for i
    using that old(3) by (simp add: grown_bucket_def flip: assms(3))
  then show ?thesis using new by (auto simp: container_ok_def migrate_def hashpower_def)
qed

lemma move_bucket_ok:
  assumes "container_ok (t_buckets t)" and "container_ok (t_old_buckets t)" and "Suc (old_hashpower t) = hashpower t"
    and "hashpower t < 64" and "i < 2 ^ old_hashpower t" and "ready h t i"
  shows "move_bucket h i t = Inr (migrate h t {i})"
proof -
  let ?hp = "old_hashpower t" and ?b = "old_buckets_of t ! i"
  note old = container_okD [OF assms(2)] and new = container_okD [OF assms(1)]
  have hp: "hashpower t = Suc ?hp" "?hp < 64" using assms(3,4) by simp_all
  have len: "length (buckets_of t) = 2 ^ Suc ?hp" using new(2) assms(3) by (simp add: hashpower_def)
  have at: "bc_at (t_old_buckets t) i = Inr ?b" "length ?b = 4"
    using old assms(5) by (auto simp: bc_at_def slot_per_bucket_def split: option.splits)
  have pl: "placed h ?hp i ?b" and e: "buckets_of t ! i = [] @ replicate (length ?b + 0) None"
    "buckets_of t ! (i + 2 ^ ?hp) = [] @ replicate (length ?b + 0) None"
    using assms(6) at(2) by (simp_all add: ready_def empty_bucket_def slot_per_bucket_def)
  have "move_bucket_loop h ?hp (hashpower t) i ?b 0 0 (t_buckets t) = Inr ((t_buckets t)\<lparr>bc_buckets := Some ((buckets_of t)
      [i := low_half h ?hp i ?b, i + 2 ^ ?hp := high_half h ?hp i ?b])\<rparr>)"
    using move_bucket_loop_ok [OF hp(2) pl new(1) _ e] assms(5) len unfolding hp(1) by (simp add: high_half_def)
  moreover have "(buckets_of t)[i := low_half h ?hp i ?b, i + 2 ^ ?hp := high_half h ?hp i ?b] = buckets_of (migrate h t {i})"
  proof (rule nth_equalityI)
    fix j assume "j < length ((buckets_of t)[i := low_half h ?hp i ?b, i + 2 ^ ?hp := high_half h ?hp i ?b])"
    then have j: "j < length (buckets_of t)" by simp
    then show "(buckets_of t)[i := low_half h ?hp i ?b, i + 2 ^ ?hp := high_half h ?hp i ?b] ! j = buckets_of (migrate h t {i}) ! j"
      unfolding migrate_nth [OF j] using assms(5) j by (auto simp: nth_list_update base_def grown_bucket_def)
  qed simp
  ultimately show ?thesis by (simp add: move_bucket_def at migrate_def)
qed

lemma each_move_ok:
  assumes "container_ok (t_buckets t)" and "container_ok (t_old_buckets t)" and "Suc (old_hashpower t) = hashpower t"
    and "hashpower t < 64"
  shows "distinct inds \<Longrightarrow> (\<forall>i \<in> set inds. i < 2 ^ old_hashpower t \<and> ready h t i) \<Longrightarrow>
    each (move_bucket h) inds t = Inr (migrate h t (set inds))"
  using assms
proof (induction inds arbitrary: t)
  case Nil
  then show ?case by (simp add: migrate_empty)
next
  case (Cons i inds)
  let ?t = "migrate h t {i}"
  have m: "move_bucket h i t = Inr ?t" using Cons.prems by (intro move_bucket_ok) auto
  have len: "length (buckets_of t) = 2 * 2 ^ old_hashpower t"
    using container_okD(2) [OF Cons.prems(3)] Cons.prems(5) by (metis hashpower_def power_Suc)
  have "ready h ?t j" if "j \<in> set inds" for j
  proof -
    have j: "j \<noteq> i" "j < 2 ^ old_hashpower t" "ready h t j" using that Cons.prems(1,2) by auto
    then show ?thesis using len by (simp add: ready_def migrate_nth base_def)
  qed
  then have "each (move_bucket h) inds ?t = Inr (migrate h ?t (set inds))"
    using Cons.prems by (intro Cons.IH) (auto intro: container_ok_migrate)
  then show ?case by (simp add: m migrate_migrate)
qed

lemma locked_buckets_ok:
  assumes "l < kMaxNumLocks"
  shows "distinct (locked_buckets l t)"
    and "set (locked_buckets l t) = {i. i < 2 ^ old_hashpower t \<and> lock_ind i = l}"
proof -
  let ?n = "(bc_size (t_old_buckets t) - l + (kMaxNumLocks - 1)) div kMaxNumLocks"
  have k: "0 < kMaxNumLocks" by (simp add: kMaxNumLocks_def)
  show "distinct (locked_buckets l t)" using k by (auto simp: locked_buckets_def distinct_map inj_on_def)
  have n: "q < ?n \<longleftrightarrow> l + q * kMaxNumLocks < 2 ^ old_hashpower t" for q
  proof -
    have "q < ?n \<longleftrightarrow> Suc q * kMaxNumLocks \<le> bc_size (t_old_buckets t) - l + (kMaxNumLocks - 1)"
      using k by (simp add: less_eq_div_iff_mult_less_eq Suc_le_eq [symmetric] del: mult_Suc)
    also have "\<dots> \<longleftrightarrow> l + q * kMaxNumLocks < bc_size (t_old_buckets t)" using k by auto
    finally show ?thesis by (simp add: bc_size_def)
  qed
  show "set (locked_buckets l t) = {i. i < 2 ^ old_hashpower t \<and> lock_ind i = l}"
  proof (rule set_eqI)
    fix i
    have "i \<in> set (locked_buckets l t) \<longleftrightarrow> (\<exists>q. q < ?n \<and> i = l + q * kMaxNumLocks)" by (auto simp: locked_buckets_def)
    also have "\<dots> \<longleftrightarrow> i < 2 ^ old_hashpower t \<and> (\<exists>q. i = l + q * kMaxNumLocks)" unfolding n by auto
    also have "(\<exists>q. i = l + q * kMaxNumLocks) \<longleftrightarrow> lock_ind i = l"
      using assms by (auto simp: lock_ind_mod) (metis add.commute mod_div_mult_eq mult.commute)
    finally show "i \<in> set (locked_buckets l t) \<longleftrightarrow> i \<in> {i. i < 2 ^ old_hashpower t \<and> lock_ind i = l}" by simp
  qed
qed

section \<open>Taking locks\<close>

definition agrees :: "('k \<Rightarrow> u64) \<Rightarrow> ('k, 'v) table \<Rightarrow> ('k, 'v) table \<Rightarrow> bool" where
  "agrees h t t' \<longleftrightarrow> hashpower t' = hashpower t \<and> view h t' = view h t \<and>
     map elem_counter (get_current_locks t') = map elem_counter (get_current_locks t) \<and> (\<forall>l. waits t' l \<longrightarrow> waits t l)"

lemma agrees_refl [simp]: "agrees h t t"
  by (simp add: agrees_def)

lemma agrees_trans [trans]: "agrees h t t' \<Longrightarrow> agrees h t' t'' \<Longrightarrow> agrees h t t''"
  by (auto simp: agrees_def)

lemma agrees_locks: "agrees h t t' \<Longrightarrow> length (get_current_locks t') = length (get_current_locks t)"
  unfolding agrees_def by (metis length_map)

definition settle :: "('k \<Rightarrow> u64) \<Rightarrow> nat \<Rightarrow> ('k, 'v) table \<Rightarrow> ('k, 'v) table" where
  "settle h l t = (let locks = get_current_locks t in
     set_current_locks (migrate h t {i. i < 2 ^ old_hashpower t \<and> lock_ind i = l})
       (locks[l := (locks ! l)\<lparr>is_migrated := True\<rparr>]))"

lemma lock_base:
  assumes "kMaxNumLocks \<le> 2 ^ old_hashpower t"
  shows "lock_ind (base t i) = lock_ind i" and "lock_ind (i + 2 ^ old_hashpower t) = lock_ind i"
proof -
  have "(2::nat) ^ 16 \<le> 2 ^ old_hashpower t" using assms by (simp add: kMaxNumLocks_def)
  then have "16 \<le> old_hashpower t" by (rule power_le_imp_le_exp [rotated]) simp
  then have "(2::nat) ^ 16 dvd 2 ^ old_hashpower t" by (rule le_imp_power_dvd)
  then have d: "kMaxNumLocks dvd 2 ^ old_hashpower t" by (simp add: kMaxNumLocks_def)
  then show "lock_ind (i + 2 ^ old_hashpower t) = lock_ind i" for i by (auto simp: lock_ind_mod elim!: dvdE)
  from this [of "i - 2 ^ old_hashpower t"] show "lock_ind (base t i) = lock_ind i" by (auto simp: base_def)
qed

lemma shape_waitsD:
  assumes "shape h t" and "l < length (get_current_locks t)" and "waits t l"
  shows "waiting_ok h t" "length (get_current_locks t) = kMaxNumLocks" "2 * 2 ^ old_hashpower t = (2::nat) ^ hashpower t"
proof -
  show w: "waiting_ok h t" using assms by (auto simp: shape_def)
  then show p: "2 * 2 ^ old_hashpower t = (2::nat) ^ hashpower t" by (auto simp: waiting_ok_def simp flip: power_Suc)
  show "length (get_current_locks t) = kMaxNumLocks"
    using assms(1) w p by (simp add: shape_def waiting_ok_def min_def)
qed

lemma lock_less: "shape h t \<Longrightarrow> i < 2 ^ hashpower t \<Longrightarrow> lock_ind i < length (get_current_locks t)"
  by (auto simp: shape_def lock_ind_mod kMaxNumLocks_def intro: le_less_trans [OF mod_less_eq_dividend])

lemma rehash_waiting:
  assumes "shape h t" and "l < length (get_current_locks t)" and "waits t l"
  shows "rehash_lock lazy h l t = (if lazy then decrement_num_remaining (settle h l t) else Inr (settle h l t))"
proof -
  note w = shape_waitsD [OF assms]
  have l: "l < kMaxNumLocks" using assms(2) w(2) by simp
  note lb = locked_buckets_ok [OF l, of t]
  have c: "container_ok (t_buckets t)" "hashpower t < 64" using assms(1) by (simp_all add: shape_def)
  have "each (move_bucket h) (locked_buckets l t) t = Inr (migrate h t (set (locked_buckets l t)))"
    using w(1) assms(3) lb by (intro each_move_ok c) (auto simp: waiting_ok_def)
  then show ?thesis
    using assms(2,3) w(1,2) lb(2) by (simp add: rehash_lock_def waits_def settle_def Let_def waiting_ok_def bc_size_def)
qed

lemma settle_ok:
  assumes sh: "shape h t" and l: "l < length (get_current_locks t)" and w: "waits t l"
  shows "shape h (settle h l t)" and "agrees h t (settle h l t)" and "\<not> waits (settle h l t) l"
proof -
  let ?t = "settle h l t" and ?S = "{i. i < 2 ^ old_hashpower t \<and> lock_ind i = l}"
  note wd = shape_waitsD [OF assms]
  have sel: "hashpower ?t = hashpower t" "t_old_buckets ?t = t_old_buckets t" "t_buckets ?t = t_buckets (migrate h t ?S)"
    "t_all_locks ?t \<noteq> []" "t_maximum_hashpower ?t = t_maximum_hashpower t" "length (get_current_locks ?t) = length (get_current_locks t)"
    "bc_hashpower (t_buckets ?t) = bc_hashpower (t_buckets t)"
    by (simp_all add: settle_def Let_def)
  have waits: "waits ?t l' \<longleftrightarrow> waits t l' \<and> l' \<noteq> l" for l'
    using l by (cases "l' = l") (simp_all add: waits_def settle_def Let_def)
  then show "\<not> waits ?t l" by simp
  have k: "kMaxNumLocks \<le> 2 ^ old_hashpower t" using wd(1) by (simp add: waiting_ok_def)
  have len: "length (buckets_of t) = 2 ^ hashpower t"
    using container_okD(2) [of "t_buckets t"] sh by (simp add: shape_def hashpower_def)
  have nth: "buckets_of ?t ! i = (if lock_ind i = l then grown_bucket h (old_hashpower t) (old_buckets_of t) i else buckets_of t ! i)"
    if "i < 2 ^ hashpower t" for i
  proof -
    have "base t i < 2 ^ old_hashpower t" using that wd(3) by (simp add: base_def) linarith
    then show ?thesis using that len lock_base(1) [OF k, of i] by (simp add: sel migrate_nth)
  qed
  have "view h ?t i = view h t i" for i
  proof (cases "hashsize (hashpower t) \<le> i")
    case False
    then show ?thesis using waits [of "lock_ind i"] w nth [of i] unfolding view_def sel by (auto simp: hashsize_def)
  qed (simp add: view_def sel)
  moreover have "map elem_counter (get_current_locks ?t) = map elem_counter (get_current_locks t)"
    using l by (intro nth_equalityI) (auto simp: settle_def Let_def nth_list_update)
  ultimately show "agrees h t ?t" using waits by (auto simp: agrees_def sel)
  have "ready h ?t i" if i: "i < 2 ^ old_hashpower t" "waits ?t (lock_ind i)" for i
  proof -
    have "i < 2 ^ hashpower t" "i + 2 ^ old_hashpower t < 2 ^ hashpower t" using i(1) wd(3) by linarith+
    then have n: "buckets_of ?t ! i = buckets_of t ! i"
      "buckets_of ?t ! (i + 2 ^ old_hashpower t) = buckets_of t ! (i + 2 ^ old_hashpower t)"
      using waits [of "lock_ind i"] i(2) lock_base(2) [OF k, of i] nth [of i] nth [of "i + 2 ^ old_hashpower t"] by simp_all
    have "ready h t i" using wd(1) i waits [of "lock_ind i"] by (simp add: waiting_ok_def)
    then show ?thesis unfolding ready_def sel(2) n .
  qed
  then have "waiting_ok h ?t" using wd(1) by (simp add: waiting_ok_def sel)
  moreover have "container_ok (t_buckets ?t)" unfolding sel
    using wd(1) sh by (intro container_ok_migrate) (auto simp: waiting_ok_def shape_def)
  ultimately show "shape h ?t" using sh by (simp add: shape_def sel)
qed

lemma filter_settled:
  "l < length ls \<Longrightarrow> \<not> P (ls ! l) \<Longrightarrow> P x \<Longrightarrow>
   Suc (length (filter (\<lambda>l. \<not> P l) (ls[l := x]))) = length (filter (\<lambda>l. \<not> P l) ls)"
proof -
  assume l: "l < length ls" "\<not> P (ls ! l)" "P x"
  have "filter (\<lambda>l. \<not> P l) (ls[l := x]) = filter (\<lambda>l. \<not> P l) (take l ls) @ filter (\<lambda>l. \<not> P l) (drop (Suc l) ls)"
    using l by (simp add: upd_conv_take_nth_drop)
  moreover have "filter (\<lambda>l. \<not> P l) ls = filter (\<lambda>l. \<not> P l) (take l ls) @ ls ! l # filter (\<lambda>l. \<not> P l) (drop (Suc l) ls)"
    using arg_cong [OF id_take_nth_drop [OF l(1)], of "filter (\<lambda>l. \<not> P l)"] l(2) by simp
  ultimately show ?thesis by (simp only: length_append list.size)
qed

lemma shape_deallocate:
  assumes "shape h t" and "\<forall>l < length (get_current_locks t). \<not> waits t l"
  shows "shape h (t\<lparr>t_num_remaining := n, t_old_buckets := bc\<rparr>)" and "agrees h t (t\<lparr>t_num_remaining := n, t_old_buckets := bc\<rparr>)"
proof -
  let ?t = "t\<lparr>t_num_remaining := n, t_old_buckets := bc\<rparr>"
  have "view h ?t i = view h t i" for i
    using assms(2) lock_less [OF assms(1), of i] by (simp add: view_def hashsize_def)
  then show "agrees h t ?t" by (auto simp: agrees_def)
  show "shape h ?t" using assms by (auto simp: shape_def)
qed

lemma shape_num [simp]: "shape h (t\<lparr>t_num_remaining := n\<rparr>) = shape h t"
  by (simp add: shape_def waiting_ok_def ready_def)

lemma view_num [simp]: "view h (t\<lparr>t_num_remaining := n\<rparr>) = view h t"
  by (rule ext) (simp add: view_def)

lemma set_num_remaining_ok:
  assumes "shape h t" and "n = length (filter (\<lambda>l. \<not> is_migrated l) (get_current_locks t))"
  shows "shape h (set_num_remaining n t)" and "agrees h t (set_num_remaining n t)" and "counted (set_num_remaining n t)"
proof -
  have "\<forall>l < length (get_current_locks t). \<not> waits t l" if "n = 0"
    using assms(2) that by (auto simp: waits_def filter_empty_conv)
  then show "shape h (set_num_remaining n t)" and "agrees h t (set_num_remaining n t)"
    using shape_deallocate [OF assms(1), where n = 0 and bc = "clear_and_deallocate (t_old_buckets t)"] assms(1)
    by (auto simp: set_num_remaining_def Let_def agrees_def)
  show "counted (set_num_remaining n t)" using assms(2) by (simp add: counted_def set_num_remaining_def Let_def)
qed

lemma rehash_lock_ok:
  assumes "shape h t" and "counted t" and "l < length (get_current_locks t)"
  shows "\<exists>t'. rehash_lock True h l t = Inr t' \<and> shape h t' \<and> counted t' \<and> agrees h t t' \<and> \<not> waits t' l"
proof (cases "waits t l")
  case True
  let ?t = "settle h l t"
  let ?n = "t_num_remaining ?t - 1"
  note s = settle_ok [OF assms(1,3) True]
  have "Suc (length (filter (\<lambda>l. \<not> is_migrated l) (get_current_locks ?t))) = t_num_remaining t"
    using filter_settled [where P = is_migrated, of l "get_current_locks t"] True assms(2,3)
    by (simp add: counted_def settle_def Let_def waits_def)
  then have n: "?n = length (filter (\<lambda>l. \<not> is_migrated l) (get_current_locks ?t))" "1 \<le> t_num_remaining ?t"
    by (simp_all add: settle_def Let_def)
  note d = set_num_remaining_ok [OF s(1) n(1)]
  have "rehash_lock True h l t = Inr (set_num_remaining ?n ?t)"
    using rehash_waiting [OF assms(1,3) True] n(2) by (simp add: decrement_num_remaining_def)
  moreover have "agrees h t (set_num_remaining ?n ?t)" using s(2) d(2) by (rule agrees_trans)
  moreover have "\<not> waits (set_num_remaining ?n ?t) l" using s(3) d(2) by (auto simp: agrees_def)
  ultimately show ?thesis using d by blast
next
  case False
  then have "rehash_lock True h l t = Inr t" using assms(3) by (simp add: rehash_lock_def waits_def)
  then show ?thesis using assms False by auto
qed

lemma rehash_locks_ok:
  "shape h t \<Longrightarrow> counted t \<Longrightarrow> \<forall>l \<in> set ls. l < length (get_current_locks t) \<Longrightarrow>
   \<exists>t'. each (rehash_lock True h) ls t = Inr t' \<and> shape h t' \<and> counted t' \<and> agrees h t t' \<and> (\<forall>l \<in> set ls. \<not> waits t' l)"
proof (induction ls arbitrary: t)
  case Nil
  then show ?case by auto
next
  case (Cons l ls)
  then have "l < length (get_current_locks t)" by simp
  from rehash_lock_ok [OF Cons.prems(1,2) this] obtain t1 where
    t1: "rehash_lock True h l t = Inr t1" "shape h t1" "counted t1" "agrees h t t1" "\<not> waits t1 l" by blast
  from Cons.IH [OF t1(2,3)] Cons.prems(3) agrees_locks [OF t1(4)] obtain t2 where
    t2: "each (rehash_lock True h) ls t1 = Inr t2" "shape h t2" "counted t2" "agrees h t1 t2" "\<forall>l \<in> set ls. \<not> waits t2 l" by auto
  show ?case using t1 t2 agrees_trans [OF t1(4) t2(4)] by (auto simp: agrees_def)
qed

text \<open>A bucket whose lock was taken: the array holds what the view says.\<close>

definition locked :: "('k, 'v) table \<Rightarrow> nat \<Rightarrow> bool" where
  "locked t i \<longleftrightarrow> i < 2 ^ hashpower t \<and> \<not> waits t (lock_ind i)"

lemma locked_view: "locked t i \<Longrightarrow> view h t i = buckets_of t ! i"
  by (simp add: locked_def view_def hashsize_def)

lemma locked_at: "shape h t \<Longrightarrow> locked t i \<Longrightarrow> bc_at (t_buckets t) i = Inr (view h t i)"
  using container_okD [of "t_buckets t"]
  by (auto simp: locked_view bc_at_def shape_def locked_def hashpower_def split: option.splits)

lemma length_view: "shape h t \<Longrightarrow> length (view h t i) = slot_per_bucket"
proof -
  assume sh: "shape h t"
  show ?thesis
  proof (cases "i < 2 ^ hashpower t")
    case True
    have "length (grown_bucket h (old_hashpower t) (old_buckets_of t) i) = slot_per_bucket" if "waits t (lock_ind i)"
    proof -
      note w = shape_waitsD [OF sh lock_less [OF sh True] that]
      have "base t i < 2 ^ old_hashpower t" using True w(3) by (simp add: base_def) linarith
      then show ?thesis
        using w(1) container_okD(3) [of "t_old_buckets t" "base t i"]
        by (simp add: waiting_ok_def grown_bucket_def base_def split: if_splits)
    qed
    then show ?thesis
      using True container_okD(3) [of "t_buckets t" i] sh by (auto simp: view_def hashsize_def shape_def hashpower_def)
  qed (simp add: view_def hashsize_def empty_bucket_def)
qed

lemma lock_one_ok:
  assumes "shape h t" and "counted t" and "i < 2 ^ hashpower t"
  shows "\<exists>t'. lock_one h (hashpower t) i t = Inr t' \<and> shape h t' \<and> counted t' \<and> agrees h t t' \<and> locked t' i"
  using rehash_lock_ok [OF assms(1,2) lock_less [OF assms(1,3)]] assms(3)
  by (auto simp: lock_one_def check_hashpower_def locked_def agrees_def)

lemma lock_two_ok:
  assumes "shape h t" and "counted t" and "i1 < 2 ^ hashpower t" and "i2 < 2 ^ hashpower t"
  shows "\<exists>t'. lock_two h (hashpower t) i1 i2 t = Inr t' \<and> shape h t' \<and> counted t' \<and> agrees h t t' \<and> locked t' i1 \<and> locked t' i2"
  using rehash_locks_ok [OF assms(1,2), of "if lock_ind i2 < lock_ind i1 then [lock_ind i2, lock_ind i1] else [lock_ind i1, lock_ind i2]"]
    lock_less [OF assms(1,3)] lock_less [OF assms(1,4)] assms(3,4)
  unfolding lock_two_def check_hashpower_def locked_def Let_def by (cases "lock_ind i2 < lock_ind i1") (auto simp: agrees_def)

definition sort3 :: "nat \<Rightarrow> nat \<Rightarrow> nat \<Rightarrow> nat list" where
  "sort3 l0 l1 l2 =
     (let (l2, l1) = (if l2 < l1 then (l1, l2) else (l2, l1));
          (l2, l0) = (if l2 < l0 then (l0, l2) else (l2, l0));
          (l1, l0) = (if l1 < l0 then (l0, l1) else (l1, l0)) in [l0, l1, l2])"

lemma set_sort3 [simp]: "set (sort3 l0 l1 l2) = {l0, l1, l2}"
  by (auto simp: sort3_def)

lemma lock_three_ok:
  assumes "shape h t" and "counted t" and "i1 < 2 ^ hashpower t" and "i2 < 2 ^ hashpower t" and "i3 < 2 ^ hashpower t"
  shows "\<exists>t'. lock_three h (hashpower t) i1 i2 i3 t = Inr t' \<and> shape h t' \<and> counted t' \<and> agrees h t t' \<and>
    locked t' i1 \<and> locked t' i2 \<and> locked t' i3"
proof -
  let ?ls = "sort3 (lock_ind i1) (lock_ind i2) (lock_ind i3)"
  have ls: "lock_three h (hashpower t) i1 i2 i3 t = each (rehash_lock True h) ?ls t"
    by (simp add: lock_three_def check_hashpower_def sort3_def Let_def case_prod_beta)
  have "\<forall>l \<in> set ?ls. l < length (get_current_locks t)" using lock_less [OF assms(1)] assms(3-5) by auto
  from rehash_locks_ok [OF assms(1,2) this] show ?thesis unfolding ls using assms(3-5) by (auto simp: locked_def agrees_def)
qed

section \<open>Contents of a view\<close>

definition good :: "('k \<Rightarrow> u64) \<Rightarrow> nat \<Rightarrow> (nat \<Rightarrow> ('k, 'v) bucket) \<Rightarrow> bool" where
  "good h hp V \<longleftrightarrow> (\<forall>i. length (V i) = slot_per_bucket \<and> placed h hp i (V i)) \<and>
     (\<forall>i j s r p k v p' v'. s < slot_per_bucket \<and> r < slot_per_bucket \<and> V i ! s = Some (p, k, v) \<and> V j ! r = Some (p', k, v') \<longrightarrow>
        i = j \<and> s = r)"

definition holds :: "(nat \<Rightarrow> ('k, 'v) bucket) \<Rightarrow> 'k \<Rightarrow> 'v \<Rightarrow> bool" where
  "holds V k v \<longleftrightarrow> (\<exists>i s p. s < slot_per_bucket \<and> V i ! s = Some (p, k, v))"

definition upd :: "(nat \<Rightarrow> ('k, 'v) bucket) \<Rightarrow> nat \<Rightarrow> nat \<Rightarrow> ('k, 'v) slot \<Rightarrow> (nat \<Rightarrow> ('k, 'v) bucket)" where
  "upd V i s x = V(i := (V i)[s := x])"

lemma goodD:
  assumes "good h hp V"
  shows "length (V i) = slot_per_bucket" "placed h hp i (V i)"
    "s < slot_per_bucket \<Longrightarrow> V i ! s = Some (p, k, v) \<Longrightarrow> p = partial_key (h k) \<and> (i = bucket1 h hp k \<or> i = bucket2 h hp k)"
    "s < slot_per_bucket \<Longrightarrow> r < slot_per_bucket \<Longrightarrow> V i ! s = Some (p, k, v) \<Longrightarrow> V j ! r = Some (p', k, v') \<Longrightarrow> i = j \<and> s = r"
proof -
  show l: "length (V i) = slot_per_bucket" "placed h hp i (V i)" for i using assms by (auto simp: good_def)
  then show "s < slot_per_bucket \<Longrightarrow> V i ! s = Some (p, k, v) \<Longrightarrow> p = partial_key (h k) \<and> (i = bucket1 h hp k \<or> i = bucket2 h hp k)"
    unfolding placed_def by (metis nth_mem)
  show "s < slot_per_bucket \<Longrightarrow> r < slot_per_bucket \<Longrightarrow> V i ! s = Some (p, k, v) \<Longrightarrow> V j ! r = Some (p', k, v') \<Longrightarrow> i = j \<and> s = r"
    using assms unfolding good_def by blast
qed

lemma upd_nth: "length (V j) = n \<Longrightarrow> r < n \<Longrightarrow> upd V i s x j ! r = (if j = i \<and> r = s then x else V j ! r)"
  by (auto simp: upd_def nth_list_update)

lemma goodI:
  assumes "\<And>i. length (V i) = slot_per_bucket"
    and "\<And>i s p k v. s < slot_per_bucket \<Longrightarrow> V i ! s = Some (p, k, v) \<Longrightarrow>
      p = partial_key (h k) \<and> (i = bucket1 h hp k \<or> i = bucket2 h hp k)"
    and "\<And>i j s r p k v p' v'. s < slot_per_bucket \<Longrightarrow> r < slot_per_bucket \<Longrightarrow> V i ! s = Some (p, k, v) \<Longrightarrow>
      V j ! r = Some (p', k, v') \<Longrightarrow> i = j \<and> s = r"
  shows "good h hp V"
  unfolding good_def placed_def using assms by (metis in_set_conv_nth)

lemma good_erase:
  assumes g: "good h hp V" and s: "s < slot_per_bucket" "V i ! s = Some (p, k, v)"
  shows "good h hp (upd V i s None)" and "holds (upd V i s None) k' v' \<longleftrightarrow> holds V k' v' \<and> k' \<noteq> k"
proof -
  note n = upd_nth [of V, OF goodD(1) [OF g], where i = i and s = s and x = None]
  have u: "r < slot_per_bucket \<Longrightarrow> upd V i s None j ! r = Some e \<longleftrightarrow> V j ! r = Some e \<and> (j, r) \<noteq> (i, s)" for j r e
    by (simp add: n)
  show "good h hp (upd V i s None)"
  proof (rule goodI)
    show "length (upd V i s None j) = slot_per_bucket" for j using goodD(1) [OF g] by (simp add: upd_def)
  qed (use goodD(3,4) [OF g] in \<open>auto simp: u\<close>)
  show "holds (upd V i s None) k' v' \<longleftrightarrow> holds V k' v' \<and> k' \<noteq> k"
  proof
    assume "holds (upd V i s None) k' v'"
    then obtain j r p' where r: "r < slot_per_bucket" "V j ! r = Some (p', k', v')" "(j, r) \<noteq> (i, s)"
      unfolding holds_def by (auto simp: u)
    then show "holds V k' v' \<and> k' \<noteq> k" using goodD(4) [OF g s(1) r(1) s(2)] unfolding holds_def by blast
  next
    assume "holds V k' v' \<and> k' \<noteq> k"
    then show "holds (upd V i s None) k' v'" using s(2) unfolding holds_def by (metis Pair_inject option.inject u)
  qed
qed

lemma good_add:
  assumes g: "good h hp V" and s: "s < slot_per_bucket" "V i ! s = None" and new: "\<And>v. \<not> holds V k v"
    and i: "i = bucket1 h hp k \<or> i = bucket2 h hp k"
  shows "good h hp (upd V i s (Some (partial_key (h k), k, v)))"
    and "holds (upd V i s (Some (partial_key (h k), k, v))) k' v' \<longleftrightarrow> holds V k' v' \<or> k' = k \<and> v' = v"
proof -
  let ?e = "(partial_key (h k), k, v)"
  note n = upd_nth [of V, OF goodD(1) [OF g], where i = i and s = s and x = "Some ?e"]
  have u: "r < slot_per_bucket \<Longrightarrow> upd V i s (Some ?e) j ! r = Some e \<longleftrightarrow> V j ! r = Some e \<or> (j, r) = (i, s) \<and> e = ?e" for j r e
    using s(2) by (auto simp: n)
  have none: "V j ! r \<noteq> Some (p, k, w)" if "r < slot_per_bucket" for j r p w using new that by (auto simp: holds_def)
  show "good h hp (upd V i s (Some ?e))"
  proof (rule goodI)
    show "length (upd V i s (Some ?e) j) = slot_per_bucket" for j using goodD(1) [OF g] by (simp add: upd_def)
    show "p = partial_key (h k') \<and> (j = bucket1 h hp k' \<or> j = bucket2 h hp k')"
      if "r < slot_per_bucket" "upd V i s (Some ?e) j ! r = Some (p, k', v')" for j r p k' v'
      using that goodD(3) [OF g, of r j p k' v'] i by (auto simp: u)
    show "j = j' \<and> r = r'" if "r < slot_per_bucket" "r' < slot_per_bucket" "upd V i s (Some ?e) j ! r = Some (p, k', v')"
      "upd V i s (Some ?e) j' ! r' = Some (p', k', v'')" for j j' r r' p k' v' p' v''
      using that goodD(4) [OF g, of r r' j p k' v' j' p' v''] none by (auto simp: u)
  qed
  show "holds (upd V i s (Some ?e)) k' v' \<longleftrightarrow> holds V k' v' \<or> k' = k \<and> v' = v"
    unfolding holds_def using s(1) by (simp add: u cong: conj_cong) blast
qed

lemma upd_upd [simp]: "upd (upd V i s x) i s y = upd V i s y"
  by (simp add: upd_def)

lemma upd_commute: "(i, s) \<noteq> (j, r) \<Longrightarrow> upd (upd V i s x) j r y = upd (upd V j r y) i s x"
  by (cases "i = j") (auto simp: upd_def fun_upd_twist list_update_swap)

lemma good_replace:
  assumes g: "good h hp V" and s: "s < slot_per_bucket" "V i ! s = Some (p, k, v)"
  shows "good h hp (upd V i s (Some (p, k, w)))"
    and "holds (upd V i s (Some (p, k, w))) k' v' \<longleftrightarrow> (if k' = k then v' = w else holds V k' v')"
proof -
  note e = good_erase [OF g s] and pk = goodD(3) [OF g s]
  have "upd V i s None i ! s = None" using s(1) goodD(1) [OF g] by (simp add: upd_nth)
  note a = good_add [OF e(1) s(1) this _ pk [THEN conjunct2], where v = w]
  have no: "\<not> holds (upd V i s None) k v" for v by (simp add: e(2))
  show "good h hp (upd V i s (Some (p, k, w)))" using a(1) [OF no] pk by simp
  show "holds (upd V i s (Some (p, k, w))) k' v' \<longleftrightarrow> (if k' = k then v' = w else holds V k' v')"
    using a(2) [OF no, of k' v'] pk by (auto simp: e(2))
qed

text \<open>Moving an element to its other bucket changes nothing of the contents.\<close>

lemma good_move:
  assumes hp: "hp \<le> 64" and g: "good h hp V" and s: "s < slot_per_bucket" "V i ! s = Some (p, k, v)"
    and r: "r < slot_per_bucket" "V j ! r = None" and j: "j = alt_index hp p i"
  shows "good h hp (upd (upd V j r (Some (p, k, v))) i s None)"
    and "holds (upd (upd V j r (Some (p, k, v))) i s None) = holds V"
proof -
  have ne: "(j, r) \<noteq> (i, s)" using s r by auto
  note e = good_erase [OF g s] and pk = goodD(3) [OF g s]
  have "upd V i s None j ! r = None" using r goodD(1) [OF g] by (simp add: upd_nth)
  moreover have "j = bucket1 h hp k \<or> j = bucket2 h hp k" using pk j alt_bucket [OF hp, where h = h and k = k] by auto
  ultimately have a: "good h hp (upd (upd V i s None) j r (Some (p, k, v)))"
    "\<And>k' v'. holds (upd (upd V i s None) j r (Some (p, k, v))) k' v' \<longleftrightarrow> holds (upd V i s None) k' v' \<or> k' = k \<and> v' = v"
    using good_add [OF e(1) r(1), of j k v] pk by (auto simp: e(2))
  have "holds V k v" using s by (auto simp: holds_def)
  moreover have "v' = v" if held: "holds V k v'" for v'
  proof -
    from held obtain i' s' p' where x: "s' < slot_per_bucket" "V i' ! s' = Some (p', k, v')" by (auto simp: holds_def)
    from goodD(4) [OF g s(1) x(1) s(2) x(2)] x(2) s(2) show ?thesis by simp
  qed
  ultimately have "(holds V k' v' \<and> k' \<noteq> k \<or> k' = k \<and> v' = v) = holds V k' v'" for k' v' by blast
  then show "holds (upd (upd V j r (Some (p, k, v))) i s None) = holds V"
    unfolding upd_commute [OF ne] by (intro ext) (simp only: a(2) e(2))
  show "good h hp (upd (upd V j r (Some (p, k, v))) i s None)" unfolding upd_commute [OF ne] by (rule a(1))
qed

section \<open>Reading and writing locked buckets\<close>

lemma put_locked:
  assumes sh: "shape h t" and l: "locked t i"
  shows "shape h (t\<lparr>t_buckets := put_slot (t_buckets t) i s x\<rparr>)" and
    "view h (t\<lparr>t_buckets := put_slot (t_buckets t) i s x\<rparr>) = upd (view h t) i s x" and
    "hashpower (t\<lparr>t_buckets := put_slot (t_buckets t) i s x\<rparr>) = hashpower t"
proof -
  let ?t = "t\<lparr>t_buckets := put_slot (t_buckets t) i s x\<rparr>"
  have c: "container_ok (t_buckets t)" using sh by (simp add: shape_def)
  note bs = container_okD [OF c]
  have nb: "bc_buckets (t_buckets ?t) = Some ((buckets_of t)[i := (buckets_of t ! i)[s := x]])"
    using bs(1) by (cases "bc_buckets (t_buckets t)") (simp_all add: put_slot_def)
  show hp: "hashpower ?t = hashpower t" by (simp add: hashpower_def put_slot_def)
  have i: "i < length (buckets_of t)" using l bs(2) by (simp add: locked_def hashpower_def)
  have nth: "the (bc_buckets (put_slot (t_buckets t) i s x)) ! j = (if j = i then (buckets_of t ! i)[s := x] else buckets_of t ! j)" for j
    using nb i by (simp add: nth_list_update)
  show "view h ?t = upd (view h t) i s x"
  proof
    fix j
    show "view h ?t j = upd (view h t) i s x j"
      using l by (cases "j = i") (auto simp: view_def hp nth upd_def locked_def hashsize_def)
  qed
  have "ready h ?t j" if "waiting_ok h t" "j < 2 ^ old_hashpower t" "waits t (lock_ind j)" for j
  proof -
    have "j \<noteq> i" "j + 2 ^ old_hashpower t \<noteq> i"
      using that l lock_base(2) [of t j] by (auto simp: locked_def waiting_ok_def)
    then show ?thesis using that by (simp add: ready_def nth waiting_ok_def)
  qed
  moreover have "container_ok (t_buckets ?t)"
    using c bs(3) [of i] i by (auto simp: container_ok_def put_slot_def dest!: set_update_subset_insert [THEN subsetD])
  ultimately show "shape h ?t" using sh by (auto simp: shape_def hp waiting_ok_def)
qed

lemma agrees_locked: "agrees h t t' \<Longrightarrow> locked t i \<Longrightarrow> locked t' i"
  by (auto simp: agrees_def locked_def)

lemma locked_put [simp]: "locked (t\<lparr>t_buckets := put_slot (t_buckets t) i s x\<rparr>) j = locked t j"
  by (simp add: locked_def hashpower_def put_slot_def)

lemma counted_put [simp]: "counted (t\<lparr>t_buckets := bc\<rparr>) = counted t"
  by (simp add: counted_def)

lemma setKV_locked:
  assumes "shape h t" and "locked t i" and "s < slot_per_bucket" and "view h t i ! s = None"
  shows "setKV (t_buckets t) i s p k v = Inr (put_slot (t_buckets t) i s (Some (p, k, v)))"
  using assms length_view [OF assms(1), of i] by (simp add: setKV_def locked_at)

lemma eraseKV_locked:
  assumes "shape h t" and "locked t i" and "s < slot_per_bucket" and "view h t i ! s \<noteq> None"
  shows "eraseKV (t_buckets t) i s = Inr (put_slot (t_buckets t) i s None)"
  using assms length_view [OF assms(1), of i] by (simp add: eraseKV_def locked_at)

end
