(* ===== verification/Cuckoo_Path.thy ===== *)
theory Cuckoo_Path
  imports Cuckoo_View
begin

text \<open>
  The search for a cuckoo path and the moves along it. The search is breadth first over the slots; the path that it finds
  is a shortest one, hence visits no bucket twice, and so the moves along it succeed. The queue never fills up.
\<close>

section \<open>Paths\<close>

lemma slots4 [simp]: "slot_per_bucket = 4" by (simp add: slot_per_bucket_def)

lemma MAX_CUCKOO_COUNT_eq [simp]: "MAX_CUCKOO_COUNT = 682" by (simp add: MAX_CUCKOO_COUNT_def MAX_BFS_PATH_LEN_def)

text \<open>The bucket to which the element of a slot would move, and the bucket at the end of a list of such moves.\<close>

definition after :: "nat \<Rightarrow> (nat \<Rightarrow> ('k, 'v) bucket) \<Rightarrow> nat \<Rightarrow> nat \<Rightarrow> nat" where
  "after hp V i s = alt_index hp (fst (the (V i ! s))) i"

fun walk :: "nat \<Rightarrow> (nat \<Rightarrow> ('k, 'v) bucket) \<Rightarrow> nat \<Rightarrow> nat list \<Rightarrow> nat" where
  "walk hp V i [] = i"
| "walk hp V i (s # ss) = walk hp V (after hp V i s) ss"

fun code :: "nat \<Rightarrow> nat list \<Rightarrow> nat" where
  "code c [] = c"
| "code c (s # ss) = code (c * 4 + s) ss"

lemma walk_append: "walk hp V i (ss @ rs) = walk hp V (walk hp V i ss) rs"
  by (induction ss arbitrary: i) auto

lemma walk_less: "hp \<le> 64 \<Longrightarrow> i < 2 ^ hp \<Longrightarrow> walk hp V i ss < 2 ^ hp"
  by (induction ss arbitrary: i) (auto simp: after_def)

lemma code_append: "code c (ss @ rs) = code (code c ss) rs"
  by (induction ss arbitrary: c) auto

lemma code_less: "set ss \<subseteq> {..<4} \<Longrightarrow> c < n \<Longrightarrow> code c ss < n * 4 ^ length ss"
proof (induction ss arbitrary: c n)
  case (Cons s ss)
  then have "c * 4 + s < n * 4" by auto
  from Cons.IH [OF _ this] Cons.prems show ?case by (simp add: mult.assoc)
qed simp

lemma path_slots_code: "set ss \<subseteq> {..<4} \<Longrightarrow> s < 4 \<Longrightarrow> path_slots (length ss) (code c (ss @ [s])) = (ss @ [s], c)"
proof (induction ss arbitrary: s rule: rev_induct)
  case (snoc r ss)
  then have "path_slots (length ss) (code c (ss @ [r])) = (ss @ [r], c)" by simp
  moreover have "code c ((ss @ [r]) @ [s]) = code c (ss @ [r]) * 4 + s" by (simp only: code_append [of _ _ "[s]"] code.simps)
  ultimately show ?case using snoc.prems(2) by (simp del: append_assoc)
qed simp

definition full :: "(nat \<Rightarrow> ('k, 'v) bucket) \<Rightarrow> nat \<Rightarrow> bool" where "full V i \<longleftrightarrow> None \<notin> set (V i)"

section \<open>One bucket of the search\<close>

definition child :: "nat \<Rightarrow> b_slot \<Rightarrow> ('k, 'v) bucket \<Rightarrow> nat \<Rightarrow> b_slot" where
  "child hp x b s = \<lparr>sl_bucket = alt_index hp (fst (the (b ! s))) (sl_bucket x),
     sl_pathcode = (sl_pathcode x * 4 + s) mod 2 ^ 16, sl_depth = sl_depth x + 1\<rparr>"

definition nth_slot :: "b_slot \<Rightarrow> nat \<Rightarrow> nat" where "nth_slot x i = (sl_pathcode x mod 4 + i) mod 4"

definition searched :: "nat \<Rightarrow> b_slot \<Rightarrow> ('k, 'v) bucket \<Rightarrow> nat \<Rightarrow> b_queue \<Rightarrow> b_slot option \<Rightarrow> b_queue \<Rightarrow> bool" where
  "searched hp x b n q r q' \<longleftrightarrow> q_first q' = q_first q \<and>
     (case r of
        Some x' \<Rightarrow> \<exists>s < 4. b ! s = None \<and> x' = x\<lparr>sl_pathcode := (sl_pathcode x * 4 + s) mod 2 ^ 16\<rparr>
      | None \<Rightarrow> (\<forall>i \<in> set [4 - n..<4]. b ! nth_slot x i \<noteq> None) \<and>
          q_slots q' = q_slots q @ (if sl_depth x < 4 then map (\<lambda>i. child hp x b (nth_slot x i)) [4 - n..<4] else []))"

lemma search_slots_ok:
  "length b = 4 \<Longrightarrow> n \<le> 4 \<Longrightarrow> (sl_depth x < 4 \<Longrightarrow> length (q_slots q) + n \<le> 682) \<Longrightarrow>
   \<exists>r q'. search_slots hp x b n q = Inr (r, q') \<and> searched hp x b n q r q'"
proof (induction n arbitrary: q)
  case 0
  then show ?case by (simp add: searched_def)
next
  case (Suc n)
  let ?s = "nth_slot x (4 - Suc n)"
  have s: "?s < 4" "(sl_pathcode x mod 4 + (4 - Suc n)) mod 4 = ?s" by (simp_all add: nth_slot_def)
  have up: "[4 - Suc n..<4] = (4 - Suc n) # [4 - n..<4]" 
  proof -
    have "Suc (4 - Suc n) = 4 - n" "4 - Suc n < 4" using Suc.prems(2) by linarith+
    then show ?thesis using upt_conv_Cons [of "4 - Suc n" 4] by (simp only:)
  qed
  show ?case
  proof (cases "b ! ?s")
    case None
    then show ?thesis using s Suc.prems(1) by (auto simp: Let_def searched_def intro!: exI [of _ ?s])
  next
    case (Some e)
    obtain p k v where e: "e = (p, k, v)" by (cases e)
    show ?thesis
    proof (cases "sl_depth x < 4")
      case True
      let ?q = "q\<lparr>q_slots := q_slots q @ [child hp x b ?s]\<rparr>"
      have room: "length (q_slots q) + Suc n \<le> 682" using Suc.prems(3) True by simp
      have st: "search_slots hp x b (Suc n) q = search_slots hp x b n ?q"
        using Some e s Suc.prems(1) True room
        by (simp add: Let_def q_full_def b_slot_make_def MAX_BFS_PATH_LEN_def enqueue_def child_def)
      have "\<exists>r q'. search_slots hp x b n ?q = Inr (r, q') \<and> searched hp x b n ?q r q'"
        using Suc.prems room by (intro Suc.IH) auto
      moreover have "searched hp x b n ?q r q' \<Longrightarrow> searched hp x b (Suc n) q r q'" for r q'
        unfolding searched_def up using Some [unfolded e] True by (cases r) simp_all
      ultimately show ?thesis unfolding st by blast
    next
      case False
      have st: "search_slots hp x b (Suc n) q = search_slots hp x b n q"
        using Some e s Suc.prems(1) False by (simp add: Let_def MAX_BFS_PATH_LEN_def)
      have "\<exists>r q'. search_slots hp x b n q = Inr (r, q') \<and> searched hp x b n q r q'"
        using Suc.prems False by (intro Suc.IH) auto
      moreover have "searched hp x b n q r q' \<Longrightarrow> searched hp x b (Suc n) q r q'" for r q'
        unfolding searched_def up using Some [unfolded e] False by (cases r) simp_all
      ultimately show ?thesis unfolding st by blast
    qed
  qed
qed

lemma nth_slots: "nth_slot x ` {..<4} = {..<4}" and inj_nth_slot: "inj_on (nth_slot x) {..<4}"
proof -
  have f: "{..<4::nat} = {0, 1, 2, 3}" by auto
  have "sl_pathcode x mod 4 = 0 \<or> sl_pathcode x mod 4 = 1 \<or> sl_pathcode x mod 4 = 2 \<or> sl_pathcode x mod 4 = 3" by linarith
  note c = this
  show "nth_slot x ` {..<4} = {..<4}" unfolding f nth_slot_def using c by (elim disjE) auto
  show "inj_on (nth_slot x) {..<4}" unfolding f nth_slot_def using c by (elim disjE) (auto simp: inj_on_def)
qed

section \<open>The queue\<close>

text \<open>A node of the search: which of the two buckets it starts from and the slots it leaves.\<close>

type_synonym node = "nat \<times> nat list"

definition nodes :: "node set" where "nodes = {..<2} \<times> {ss. set ss \<subseteq> {..<4} \<and> length ss \<le> 4}"

definition node_bucket :: "nat \<Rightarrow> (nat \<Rightarrow> ('k, 'v) bucket) \<Rightarrow> nat \<Rightarrow> nat \<Rightarrow> node \<Rightarrow> nat" where
  "node_bucket hp V i1 i2 n = walk hp V (if fst n = 0 then i1 else i2) (snd n)"

definition node_slot :: "nat \<Rightarrow> (nat \<Rightarrow> ('k, 'v) bucket) \<Rightarrow> nat \<Rightarrow> nat \<Rightarrow> node \<Rightarrow> b_slot" where
  "node_slot hp V i1 i2 n = \<lparr>sl_bucket = node_bucket hp V i1 i2 n, sl_pathcode = code (fst n) (snd n), sl_depth = int (length (snd n))\<rparr>"

definition then_slot :: "node \<Rightarrow> nat \<Rightarrow> node" where "then_slot n s = (fst n, snd n @ [s])"

lemma card_nodes: "finite nodes" "card nodes = 682"
proof -
  have l: "finite {ss. set ss \<subseteq> {..<4::nat} \<and> length ss \<le> 4}" "card {ss. set ss \<subseteq> {..<4::nat} \<and> length ss \<le> 4} = 341"
    by (simp_all add: finite_lists_length_le card_lists_length_le numeral_eq_Suc)
  then show "finite nodes" "card nodes = 682" by (simp_all add: nodes_def card_cartesian_product)
qed

lemma then_slot_simps [simp]: "then_slot n s = then_slot n' s' \<longleftrightarrow> n = n' \<and> s = s'" "snd (then_slot n s) = snd n @ [s]" "fst (then_slot n s) = fst n"
  by (auto simp: then_slot_def prod_eq_iff)

lemma then_slot_nodes: "n \<in> nodes \<Longrightarrow> length (snd n) < 4 \<Longrightarrow> s < 4 \<Longrightarrow> then_slot n s \<in> nodes"
  by (auto simp: nodes_def then_slot_def)

definition queue_ok :: "nat \<Rightarrow> (nat \<Rightarrow> ('k, 'v) bucket) \<Rightarrow> nat \<Rightarrow> nat \<Rightarrow> node list \<Rightarrow> nat \<Rightarrow> bool" where
  "queue_ok hp V i1 i2 N f \<longleftrightarrow> distinct N \<and> set N \<subseteq> nodes \<and> f \<le> length N \<and> (0, []) \<in> set N \<and> (1, []) \<in> set N \<and>
     (\<forall>n \<in> set (take f N). full V (node_bucket hp V i1 i2 n)) \<and>
     (\<forall>n \<in> set (take f N). length (snd n) < 4 \<longrightarrow> (\<forall>s < 4. then_slot n s \<in> set N)) \<and>
     (\<forall>n s. then_slot n s \<in> set N \<longrightarrow> n \<in> set (take f N)) \<and>
     sorted (map (\<lambda>n. length (snd n)) N) \<and>
     (f < length N \<longrightarrow> (\<forall>n \<in> set N. length (snd n) \<le> Suc (length (snd (N ! f)))))"

lemma queue_ok_start: "queue_ok hp V i1 i2 [(0, []), (1, [])] 0"
  by (auto simp: queue_ok_def nodes_def then_slot_def)

lemma queue_before:
  assumes q: "queue_ok hp V i1 i2 N f" and f: "f < length N" and n: "n \<in> set N" "length (snd n) < length (snd (N ! f))"
  shows "n \<in> set (take f N)"
proof -
  from n(1) obtain j where j: "j < length N" "N ! j = n" by (auto simp: in_set_conv_nth)
  have "j < f"
  proof (rule ccontr)
    assume "\<not> j < f"
    then have "length (snd (N ! f)) \<le> length (snd (N ! j))"
      using q j(1) f sorted_nth_mono [of "map (\<lambda>n. length (snd n)) N" f j] by (simp add: queue_ok_def)
    then show False using n(2) j(2) by simp
  qed
  then show ?thesis using j f by (auto simp: in_set_conv_nth intro!: exI [of _ j])
qed

text \<open>Every node that is shorter than the next one has been processed.\<close>

lemma shorter_processed:
  assumes q: "queue_ok hp V i1 i2 N f" and f: "f < length N"
  shows "st < 2 \<Longrightarrow> set ss \<subseteq> {..<4} \<Longrightarrow> length ss < length (snd (N ! f)) \<Longrightarrow> (st, ss) \<in> set (take f N)"
proof (induction ss rule: rev_induct)
  case Nil
  then have "(st, []) \<in> set N" using q by (cases "st = 0") (auto simp: queue_ok_def less_2_cases_iff)
  then show ?case using Nil by (intro queue_before [OF q f]) auto
next
  case (snoc s ss)
  then have m: "(st, ss) \<in> set (take f N)" by auto
  have "N ! f \<in> nodes" using q nth_mem [OF f] by (auto simp: queue_ok_def)
  then have "length ss < 4" using snoc.prems(3) by (auto simp: nodes_def)
  then have "then_slot (st, ss) s \<in> set N" using q m snoc.prems(2) by (auto simp: queue_ok_def)
  then show ?case using snoc.prems(3) queue_before [OF q f, of "then_slot (st, ss) s"] by (simp add: then_slot_def)
qed

definition children :: "node \<Rightarrow> (nat \<Rightarrow> nat) \<Rightarrow> node list" where
  "children n \<sigma> = (if length (snd n) < 4 then map (\<lambda>i. then_slot n (\<sigma> i)) [0..<4] else [])"

lemma queue_step:
  assumes q: "queue_ok hp V i1 i2 N f" and f: "f < length N" and full: "full V (node_bucket hp V i1 i2 (N ! f))"
    and \<sigma>: "\<sigma> ` {..<4} = {..<4}" "inj_on \<sigma> {..<4}"
  shows "queue_ok hp V i1 i2 (N @ children (N ! f) \<sigma>) (Suc f)"
proof -
  let ?x = "N ! f" and ?C = "children (N ! f) \<sigma>"
  have N: "distinct N" "set N \<subseteq> nodes" and par: "\<And>n s. then_slot n s \<in> set N \<Longrightarrow> n \<in> set (take f N)"
    and len: "\<forall>n \<in> set N. length (snd n) \<le> Suc (length (snd ?x))"
    using q f unfolding queue_ok_def by blast+
  have x: "?x \<in> nodes" using N(2) nth_mem [OF f] by blast
  have setC: "set ?C = (if length (snd ?x) < 4 then then_slot ?x ` {..<4} else {})"
    using \<sigma>(1) by (auto simp: children_def atLeast0LessThan simp flip: image_image [of "then_slot ?x" \<sigma>])
  have new: "?x \<notin> set (take f N)" using N(1) f by (auto simp: in_set_conv_nth nth_eq_iff_index_eq)
  have take: "set (take (Suc f) (N @ ?C)) = insert ?x (set (take f N))" using f by (simp add: take_Suc_conv_app_nth)
  have "distinct ?C" using \<sigma>(2) by (auto simp: children_def distinct_map inj_on_def atLeast0LessThan)
  moreover have "set N \<inter> set ?C = {}" using par [of ?x] new by (auto simp: setC)
  moreover have "set ?C \<subseteq> nodes" using then_slot_nodes [OF x] by (auto simp: setC)
  moreover have "n \<in> set (take (Suc f) (N @ ?C))" if "then_slot n s \<in> set (N @ ?C)" for n s
    using that par [of n s] unfolding take by (auto simp: setC split: if_splits)
  moreover have "\<forall>s < 4. then_slot n s \<in> set (N @ ?C)" if "n \<in> set (take (Suc f) (N @ ?C))" "length (snd n) < 4" for n
    using that q unfolding take by (auto simp: setC queue_ok_def)
  moreover have "sorted (map (\<lambda>n. length (snd n)) (N @ ?C))"
  proof -
    have C: "length (snd n) = Suc (length (snd ?x))" if "n \<in> set ?C" for n using that by (auto simp: setC split: if_splits)
    then have "sorted (map (\<lambda>n. length (snd n)) ?C)" by (simp add: sorted_iff_nth_mono)
    then show ?thesis using q len C by (simp add: sorted_append queue_ok_def)
  qed
  moreover have "length (snd n) \<le> Suc (length (snd ((N @ ?C) ! Suc f)))" if "Suc f < length (N @ ?C)" "n \<in> set (N @ ?C)" for n
  proof -
    have "length (snd n) \<le> Suc (length (snd ?x))" using that(2) len by (auto simp: setC split: if_splits)
    moreover have "length (snd ((N @ ?C) ! f)) \<le> length (snd ((N @ ?C) ! Suc f))"
      using sorted_nth_mono [OF \<open>sorted (map (\<lambda>n. length (snd n)) (N @ ?C))\<close>, of f "Suc f"] that(1)
      by (simp del: map_append nth_append)
    moreover have "(N @ ?C) ! f = ?x" using f by (simp add: nth_append)
    ultimately show ?thesis by simp
  qed
  moreover have "Suc f \<le> length (N @ ?C)" "(0, []) \<in> set (N @ ?C)" "(1, []) \<in> set (N @ ?C)"
    using f q by (auto simp: queue_ok_def)
  moreover have "\<forall>n \<in> set (take (Suc f) (N @ ?C)). full V (node_bucket hp V i1 i2 n)"
    using q full unfolding take queue_ok_def by blast
  ultimately show ?thesis using N unfolding queue_ok_def by (simp add: Un_subset_iff del: take_append)
qed

lemma queue_room: "queue_ok hp V i1 i2 N f \<Longrightarrow> length N \<le> 682"
  using distinct_card [of N] card_mono [OF card_nodes(1), of "set N"] card_nodes(2) by (simp add: queue_ok_def)

lemma queue_room_children:
  assumes q: "queue_ok hp V i1 i2 N f" and f: "f < length N" and d: "length (snd (N ! f)) < 4"
  shows "length N + 4 \<le> 682"
proof -
  let ?C = "then_slot (N ! f) ` {..<4}"
  have N: "distinct N" "set N \<subseteq> nodes" and par: "\<And>s. then_slot (N ! f) s \<in> set N \<Longrightarrow> N ! f \<in> set (take f N)"
    using q unfolding queue_ok_def by blast+
  have "N ! f \<notin> set (take f N)" using N(1) f by (auto simp: in_set_conv_nth nth_eq_iff_index_eq)
  then have "set N \<inter> ?C = {}" using par by auto
  moreover have "set N \<union> ?C \<subseteq> nodes" using N(2) then_slot_nodes [OF _ d] nth_mem [OF f] by auto
  moreover have "card ?C = 4" by (simp add: card_image inj_on_def)
  ultimately show ?thesis
    using card_mono [OF card_nodes(1), of "set N \<union> ?C"] N(1) by (simp add: card_Un_disjoint distinct_card card_nodes(2))
qed

section \<open>The search\<close>

definition found :: "nat \<Rightarrow> (nat \<Rightarrow> ('k, 'v) bucket) \<Rightarrow> nat \<Rightarrow> nat \<Rightarrow> b_slot \<Rightarrow> nat \<Rightarrow> nat list \<Rightarrow> nat \<Rightarrow> bool" where
  "found hp V i1 i2 x st ss s \<longleftrightarrow> st < 2 \<and> set ss \<subseteq> {..<4} \<and> s < 4 \<and>
     sl_pathcode x = code st (ss @ [s]) \<and> sl_depth x = int (length ss) \<and> V (node_bucket hp V i1 i2 (st, ss)) ! s = None \<and>
     (\<forall>st' ss'. st' < 2 \<and> set ss' \<subseteq> {..<4} \<and> length ss' < length ss \<longrightarrow> full V (node_bucket hp V i1 i2 (st', ss')))"

lemma code_small: "n \<in> nodes \<Longrightarrow> s < 4 \<Longrightarrow> code (fst n) (snd n) * 4 + s < 2 ^ 16"
proof -
  assume n: "n \<in> nodes" and s: "s < 4"
  then have "code (fst n) (snd n) < 2 * 4 ^ length (snd n)" by (intro code_less) (auto simp: nodes_def)
  also have "\<dots> \<le> 2 * 4 ^ 4" using n by (intro mult_left_mono power_increasing) (auto simp: nodes_def)
  finally show ?thesis using s by simp
qed

lemma child_node:
  assumes "n \<in> nodes" and "s < 4"
  shows "child hp (node_slot hp V i1 i2 n) (V (node_bucket hp V i1 i2 n)) s = node_slot hp V i1 i2 (then_slot n s)"
  using code_small [OF assms] by (simp add: child_def node_slot_def node_bucket_def walk_append after_def code_append)

lemma slot_search_loop_ok:
  assumes hp: "hp \<le> 64" "i1 < 2 ^ hp" "i2 < 2 ^ hp"
  shows "shape h t \<Longrightarrow> counted t \<Longrightarrow> hashpower t = hp \<Longrightarrow> view h t = V \<Longrightarrow> queue_ok hp V i1 i2 N f \<Longrightarrow>
    \<exists>x t'. slot_search_loop h hp \<lparr>q_slots = map (node_slot hp V i1 i2) N, q_first = f\<rparr> t = Inr (x, t') \<and>
      shape h t' \<and> counted t' \<and> agrees h t t' \<and> (sl_depth x = - 1 \<or> (\<exists>st ss s. found hp V i1 i2 x st ss s))"
proof (induction "682 - f" arbitrary: N f t rule: less_induct)
  case less
  let ?q = "\<lparr>q_slots = map (node_slot hp V i1 i2) N, q_first = f\<rparr>"
  show ?case
  proof (cases "f < length N")
    case False
    then have "q_empty ?q" using less.prems(5) by (simp add: q_empty_def queue_ok_def)
    then show ?thesis using less.prems(1,2)
      by (auto simp: slot_search_loop.simps [of h hp ?q] b_slot_make_def MAX_BFS_PATH_LEN_def)
  next
    case True
    let ?n = "N ! f" and ?q' = "\<lparr>q_slots = map (node_slot hp V i1 i2) N, q_first = Suc f\<rparr>"
    let ?x = "node_slot hp V i1 i2 ?n" and ?i = "node_bucket hp V i1 i2 ?n"
    have f: "f < 682" using True queue_room [OF less.prems(5)] by simp
    have n: "?n \<in> nodes" using less.prems(5) nth_mem [OF True] by (auto simp: queue_ok_def)
    have dq: "dequeue ?q = Inr (?x, ?q')" "\<not> q_empty ?q" using True f by (simp_all add: dequeue_def q_empty_def)
    have i: "?i < 2 ^ hashpower t" using hp less.prems(3) by (auto simp: node_bucket_def intro: walk_less)
    from lock_one_ok [OF less.prems(1,2) i] obtain t1 where
      t1: "lock_one h (hashpower t) ?i t = Inr t1" "shape h t1" "counted t1" "agrees h t t1" "locked t1 ?i" by blast
    have V1: "view h t1 = V" "hashpower t1 = hp" using t1(4) less.prems(3,4) by (simp_all add: agrees_def)
    have b: "bc_at (t_buckets t1) ?i = Inr (V ?i)" "length (V ?i) = 4"
      using locked_at [OF t1(2,5)] length_view [OF t1(2)] V1 by auto
    have xs: "sl_pathcode ?x = code (fst ?n) (snd ?n)" "sl_depth ?x = int (length (snd ?n))" "sl_bucket ?x = ?i"
      by (simp_all add: node_slot_def)
    have "length (map (node_slot hp V i1 i2) N) + 4 \<le> 682" if "sl_depth ?x < 4"
      using queue_room_children [OF less.prems(5) True] that by (simp add: xs)
    then obtain r q' where s: "search_slots hp ?x (V ?i) 4 ?q' = Inr (r, q')" "searched hp ?x (V ?i) 4 ?q' r q'"
      using search_slots_ok [OF b(2), of 4 ?x ?q' hp] by auto
    have step: "slot_search_loop h hp ?q t = (case r of Some x \<Rightarrow> Inr (x, t1) | None \<Rightarrow> slot_search_loop h hp q' t1)"
      using dq t1(1) b(1) s(1) less.prems(3) by (subst slot_search_loop.simps) (simp add: xs)
    show ?thesis
    proof (cases r)
      case (Some x')
      then obtain s0 where s0: "s0 < 4" "V ?i ! s0 = None" "x' = ?x\<lparr>sl_pathcode := (sl_pathcode ?x * 4 + s0) mod 2 ^ 16\<rparr>"
        using s(2) by (auto simp: searched_def)
      have "full V (node_bucket hp V i1 i2 (st', ss'))" if "st' < 2" "set ss' \<subseteq> {..<4}" "length ss' < length (snd ?n)" for st' ss'
        using shorter_processed [OF less.prems(5) True that] less.prems(5) by (auto simp: queue_ok_def)
      then have "found hp V i1 i2 x' (fst ?n) (snd ?n) s0"
        using n s0 code_small [OF n s0(1)] by (auto simp: found_def node_slot_def code_append nodes_def)
      then show ?thesis unfolding step using Some t1 by auto
    next
      case None
      have sl: "\<forall>i < 4. V ?i ! nth_slot ?x i \<noteq> None" using s(2) None by (auto simp: searched_def)
      have full: "full V ?i"
        unfolding full_def using sl nth_slots [of ?x] b(2)
        by (metis (no_types, lifting) image_iff in_set_conv_nth lessThan_iff)
      have q: "q' = \<lparr>q_slots = map (node_slot hp V i1 i2) (N @ children ?n (nth_slot ?x)), q_first = Suc f\<rparr>"
      proof -
        have "child hp ?x (V ?i) (nth_slot ?x i) = node_slot hp V i1 i2 (then_slot ?n (nth_slot ?x i))" if "i < 4" for i
          using nth_slots [of ?x] that by (intro child_node n) blast
        then show ?thesis using s(2) None by (cases q') (auto simp: searched_def xs children_def)
      qed
      have "queue_ok hp V i1 i2 (N @ children ?n (nth_slot ?x)) (Suc f)"
        using queue_step [OF less.prems(5) True full nth_slots inj_nth_slot] .
      note IH = less.hyps [OF _ t1(2,3) V1(2,1) this]
      have "682 - Suc f < 682 - f" using f by simp
      from IH [OF this] obtain x t' where
        "slot_search_loop h hp q' t1 = Inr (x, t')" "shape h t'" "counted t'" "agrees h t1 t'"
        "sl_depth x = - 1 \<or> (\<exists>st ss s. found hp V i1 i2 x st ss s)" unfolding q by blast
      then show ?thesis unfolding step using None agrees_trans [OF t1(4)] by auto
    qed
  qed
qed

lemma slot_search_ok:
  assumes "shape h t" and "counted t" and "i1 < 2 ^ hashpower t" and "i2 < 2 ^ hashpower t"
  shows "\<exists>x t'. slot_search h (hashpower t) i1 i2 t = Inr (x, t') \<and> shape h t' \<and> counted t' \<and> agrees h t t' \<and>
    (sl_depth x = - 1 \<or> (\<exists>st ss s. found (hashpower t) (view h t) i1 i2 x st ss s))"
proof -
  let ?hp = "hashpower t" and ?V = "view h t"
  have "slot_search h ?hp i1 i2 t = slot_search_loop h ?hp
      \<lparr>q_slots = map (node_slot ?hp ?V i1 i2) [(0, []), (1, [])], q_first = 0\<rparr> t"
    by (simp add: slot_search_def b_slot_make_def MAX_BFS_PATH_LEN_def enqueue_def b_queue_make_def q_full_def
        node_slot_def node_bucket_def)
  moreover have "?hp \<le> 64" using assms(1) by (simp add: shape_def)
  ultimately show ?thesis using slot_search_loop_ok [OF _ assms(3,4,1,2) refl refl queue_ok_start] by simp
qed

section \<open>The path\<close>

fun recs :: "('k \<Rightarrow> u64) \<Rightarrow> nat \<Rightarrow> (nat \<Rightarrow> ('k, 'v) bucket) \<Rightarrow> nat \<Rightarrow> nat list \<Rightarrow> CuckooRecord list" where
  "recs h hp V i [] = []"
| "recs h hp V i (s # ss) =
     \<lparr>cr_bucket = i, cr_slot = s, cr_hv = map_option (\<lambda>(p, k, v). hashed_key h k) (V i ! s)\<rparr> # recs h hp V (after hp V i s) ss"

lemma length_recs [simp]: "length (recs h hp V i ss) = length ss"
  by (induction ss arbitrary: i) auto

lemma nth_recs:
  "j < length ss \<Longrightarrow> recs h hp V i ss ! j =
    \<lparr>cr_bucket = walk hp V i (take j ss), cr_slot = ss ! j,
     cr_hv = map_option (\<lambda>(p, k, v). hashed_key h k) (V (walk hp V i (take j ss)) ! (ss ! j))\<rparr>"
proof (induction ss arbitrary: i j)
  case (Cons s ss)
  then show ?case by (cases j) auto
qed simp

lemma path_records_ok:
  assumes hp: "hp \<le> 64" and g: "good h hp V" and s: "s < 4"
  shows "shape h t \<Longrightarrow> counted t \<Longrightarrow> hashpower t = hp \<Longrightarrow> view h t = V \<Longrightarrow> i < 2 ^ hp \<Longrightarrow> set ss \<subseteq> {..<4} \<Longrightarrow>
    \<forall>j < length ss. full V (walk hp V i (take j ss)) \<Longrightarrow> V (walk hp V i ss) ! s = None \<Longrightarrow>
    \<exists>t'. path_records h hp i (ss @ [s]) t = Inr (recs h hp V i (ss @ [s]), t') \<and> shape h t' \<and> counted t' \<and> agrees h t t'"
proof (induction ss arbitrary: i t)
  case Nil
  from lock_one_ok [OF Nil.prems(1,2)] Nil.prems(3,5) obtain t1 where
    t1: "lock_one h hp i t = Inr t1" "shape h t1" "counted t1" "agrees h t t1" "locked t1 i" by auto
  have "bc_at (t_buckets t1) i = Inr (V i)" using locked_at [OF t1(2,5)] t1(4) Nil.prems(4) by (simp add: agrees_def)
  then show ?case using t1 Nil.prems(8) goodD(1) [OF g] s by simp
next
  case (Cons r ss)
  from lock_one_ok [OF Cons.prems(1,2)] Cons.prems(3,5) obtain t1 where
    t1: "lock_one h hp i t = Inr t1" "shape h t1" "counted t1" "agrees h t t1" "locked t1 i" by auto
  have at: "bc_at (t_buckets t1) i = Inr (V i)" "hashpower t1 = hp" "view h t1 = V"
    using locked_at [OF t1(2,5)] t1(4) Cons.prems(3,4) by (simp_all add: agrees_def)
  have r: "r < slot_per_bucket" using Cons.prems(6) by simp
  have "full V i" using Cons.prems(7) by force
  then have "V i ! r \<noteq> None" using r goodD(1) [OF g, of i] unfolding full_def by (metis nth_mem)
  then obtain p k v where e: "V i ! r = Some (p, k, v)" by (metis not_None_eq prod_cases3)
  note pk = goodD(3) [OF g r e]
  have af: "after hp V i r = alt_index hp (partial_key (h k)) i" using e pk by (simp add: after_def)
  have j: "\<forall>j < length ss. full V (walk hp V (after hp V i r) (take j ss))"
    using Cons.prems(7) by (metis Suc_less_eq length_Cons take_Suc_Cons walk.simps(2))
  have "after hp V i r < 2 ^ hp" using hp by (simp add: af)
  from Cons.IH [OF t1(2,3) at(2,3) this _ j] Cons.prems(6,8) obtain t2 where
    t2: "path_records h hp (after hp V i r) (ss @ [s]) t1 = Inr (recs h hp V (after hp V i r) (ss @ [s]), t2)"
      "shape h t2" "counted t2" "agrees h t1 t2" by auto
  have as: "i = index_hash hp (h k) \<or> i = alt_index hp (partial_key (h k)) (index_hash hp (h k))"
    using pk by (simp add: bucket1_def bucket2_def)
  have "path_records h hp i ((r # ss) @ [s]) t = Inr (recs h hp V i ((r # ss) @ [s]), t2)"
    using t1(1) at(1) r goodD(1) [OF g, of i] e t2(1) as unfolding af by (simp add: hashed_key_def Let_def af)
  then show ?case using t2 agrees_trans [OF t1(4) t2(4)] by blast
qed

text \<open>A shortest path visits no bucket twice.\<close>

lemma path_distinct:
  assumes f: "found hp V i1 i2 x st ss s" and b: "i = (if st = 0 then i1 else i2)" and jk: "j < k" "k \<le> length ss"
    and len: "length (V (walk hp V i ss)) = 4"
  shows "walk hp V i (take j ss) \<noteq> walk hp V i (take k ss)"
proof
  assume eq: "walk hp V i (take j ss) = walk hp V i (take k ss)"
  let ?rs = "take j ss @ drop k ss"
  have w: "walk hp V i ?rs = walk hp V i ss" unfolding walk_append eq by (simp flip: walk_append)
  have "set ?rs \<subseteq> {..<4}" "length ?rs < length ss" "st < 2"
    using f jk set_take_subset [of j ss] set_drop_subset [of k ss] by (auto simp: found_def)
  with f have "full V (node_bucket hp V i1 i2 (st, ?rs))" unfolding found_def by blast
  then have "full V (walk hp V i ss)" using w b by (simp add: node_bucket_def)
  moreover have "V (walk hp V i ss) ! s = None" "s < 4" using f b by (auto simp: found_def node_bucket_def)
  ultimately show False using len by (metis full_def nth_mem)
qed

section \<open>Moving along the path\<close>

definition same_contents :: "('k \<Rightarrow> u64) \<Rightarrow> ('k, 'v) table \<Rightarrow> ('k, 'v) table \<Rightarrow> bool" where
  "same_contents h t t' \<longleftrightarrow> hashpower t' = hashpower t \<and> holds (view h t') = holds (view h t) \<and>
     map elem_counter (get_current_locks t') = map elem_counter (get_current_locks t)"

lemma agrees_same: "agrees h t t' \<Longrightarrow> same_contents h t t'"
  by (simp add: agrees_def same_contents_def)

lemma same_refl [simp]: "same_contents h t t"
  by (simp add: same_contents_def)

lemma same_trans [trans]: "same_contents h t t' \<Longrightarrow> same_contents h t' t'' \<Longrightarrow> same_contents h t t''"
  by (simp add: same_contents_def)

definition table_ok :: "('k \<Rightarrow> u64) \<Rightarrow> ('k, 'v) table \<Rightarrow> bool" where
  "table_ok h t \<longleftrightarrow> shape h t \<and> counted t \<and> good h (hashpower t) (view h t)"

lemma table_ok_agrees: "table_ok h t \<Longrightarrow> shape h t' \<Longrightarrow> counted t' \<Longrightarrow> agrees h t t' \<Longrightarrow> table_ok h t'"
  by (simp add: table_ok_def agrees_def)

text \<open>One move, with both buckets locked.\<close>

lemma move_one:
  assumes ok: "table_ok h t" and l: "locked t i" "locked t j" and s: "s < 4" "view h t i ! s = Some (p, k, v)"
    and r: "r < 4" "view h t j ! r = None" and j: "j = alt_index (hashpower t) p i"
  shows "\<exists>bc bc'. setKV (t_buckets t) j r p k v = Inr bc \<and> eraseKV bc i s = Inr bc' \<and> table_ok h (t\<lparr>t_buckets := bc'\<rparr>) \<and>
    same_contents h t (t\<lparr>t_buckets := bc'\<rparr>) \<and> (\<forall>i'. locked (t\<lparr>t_buckets := bc'\<rparr>) i' = locked t i') \<and>
    view h (t\<lparr>t_buckets := bc'\<rparr>) = upd (upd (view h t) j r (Some (p, k, v))) i s None"
proof -
  let ?V = "view h t" and ?t1 = "t\<lparr>t_buckets := put_slot (t_buckets t) j r (Some (p, k, v))\<rparr>"
  let ?t2 = "?t1\<lparr>t_buckets := put_slot (t_buckets ?t1) i s None\<rparr>"
  have sh: "shape h t" and g: "good h (hashpower t) ?V" and c: "counted t" using ok by (simp_all add: table_ok_def)
  have hp: "hashpower t \<le> 64" using sh by (simp add: shape_def)
  note p1 = put_locked [OF sh l(2), of r "Some (p, k, v)"]
  have l1: "locked ?t1 i" using l by simp
  note p2 = put_locked [OF p1(1) l1, of s None]
  have "view h ?t1 i ! s \<noteq> None" using s r goodD(1) [OF g] by (simp add: p1(2) upd_nth)
  then have "setKV (t_buckets t) j r p k v = Inr (t_buckets ?t1)" "eraseKV (t_buckets ?t1) i s = Inr (t_buckets ?t2)"
    using setKV_locked [OF sh l(2) _ r(2)] eraseKV_locked [OF p1(1) l1] r(1) s(1) by simp_all
  moreover have "?t2 = t\<lparr>t_buckets := t_buckets ?t2\<rparr>" by simp
  moreover note m = good_move [OF hp g _ s(2) _ r(2) j]
  have "table_ok h ?t2" "same_contents h t ?t2"
    using p1(3) p2 m s(1) r(1) c by (simp_all add: table_ok_def p1(2) same_contents_def)
  ultimately show ?thesis
    using p2(2) p1(2) by - (rule exI [of _ "t_buckets ?t1"], rule exI [of _ "t_buckets ?t2"], simp add: locked_def hashpower_def put_slot_def)
qed

lemma move_loop_ok:
  assumes f: "found hp V i1 i2 x st ss s" and i: "i = (if st = 0 then i1 else i2)" and g: "good h hp V"
    and i12: "i1 < 2 ^ hp" "i2 < 2 ^ hp" and occ: "\<forall>j < length ss. full V (walk hp V i (take j ss))"
  shows "table_ok h t \<Longrightarrow> hashpower t = hp \<Longrightarrow> d \<le> length ss \<Longrightarrow> view h t (walk hp V i (take d ss)) ! ((ss @ [s]) ! d) = None \<Longrightarrow>
    \<forall>j < d. view h t (walk hp V i (take j ss)) = V (walk hp V i (take j ss)) \<Longrightarrow>
    \<exists>t'. cuckoopath_move_loop h hp (recs h hp V i (ss @ [s])) d i1 i2 t = Inr (True, t') \<and> table_ok h t' \<and> same_contents h t t' \<and>
      view h t' i ! ((ss @ [s]) ! 0) = None \<and> (0 < d \<longrightarrow> locked t' i1 \<and> locked t' i2)"
proof (induction d arbitrary: t)
  case 0
  then show ?case by auto
next
  case (Suc d)
  let ?path = "recs h hp V i (ss @ [s])" and ?b = "walk hp V i (take d ss)" and ?c = "walk hp V i (take (Suc d) ss)"
  let ?fs = "ss ! d" and ?ts = "(ss @ [s]) ! Suc d"
  have d: "d < length ss" and sl: "?fs < 4" "?ts < 4"
    using Suc.prems(3) f nth_mem [of d ss] nth_mem [of "Suc d" ss] by (auto simp: found_def nth_append subset_iff)
  have sh: "shape h t" "counted t" and hp64: "hp \<le> 64"
    using Suc.prems(1,2) by (auto simp: table_ok_def shape_def)
  have lt: "i < 2 ^ hp" "?b < 2 ^ hp" "?c < 2 ^ hp" using i i12 hp64 by (auto intro: walk_less)
  have "V ?b ! ?fs \<noteq> None" using occ d goodD(1) [OF g, of ?b] sl(1) unfolding full_def by (metis nth_mem slots4)
  then obtain p k v where e: "V ?b ! ?fs = Some (p, k, v)" by (metis not_None_eq prod_cases3)
  have c: "?c = alt_index hp p ?b" using d e by (simp add: take_Suc_conv_app_nth walk_append after_def)
  have tk: "take d (ss @ [s]) = take d ss" "take (Suc d) (ss @ [s]) = take (Suc d) ss" "(ss @ [s]) ! d = ?fs"
    using d by (simp_all add: nth_append)
  have rec: "cr_bucket (?path ! d) = ?b" "cr_slot (?path ! d) = ?fs" "cr_hv (?path ! d) = Some (hashed_key h k)"
    "cr_bucket (?path ! Suc d) = ?c" "cr_slot (?path ! Suc d) = ?ts"
    using d e unfolding nth_recs [where ss = "ss @ [s]" and j = d, simplified, OF less_SucI [OF d]]
      nth_recs [where ss = "ss @ [s]" and j = "Suc d", simplified, OF d] tk by simp_all
  obtain t1 where t1: "(if d = 0 then lock_three h hp i1 i2 ?c t else lock_two h hp ?b ?c t) = Inr t1"
    "shape h t1" "counted t1" "agrees h t t1" "locked t1 ?b" "locked t1 ?c" "d = 0 \<longrightarrow> locked t1 i1 \<and> locked t1 i2"
  proof (cases "d = 0")
    case True
    then have "?b = i1 \<or> ?b = i2" using i by auto
    with lock_three_ok [OF sh, of i1 i2 ?c] Suc.prems(2) i12 lt(3) True that show ?thesis by auto
  next
    case False
    with lock_two_ok [OF sh, of ?b ?c] Suc.prems(2) lt(2,3) that show ?thesis by auto
  qed
  have V1: "view h t1 = view h t" "hashpower t1 = hp" using t1(4) Suc.prems(2) by (simp_all add: agrees_def)
  have ok1: "table_ok h t1" using table_ok_agrees [OF Suc.prems(1) t1(2-4)] .
  have fe: "view h t1 ?b ! ?fs = Some (p, k, v)" using Suc.prems(5) e V1 by simp
  have te: "view h t1 ?c ! ?ts = None" using Suc.prems(4) V1 by simp
  from move_one [OF ok1 t1(5,6) sl(1) fe sl(2) te] c V1(2) obtain bc bc' where
    m: "setKV (t_buckets t1) ?c ?ts p k v = Inr bc" "eraseKV bc ?b ?fs = Inr bc'" and
    t2: "table_ok h (t1\<lparr>t_buckets := bc'\<rparr>)" "same_contents h t1 (t1\<lparr>t_buckets := bc'\<rparr>)"
      "\<forall>i'. locked (t1\<lparr>t_buckets := bc'\<rparr>) i' = locked t1 i'"
      "view h (t1\<lparr>t_buckets := bc'\<rparr>) = upd (upd (view h t1) ?c ?ts (Some (p, k, v))) ?b ?fs None" by auto
  let ?t2 = "t1\<lparr>t_buckets := bc'\<rparr>"
  have len: "length (view h t1 j) = 4" for j using length_view [OF t1(2)] by simp
  have free: "view h ?t2 ?b ! ((ss @ [s]) ! d) = None" using sl len unfolding t2(4) tk by (simp add: upd_def)
  have keep: "\<forall>j < d. view h ?t2 (walk hp V i (take j ss)) = V (walk hp V i (take j ss))"
  proof (intro allI impI)
    fix j assume j: "j < d"
    have "walk hp V i (take j ss) \<noteq> ?b" "walk hp V i (take j ss) \<noteq> ?c"
      using path_distinct [OF f i, of j d] path_distinct [OF f i, of j "Suc d"] j d goodD(1) [OF g] by auto
    then show "view h ?t2 (walk hp V i (take j ss)) = V (walk hp V i (take j ss))"
      using Suc.prems(5) j V1 unfolding t2(4) by (simp add: upd_def)
  qed
  have "hashpower ?t2 = hp" using t2(2) V1(2) by (simp add: same_contents_def)
  from Suc.IH [OF t2(1) this _ free keep] d obtain t' where
    t': "cuckoopath_move_loop h hp ?path d i1 i2 ?t2 = Inr (True, t')" "table_ok h t'" "same_contents h ?t2 t'"
      "view h t' i ! ((ss @ [s]) ! 0) = None" "0 < d \<longrightarrow> locked t' i1 \<and> locked t' i2" by auto
  have "cuckoopath_move_loop h hp ?path (Suc d) i1 i2 t = Inr (True, t')"
    unfolding cuckoopath_move_loop.simps Let_def rec t1(1) and_then.simps locked_at [OF t1(2,5)] locked_at [OF t1(2,6)]
    using len sl fe te m t'(1) by (simp add: hashed_key_def del: and_then_Inr_iff)
  moreover have "same_contents h t t'" using agrees_same [OF t1(4)] t2(2) t'(3) same_trans by blast
  moreover have "locked t' i1 \<and> locked t' i2"
    using t'(1,5) t1(7) t2(3) by (cases "d = 0") auto
  ultimately show ?case using t' by blast
qed

section \<open>Making room\<close>

text \<open>\<open>run_cuckoo\<close> ends after one search: it frees a slot of one of the two full buckets, or finds no path.\<close>

lemma run_cuckoo_ok:
  assumes ok: "table_ok h t" and i12: "i1 < 2 ^ hashpower t" "i2 < 2 ^ hashpower t"
    and full: "full (view h t) i1" "full (view h t) i2"
  shows "\<exists>r t'. run_cuckoo h (hashpower t) i1 i2 t = Some (Inr (r, t')) \<and> table_ok h t' \<and> same_contents h t t' \<and>
    (\<forall>i s. r = Some (i, s) \<longrightarrow> (i = i1 \<or> i = i2) \<and> s < 4 \<and> view h t' i ! s = None \<and> locked t' i1 \<and> locked t' i2)"
proof -
  let ?hp = "hashpower t" and ?V = "view h t"
  have sh: "shape h t" "counted t" and g: "good h ?hp ?V" and hp: "?hp \<le> 64"
    using ok by (auto simp: table_ok_def shape_def)
  from slot_search_ok [OF sh i12] obtain x t1 where
    x: "slot_search h ?hp i1 i2 t = Inr (x, t1)" "shape h t1" "counted t1" "agrees h t t1"
      "sl_depth x = - 1 \<or> (\<exists>st ss s. found ?hp ?V i1 i2 x st ss s)" by blast
  have ok1: "table_ok h t1" and V1: "hashpower t1 = ?hp" "view h t1 = ?V"
    using table_ok_agrees [OF ok x(2-4)] x(4) by (simp_all add: agrees_def)
  show ?thesis
  proof (cases "sl_depth x = - 1")
    case True
    then have "run_cuckoo h ?hp i1 i2 t = Some (Inr (None, t1))"
      using x(1) by (simp add: run_cuckoo.simps [of h ?hp] cuckoopath_search_def)
    then show ?thesis using ok1 agrees_same [OF x(4)] by auto
  next
    case False
    then obtain st ss s where f: "found ?hp ?V i1 i2 x st ss s" using x(5) by blast
    define i where "i = (if st = 0 then i1 else i2)"
    have st: "st = 0 \<or> st = 1" and s: "s < 4" "set ss \<subseteq> {..<4}" and free: "?V (walk ?hp ?V i ss) ! s = None"
      and d: "nat (sl_depth x) = length ss" "sl_pathcode x = code st (ss @ [s])"
      using f unfolding found_def node_bucket_def i_def by auto
    have i: "i < 2 ^ ?hp" "i = i1 \<or> i = i2" using i12 by (auto simp: i_def)
    have occ: "\<forall>j < length ss. full ?V (walk ?hp ?V i (take j ss))"
    proof (intro allI impI)
      fix j assume "j < length ss"
      then have "st < 2 \<and> set (take j ss) \<subseteq> {..<4} \<and> length (take j ss) < length ss"
        using st s(2) set_take_subset [of j ss] by auto
      with f have "full ?V (node_bucket ?hp ?V i1 i2 (st, take j ss))" unfolding found_def by blast
      then show "full ?V (walk ?hp ?V i (take j ss))" by (simp add: node_bucket_def i_def)
    qed
    have "ss \<noteq> []"
    proof
      assume "ss = []"
      then have "?V i ! s = None" using free by simp
      then show False using i(2) full s(1) goodD(1) [OF g, of i] unfolding full_def by (metis nth_mem slots4)
    qed
    from path_records_ok [OF hp g s(1) x(2,3) V1 i(1) s(2) occ free] obtain t2 where
      t2: "path_records h ?hp i (ss @ [s]) t1 = Inr (recs h ?hp ?V i (ss @ [s]), t2)" "shape h t2" "counted t2" "agrees h t1 t2"
      by blast
    let ?path = "recs h ?hp ?V i (ss @ [s])"
    have se: "cuckoopath_search h ?hp i1 i2 t = Inr (?path, t2)"
      using x(1) False st t2(1) unfolding cuckoopath_search_def
      by (auto simp: d path_slots_code [OF s(2,1)] i_def simp del: and_then_Inr_iff)
    have ok2: "table_ok h t2" and V2: "hashpower t2 = ?hp" "view h t2 = ?V"
      using table_ok_agrees [OF ok1 t2(2-4)] t2(4) V1 by (simp_all add: agrees_def)
    from move_loop_ok [OF f i_def g i12 occ ok2 V2(1), of "length ss"] free V2(2) obtain t3 where
      t3: "cuckoopath_move_loop h ?hp ?path (length ss) i1 i2 t2 = Inr (True, t3)" "table_ok h t3" "same_contents h t2 t3"
        "view h t3 i ! ((ss @ [s]) ! 0) = None" "locked t3 i1 \<and> locked t3 i2"
      using \<open>ss \<noteq> []\<close> by auto
    have s0: "(ss @ [s]) ! 0 < 4" using \<open>ss \<noteq> []\<close> s by (cases ss) auto
    have mv: "cuckoopath_move h ?hp ?path (length ss) i1 i2 t2 = Inr (True, t3)"
      using t3(1) \<open>ss \<noteq> []\<close> by (simp add: cuckoopath_move_def)
    have p0: "cr_bucket (?path ! 0) = i" "cr_slot (?path ! 0) = (ss @ [s]) ! 0" using nth_recs [of 0 "ss @ [s]" h ?hp ?V i] by simp_all
    have l: "locked t3 i" and sh3: "shape h t3" using i(2) t3(2,5) by (auto simp: table_ok_def)
    have "run_cuckoo h ?hp i1 i2 t = Some (Inr (Some (i, (ss @ [s]) ! 0), t3))"
    proof -
      have ne: "?path \<noteq> []" by (metis length_recs length_0_conv snoc_eq_iff_butlast)
      show ?thesis
        using i(2) locked_at [OF sh3 l] length_view [OF sh3, of i] s0 t3(4) ne
        by (subst run_cuckoo.simps) (simp add: se mv p0 Let_def del: recs.simps and_then_Inr_iff)
    qed
    moreover have "same_contents h t t3"
      using agrees_same [OF agrees_trans [OF x(4) t2(4)]] t3(3) by (rule same_trans)
    ultimately show ?thesis using t3 i(2) s0 by auto
  qed
qed

end
