(* ===== verification/Cuckoo_Map.thy ===== *)
theory Cuckoo_Map
  imports Cuckoo_Path
begin

text \<open>
  The hash map as a map from keys to values: its invariant, what the operations do to its contents, and that they end.
\<close>

section \<open>Contents\<close>

definition bucket_map :: "('k, 'v) bucket \<Rightarrow> 'k \<rightharpoonup> 'v" where
  "bucket_map b = map_of (List.map_filter (map_option snd) b)"

definition lookup :: "('k \<Rightarrow> u64) \<Rightarrow> nat \<Rightarrow> (nat \<Rightarrow> ('k, 'v) bucket) \<Rightarrow> 'k \<rightharpoonup> 'v" where
  "lookup h hp V k = (case bucket_map (V (bucket1 h hp k)) k of Some v \<Rightarrow> Some v | None \<Rightarrow> bucket_map (V (bucket2 h hp k)) k)"

definition contents :: "('k \<Rightarrow> u64) \<Rightarrow> ('k, 'v) table \<Rightarrow> 'k \<rightharpoonup> 'v" where
  "contents h t = lookup h (hashpower t) (view h t)"

lemma set_bucket_pairs: "(k, v) \<in> set (List.map_filter (map_option snd) b) \<longleftrightarrow> (\<exists>p. Some (p, k, v) \<in> set b)"
  by (induction b) (auto simp: List.map_filter_def split: option.splits)

lemma holds_set: "good h hp V \<Longrightarrow> holds V k v \<longleftrightarrow> (\<exists>i p. Some (p, k, v) \<in> set (V i))"
  unfolding holds_def using goodD(1) [of h hp V] by (metis in_set_conv_nth)

lemma holds_unique:
  assumes g: "good h hp V" and a: "holds V k v" and b: "holds V k w"
  shows "v = w"
proof -
  from a b obtain i s p j r q where x: "s < slot_per_bucket" "V i ! s = Some (p, k, v)" "r < slot_per_bucket" "V j ! r = Some (q, k, w)"
    by (auto simp: holds_def)
  from goodD(4) [OF g x(1,3,2,4)] x show ?thesis by simp
qed

lemma bucket_map_holds:
  assumes g: "good h hp V"
  shows "bucket_map (V i) k = Some v \<longleftrightarrow> (\<exists>p. Some (p, k, v) \<in> set (V i))"
proof
  assume "bucket_map (V i) k = Some v"
  then show "\<exists>p. Some (p, k, v) \<in> set (V i)" unfolding bucket_map_def by (auto dest: map_of_SomeD simp: set_bucket_pairs)
next
  assume a: "\<exists>p. Some (p, k, v) \<in> set (V i)"
  then have "k \<in> fst ` set (List.map_filter (map_option snd) (V i))" using set_bucket_pairs by force
  then obtain w where w: "bucket_map (V i) k = Some w"
    unfolding bucket_map_def by (metis domD dom_map_of_conv_image_fst)
  then have "\<exists>p. Some (p, k, w) \<in> set (V i)" unfolding bucket_map_def by (auto dest: map_of_SomeD simp: set_bucket_pairs)
  then have "w = v" using a holds_unique [OF g] holds_set [OF g] by metis
  with w show "bucket_map (V i) k = Some v" by simp
qed

lemma lookup_holds:
  assumes g: "good h hp V"
  shows "lookup h hp V k = Some v \<longleftrightarrow> holds V k v"
proof -
  have "holds V k v \<longleftrightarrow> (\<exists>p. Some (p, k, v) \<in> set (V (bucket1 h hp k))) \<or> (\<exists>p. Some (p, k, v) \<in> set (V (bucket2 h hp k)))" for v
    using goodD(2) [OF g] unfolding holds_set [OF g] placed_def by blast
  then show ?thesis
    using bucket_map_holds [OF g] holds_unique [OF g] unfolding lookup_def by (metis not_None_eq option.case_eq_if option.sel)
qed

lemma lookup_eqI: "good h hp V \<Longrightarrow> good h hp' V' \<Longrightarrow> (\<And>k v. holds V' k v \<longleftrightarrow> m k = Some v) \<Longrightarrow> lookup h hp' V' = m"
  by (rule ext) (metis lookup_holds not_None_eq)

lemma finite_contents:
  assumes g: "good h hp V" and hp: "hp \<le> 64"
  shows "finite (dom (lookup h hp V))"
proof -
  have "dom (lookup h hp V) \<subseteq> (\<lambda>(i, s). fst (snd (the (V i ! s)))) ` ({..<2 ^ hp} \<times> {..<slot_per_bucket})"
  proof
    fix k assume "k \<in> dom (lookup h hp V)"
    then obtain v where "holds V k v" using lookup_holds [OF g] by auto
    then obtain i s p where s: "s < slot_per_bucket" "V i ! s = Some (p, k, v)" by (auto simp: holds_def)
    then have "i < 2 ^ hp" using goodD(3) [OF g s] hp by auto
    then show "k \<in> (\<lambda>(i, s). fst (snd (the (V i ! s)))) ` ({..<2 ^ hp} \<times> {..<slot_per_bucket})"
      using s by (intro image_eqI [of _ _ "(i, s)"]) auto
  qed
  then show ?thesis by (rule finite_subset) simp
qed

section \<open>The invariant\<close>

definition total :: "('k, 'v) table \<Rightarrow> int" where
  "total t = sum_list (map elem_counter (get_current_locks t))"

definition cuckoo_inv :: "('k \<Rightarrow> u64) \<Rightarrow> ('k, 'v) table \<Rightarrow> bool" where
  "cuckoo_inv h t \<longleftrightarrow> table_ok h t \<and> total t = int (card (dom (contents h t)))"

lemma contents_holds: "table_ok h t \<Longrightarrow> contents h t k = Some v \<longleftrightarrow> holds (view h t) k v"
  by (simp add: contents_def lookup_holds table_ok_def)

lemma map_eqI: "(\<And>k v. m k = Some v \<longleftrightarrow> m' k = Some v) \<Longrightarrow> m = m'"
  by (rule ext) (metis not_None_eq)

lemma same_contents_eq:
  assumes "table_ok h t" and "table_ok h t'" and "same_contents h t t'"
  shows "contents h t' = contents h t" and "total t' = total t"
proof -
  have "lookup h (hashpower t) (view h t') = lookup h (hashpower t) (view h t)"
    using assms lookup_holds [of h "hashpower t" "view h t"]
    by (intro lookup_eqI [of h "hashpower t" "view h t"]) (simp_all add: same_contents_def table_ok_def)
  then show "contents h t' = contents h t" and "total t' = total t"
    using assms(3) by (simp_all add: contents_def same_contents_def total_def)
qed

lemma inv_same:
  assumes "cuckoo_inv h t" and "table_ok h t'" and "same_contents h t t'"
  shows "cuckoo_inv h t'" and "contents h t' = contents h t"
  using assms same_contents_eq [of h t t'] by (auto simp: cuckoo_inv_def)

lemma inv_agrees:
  assumes "cuckoo_inv h t" and "shape h t'" and "counted t'" and "agrees h t t'"
  shows "cuckoo_inv h t'" and "contents h t' = contents h t"
  using inv_same [OF assms(1) table_ok_agrees [OF _ assms(2-4)] agrees_same [OF assms(4)]] assms(1)
  by (auto simp: cuckoo_inv_def)

section \<open>Finding a key\<close>

definition read_result :: "('k, 'v) bucket \<Rightarrow> byte \<Rightarrow> 'k \<Rightarrow> nat \<Rightarrow> nat option \<Rightarrow> bool" where
  "read_result b p key n r \<longleftrightarrow> (case r of
     Some s \<Rightarrow> n \<le> s \<and> s - n < length b \<and> (\<exists>v. b ! (s - n) = Some (p, key, v))
   | None \<Rightarrow> \<forall>v. Some (p, key, v) \<notin> set b)"

lemma read_result_Cons:
  assumes "read_result b p key (Suc n) r" and "\<And>v. x \<noteq> Some (p, key, v)"
  shows "read_result (x # b) p key n r"
proof (cases r)
  case (Some s)
  then have "Suc n \<le> s" "s - n = Suc (s - Suc n)" using assms(1) by (auto simp: read_result_def)
  then show ?thesis using assms(1) Some by (simp add: read_result_def)
qed (use assms in \<open>auto simp: read_result_def\<close>)

lemma try_read_ok: "read_result b p key n (try_read_from_bucket b p key n)"
proof (induction b p key n rule: try_read_from_bucket.induct)
  case (1 p key n)
  then show ?case by (simp add: read_result_def)
next
  case (2 b p key n)
  then show ?case using read_result_Cons [of b p key n _ None] by simp
next
  case (3 p k v b partial key i)
  then show ?case using read_result_Cons [of b partial key i _ "Some (p, k, v)"] by (auto simp: read_result_def)
qed

definition key_at :: "('k \<Rightarrow> u64) \<Rightarrow> ('k, 'v) table \<Rightarrow> 'k \<Rightarrow> nat \<Rightarrow> nat \<Rightarrow> 'v \<Rightarrow> bool" where
  "key_at h t key i s v \<longleftrightarrow> locked t i \<and> s < 4 \<and> view h t i ! s = Some (partial_key (h key), key, v)"

lemma cuckoo_find_ok:
  assumes ok: "table_ok h t" and l: "locked t (bucket1 h (hashpower t) key)" "locked t (bucket2 h (hashpower t) key)"
  shows "\<exists>pos. cuckoo_find t key (partial_key (h key)) (bucket1 h (hashpower t) key) (bucket2 h (hashpower t) key) = Inr pos \<and>
    (case contents h t key of
       Some v \<Rightarrow> tp_status pos = St_ok \<and> key_at h t key (tp_index pos) (tp_slot pos) v
     | None \<Rightarrow> tp_status pos = St_key_not_found)"
proof -
  let ?b1 = "bucket1 h (hashpower t) key" and ?b2 = "bucket2 h (hashpower t) key" and ?p = "partial_key (h key)" and ?V = "view h t"
  have sh: "shape h t" and g: "good h (hashpower t) ?V" using ok by (simp_all add: table_ok_def)
  note at = locked_at [OF sh l(1)] locked_at [OF sh l(2)]
  have hit: "contents h t key = Some v" if "i < 4" "?V b ! i = Some (p, key, v)" for b i p v
    using that contents_holds [OF ok] by (auto simp: holds_def)
  have miss: "contents h t key = None" if "\<forall>v. Some (?p, key, v) \<notin> set (?V ?b1)" "\<forall>v. Some (?p, key, v) \<notin> set (?V ?b2)"
  proof (rule ccontr)
    assume "contents h t key \<noteq> None"
    then obtain v i p where "Some (p, key, v) \<in> set (?V i)" using contents_holds [OF ok] holds_set [OF g] by blast
    then have "p = ?p" "i = ?b1 \<or> i = ?b2" "Some (p, key, v) \<in> set (?V i)" using goodD(2) [OF g, of i] by (auto simp: placed_def)
    then show False using that by auto
  qed
  note r1 = try_read_ok [where b = "?V ?b1" and p = ?p and key = key and n = 0, unfolded read_result_def]
    and r2 = try_read_ok [where b = "?V ?b2" and p = ?p and key = key and n = 0, unfolded read_result_def]
  have len: "length (?V i) = 4" for i using goodD(1) [OF g] by simp
  show ?thesis
  proof (cases "try_read_from_bucket (?V ?b1) ?p key 0")
    case (Some s)
    then obtain v where "s < 4" "?V ?b1 ! s = Some (?p, key, v)" using r1 len by auto
    then show ?thesis using hit l(1) Some by (simp add: cuckoo_find_def at key_at_def)
  next
    case None
    show ?thesis
    proof (cases "try_read_from_bucket (?V ?b2) ?p key 0")
      case (Some s)
      then obtain v where "s < 4" "?V ?b2 ! s = Some (?p, key, v)" using r2 len by auto
      then show ?thesis using hit l(2) Some None by (simp add: cuckoo_find_def at key_at_def)
    next
      case none2: None
      then have "contents h t key = None" using miss r1 r2 None by simp
      then show ?thesis using None none2 by (simp add: cuckoo_find_def at)
    qed
  qed
qed

lemma snapshot_ok:
  assumes "table_ok h t"
  shows "\<exists>t'. snapshot_and_lock_two h (hashed_key h key) t = Inr (bucket1 h (hashpower t) key, bucket2 h (hashpower t) key, t') \<and>
    shape h t' \<and> counted t' \<and> agrees h t t' \<and> locked t' (bucket1 h (hashpower t) key) \<and> locked t' (bucket2 h (hashpower t) key)"
proof -
  have sh: "shape h t" "counted t" using assms by (simp_all add: table_ok_def)
  then have "hashpower t \<le> 64" by (simp add: shape_def)
  then show ?thesis using lock_two_ok [OF sh, of "bucket1 h (hashpower t) key" "bucket2 h (hashpower t) key"]
    by (auto simp: snapshot_and_lock_two_def hashed_key_def bucket1_def bucket2_def Let_def)
qed

lemma key_at_mapped: "table_ok h t \<Longrightarrow> key_at h t key i s v \<Longrightarrow> mapped t i s = Inr v"
  using locked_at [of h t i] length_view [of h t i] by (auto simp: mapped_def key_at_def table_ok_def)

lemma key_at_set_mapped:
  assumes inv: "cuckoo_inv h t" and k: "key_at h t key i s v"
  shows "\<exists>t'. set_mapped t i s w = Inr t' \<and> cuckoo_inv h t' \<and> contents h t' = (contents h t)(key \<mapsto> w) \<and> key_at h t' key i s w"
proof -
  let ?x = "Some (partial_key (h key), key, w)"
  let ?t = "t\<lparr>t_buckets := put_slot (t_buckets t) i s ?x\<rparr>"
  have ok: "table_ok h t" and tot: "total t = int (card (dom (contents h t)))" using inv by (simp_all add: cuckoo_inv_def)
  have sh: "shape h t" and g: "good h (hashpower t) (view h t)" and c: "counted t" using ok by (simp_all add: table_ok_def)
  have l: "locked t i" and s: "s < slot_per_bucket" "view h t i ! s = Some (partial_key (h key), key, v)"
    using k by (simp_all add: key_at_def)
  note p = put_locked [OF sh l, of s ?x] and r = good_replace [OF g s, of w]
  have ok': "table_ok h ?t" using p r(1) c by (simp add: table_ok_def)
  have "contents h t key = Some v" using contents_holds [OF ok] s by (auto simp: holds_def)
  moreover have con: "contents h ?t = (contents h t)(key \<mapsto> w)"
    by (rule map_eqI) (simp add: contents_holds [OF ok'] p(2) r(2) contents_holds [OF ok, symmetric] eq_commute [of w])
  ultimately have "dom (contents h ?t) = dom (contents h t)" by auto
  then have "cuckoo_inv h ?t" using ok' tot by (simp add: cuckoo_inv_def total_def)
  moreover have "set_mapped t i s w = Inr ?t"
    using locked_at [OF sh l] length_view [OF sh, of i] s by (simp add: set_mapped_def)
  moreover have "key_at h ?t key i s w" using p(2) l s length_view [OF sh, of i] by (simp add: key_at_def upd_nth)
  ultimately show ?thesis using con by blast
qed

section \<open>Adding and removing an element\<close>

lemma sum_list_int_update: "i < length xs \<Longrightarrow> sum_list (xs[i := x]) = sum_list xs + x - xs ! i" for x :: int
proof (induction xs arbitrary: i)
  case (Cons y xs)
  then show ?case by (cases i) auto
qed simp

lemma count_at_ok:
  assumes sh: "shape h t" and l: "locked t i"
  shows "shape h (count_at d i t)" and "counted (count_at d i t) = counted t" and "view h (count_at d i t) = view h t"
    and "hashpower (count_at d i t) = hashpower t" and "total (count_at d i t) = total t + d"
    and "locked (count_at d i t) j = locked t j" and "t_buckets (count_at d i t) = t_buckets t"
proof -
  let ?t = "count_at d i t" and ?ls = "get_current_locks t" and ?l = "lock_ind i"
  have lt: "?l < length ?ls" using lock_less [OF sh] l by (simp add: locked_def)
  let ?x = "(?ls ! ?l)\<lparr>elem_counter := elem_counter (?ls ! ?l) + d\<rparr>"
  have eq: "?t = set_current_locks t (?ls[?l := ?x])" by (simp add: count_at_def Let_def)
  have w: "waits ?t l' = waits t l'" for l' using lt by (cases "l' = ?l") (simp_all add: eq waits_def)
  show hp: "hashpower ?t = hashpower t" and b: "t_buckets ?t = t_buckets t" by (simp_all add: eq)
  have o: "t_old_buckets ?t = t_old_buckets t" by (simp add: eq)
  show "shape h ?t"
    using sh by (simp add: shape_def waiting_ok_def ready_def w hp b o) (simp add: eq)
  show "view h ?t = view h t" by (rule ext) (simp add: view_def w hp b o)
  show "locked ?t j = locked t j" by (simp add: locked_def w hp)
  have "map is_migrated (?ls[?l := ?x]) = map is_migrated ?ls" by (simp add: map_update list_update_same_conv lt)
  then have "length (filter (\<lambda>l. \<not> is_migrated l) (?ls[?l := ?x])) = length (filter (\<lambda>l. \<not> is_migrated l) ?ls)"
    by (metis (no_types, lifting) comp_apply filter_cong filter_map length_map)
  then show "counted ?t = counted t" by (simp add: counted_def eq)
  have "sum_list ((map elem_counter ?ls)[?l := elem_counter ?x]) = sum_list (map elem_counter ?ls) + elem_counter ?x - map elem_counter ?ls ! ?l"
    using lt by (intro sum_list_int_update) simp
  then show "total ?t = total t + d" using lt by (simp add: total_def eq map_update)
qed

lemma add_to_bucket_ok:
  assumes inv: "cuckoo_inv h t" and l: "locked t i" and s: "s < 4" "view h t i ! s = None" and new: "contents h t key = None"
    and i: "i = bucket1 h (hashpower t) key \<or> i = bucket2 h (hashpower t) key"
  shows "\<exists>t'. add_to_bucket i s (partial_key (h key)) key val t = Inr t' \<and> cuckoo_inv h t' \<and> contents h t' = (contents h t)(key \<mapsto> val)"
proof -
  let ?x = "Some (partial_key (h key), key, val)"
  let ?t = "t\<lparr>t_buckets := put_slot (t_buckets t) i s ?x\<rparr>"
  have ok: "table_ok h t" and tot: "total t = int (card (dom (contents h t)))" using inv by (simp_all add: cuckoo_inv_def)
  have sh: "shape h t" and g: "good h (hashpower t) (view h t)" and c: "counted t" using ok by (simp_all add: table_ok_def)
  have hp: "hashpower t \<le> 64" using sh by (simp add: shape_def)
  note p = put_locked [OF sh l, of s ?x]
  have no: "\<not> holds (view h t) key v" for v using new contents_holds [OF ok] by (metis option.distinct(1))
  note a = good_add [OF g _ s(2) no i, of val]
  have l': "locked ?t i" using l by simp
  note q = count_at_ok [OF p(1) l', of 1]
  have ok': "table_ok h (count_at 1 i ?t)" using p q a(1) s(1) c by (simp add: table_ok_def)
  have con: "contents h (count_at 1 i ?t) = (contents h t)(key \<mapsto> val)"
    using a(2) s(1) no by (intro map_eqI) (auto simp: contents_holds [OF ok'] q(3) p(2) contents_holds [OF ok])
  have "finite (dom (contents h t))" using finite_contents [OF g hp] by (simp add: contents_def)
  then have "card (dom (contents h (count_at 1 i ?t))) = Suc (card (dom (contents h t)))" using new by (simp add: con domIff)
  moreover have "total ?t = total t" by (simp add: total_def)
  ultimately have "cuckoo_inv h (count_at 1 i ?t)" using ok' tot q(5) by (simp add: cuckoo_inv_def)
  moreover have "add_to_bucket i s (partial_key (h key)) key val t = Inr (count_at 1 i ?t)"
    using setKV_locked [OF sh l _ s(2)] s(1) by (simp add: add_to_bucket_def)
  ultimately show ?thesis using con by blast
qed

lemma del_from_bucket_ok:
  assumes inv: "cuckoo_inv h t" and k: "key_at h t key i s v"
  shows "\<exists>t'. del_from_bucket i s t = Inr t' \<and> cuckoo_inv h t' \<and> contents h t' = (contents h t)(key := None)"
proof -
  let ?t = "t\<lparr>t_buckets := put_slot (t_buckets t) i s None\<rparr>"
  have ok: "table_ok h t" and tot: "total t = int (card (dom (contents h t)))" using inv by (simp_all add: cuckoo_inv_def)
  have sh: "shape h t" and g: "good h (hashpower t) (view h t)" and c: "counted t" using ok by (simp_all add: table_ok_def)
  have hp: "hashpower t \<le> 64" using sh by (simp add: shape_def)
  have l: "locked t i" and s: "s < slot_per_bucket" "view h t i ! s = Some (partial_key (h key), key, v)"
    using k by (simp_all add: key_at_def)
  note p = put_locked [OF sh l, of s None] and e = good_erase [OF g s]
  have l': "locked ?t i" using l by simp
  note q = count_at_ok [OF p(1) l', of "- 1"]
  let ?u = "count_at (- 1) i ?t"
  have ok': "table_ok h ?u" using p q e(1) c by (simp add: table_ok_def)
  have con: "contents h ?u = (contents h t)(key := None)"
    using e(2) by (intro map_eqI) (auto simp: contents_holds [OF ok'] q(3) p(2) contents_holds [OF ok])
  have f: "finite (dom (contents h t))" using finite_contents [OF g hp] by (simp add: contents_def)
  have "contents h t key = Some v" using contents_holds [OF ok] s by (auto simp: holds_def)
  then have "card (dom (contents h t)) = Suc (card (dom (contents h ?u)))"
    using card.remove [OF f, of key] by (auto simp: con domIff)
  moreover have "total ?t = total t" by (simp add: total_def)
  ultimately have "cuckoo_inv h ?u" using ok' tot q(5) by (simp add: cuckoo_inv_def)
  moreover have "del_from_bucket i s t = Inr ?u"
    using eraseKV_locked [OF sh l s(1)] s(2) by (simp add: del_from_bucket_def)
  ultimately show ?thesis using con by blast
qed

end
