(* ===== verification/Cuckoo_Grow.thy ===== *)
theory Cuckoo_Grow
  imports Cuckoo_Map
begin

text \<open>
  Doubling the table: after \<open>cuckoo_fast_double\<close> the view is the old one with every bucket split, whether the buckets
  were moved at once or wait for their locks to be taken. The contents do not change.
\<close>

section \<open>Splitting every bucket\<close>

definition grown :: "('k \<Rightarrow> u64) \<Rightarrow> nat \<Rightarrow> (nat \<Rightarrow> ('k, 'v) bucket) \<Rightarrow> nat \<Rightarrow> ('k, 'v) bucket" where
  "grown h hp V i =
     (if i < 2 ^ hp then low_half h hp i (V i)
      else if i < 2 * 2 ^ hp then high_half h hp (i - 2 ^ hp) (V (i - 2 ^ hp)) else empty_bucket)"

text \<open>An element of the grown table: the old bucket it comes from.\<close>

lemma grown_source:
  assumes "Some e \<in> set (grown h hp V i)"
  shows "\<exists>j < 2 ^ hp. Some e \<in> set (V j) \<and> i = (if moving_up h hp j (Some e) then j + 2 ^ hp else j)"
proof -
  have ne: "i < 2 * 2 ^ hp" using assms by (auto simp: grown_def empty_bucket_def split: if_splits)
  show ?thesis
  proof (cases "i < 2 ^ hp")
    case True
    then show ?thesis using assms by (auto simp: grown_def set_low_half)
  next
    case False
    then have "Some e \<in> set (V (i - 2 ^ hp))" "moving_up h hp (i - 2 ^ hp) (Some e)"
      using assms ne by (auto simp: grown_def set_high_half)
    then show ?thesis using ne False by (intro exI [of _ "i - 2 ^ hp"]) auto
  qed
qed

lemma grown_target:
  assumes "j < 2 ^ hp" and "Some e \<in> set (V j)"
  shows "Some e \<in> set (grown h hp V (if moving_up h hp j (Some e) then j + 2 ^ hp else j))"
  using assms by (auto simp: grown_def set_low_half set_high_half)

lemma unique_filter:
  assumes "\<And>s r. s < length b \<Longrightarrow> r < length b \<Longrightarrow> Q (b ! s) \<Longrightarrow> Q (b ! r) \<Longrightarrow> s = r"
    and "s < length (filter P b)" "r < length (filter P b)" "Q (filter P b ! s)" "Q (filter P b ! r)"
  shows "s = r"
proof -
  let ?S = "\<lambda>xs. {i. i < length xs \<and> Q (xs ! i)}"
  have "card (?S b) \<le> Suc 0" using assms(1) by (subst card_le_Suc0_iff_eq) auto
  then have "length (filter Q b) \<le> Suc 0" by (simp add: length_filter_conv_card)
  moreover have "filter Q (filter P b) = filter P (filter Q b)" by (simp add: conj_commute)
  ultimately have "length (filter Q (filter P b)) \<le> Suc 0" by (metis le_trans length_filter_le)
  then have "card (?S (filter P b)) \<le> Suc 0" unfolding length_filter_conv_card [of Q] .
  then show ?thesis using assms(2-5) by (subst (asm) card_le_Suc0_iff_eq) auto
qed

lemma length_grown: "(\<And>i. length (V i) = slot_per_bucket) \<Longrightarrow> length (grown h hp V i) = slot_per_bucket"
  by (simp add: grown_def empty_bucket_def)

lemma placed_grown:
  assumes "hp < 64" and "good h hp V"
  shows "placed h (Suc hp) i (grown h hp V i)"
proof -
  consider "i < 2 ^ hp" | "2 ^ hp \<le> i" "i < 2 * 2 ^ hp" | "2 * 2 ^ hp \<le> i" by linarith
  then show ?thesis
  proof cases
    case 1
    then show ?thesis using placed_halves(1) [OF assms(1) goodD(2) [OF assms(2)]] by (simp add: grown_def)
  next
    case 2
    then show ?thesis using placed_halves(2) [OF assms(1) goodD(2) [OF assms(2)], of "i - 2 ^ hp"] by (simp add: grown_def)
  next
    case 3
    then show ?thesis by (simp add: grown_def empty_bucket_def placed_def)
  qed
qed

lemma grown_slot_unique:
  assumes g: "good h hp V" and r: "r < slot_per_bucket" "s < slot_per_bucket"
    and e: "grown h hp V i ! s = Some (p, k, v)" "grown h hp V i ! r = Some (p', k, v')"
  shows "s = r"
proof -
  let ?Q = "\<lambda>x. \<exists>p v. x = Some (p, k, v)"
  have old: "s = r" if "s < length (V j)" "r < length (V j)" "?Q (V j ! s)" "?Q (V j ! r)" for s r j
    using that goodD(1) [OF g] goodD(4) [OF g, of s r j _ k _ j] by auto
  show ?thesis
  proof (cases "i < 2 ^ hp")
    case True
    then have "?Q (V i ! s)" "?Q (V i ! r)" using e r goodD(1) [OF g, of i] by (auto simp: grown_def low_half_def split: if_splits)
    then show ?thesis using old [of s i r] r goodD(1) [OF g, of i] by simp
  next
    case False
    let ?u = "ups h hp (i - 2 ^ hp) (V (i - 2 ^ hp))"
    have ne: "i < 2 * 2 ^ hp" using e(1) r by (auto simp: grown_def empty_bucket_def split: if_splits)
    have u: "x < length ?u \<and> high_half h hp (i - 2 ^ hp) (V (i - 2 ^ hp)) ! x = ?u ! x"
      if "high_half h hp (i - 2 ^ hp) (V (i - 2 ^ hp)) ! x = Some y" "x < slot_per_bucket" for x y
      using that goodD(1) [OF g, of "i - 2 ^ hp"] by (auto simp: high_half_def nth_append split: if_splits)
    from e False ne have "high_half h hp (i - 2 ^ hp) (V (i - 2 ^ hp)) ! s = Some (p, k, v)"
      "high_half h hp (i - 2 ^ hp) (V (i - 2 ^ hp)) ! r = Some (p', k, v')" by (simp_all add: grown_def)
    with u r have "s < length ?u" "r < length ?u" "?Q (?u ! s)" "?Q (?u ! r)" by auto
    then show ?thesis using unique_filter [of "V (i - 2 ^ hp)" ?Q s "moving_up h hp (i - 2 ^ hp)" r] old unfolding ups_def by blast
  qed
qed

lemma good_grown:
  assumes hp: "hp < 64" and g: "good h hp V"
  shows "good h (Suc hp) (grown h hp V)" and "holds (grown h hp V) = holds V"
proof -
  have hp': "hp \<le> 64" using hp by simp
  have len: "length (grown h hp V i) = slot_per_bucket" for i using goodD(1) [OF g] by (rule length_grown)
  show good: "good h (Suc hp) (grown h hp V)"
  proof (rule goodI)
    fix i s p k v
    assume "s < slot_per_bucket" "grown h hp V i ! s = Some (p, k, v)"
    then show "p = partial_key (h k) \<and> (i = bucket1 h (Suc hp) k \<or> i = bucket2 h (Suc hp) k)"
      using placed_grown [OF hp g, of i] len [of i] unfolding placed_def by (metis nth_mem)
  next
    fix i j s r p k v p' v'
    assume s: "s < slot_per_bucket" "r < slot_per_bucket" "grown h hp V i ! s = Some (p, k, v)" "grown h hp V j ! r = Some (p', k, v')"
    then have "Some (p, k, v) \<in> set (grown h hp V i)" "Some (p', k, v') \<in> set (grown h hp V j)" using len by (metis nth_mem)+
    from this [THEN grown_source] obtain a b where
      a: "Some (p, k, v) \<in> set (V a)" "i = (if goes_up h hp a k then a + 2 ^ hp else a)" and
      b: "Some (p', k, v') \<in> set (V b)" "j = (if goes_up h hp b k then b + 2 ^ hp else b)" by auto
    have "a = b" using goodD(4) [OF g] a(1) b(1) goodD(1) [OF g] by (metis in_set_conv_nth)
    then have "i = j" using a(2) b(2) by simp
    then show "i = j \<and> s = r" using grown_slot_unique [OF g s(2,1)] s(3,4) by auto
  qed (rule len)
  have "holds (grown h hp V) k v \<longleftrightarrow> holds V k v" for k v
  proof
    assume "holds (grown h hp V) k v"
    then show "holds V k v" unfolding holds_set [OF good] holds_set [OF g] using grown_source by blast
  next
    assume "holds V k v"
    then obtain i p where i: "Some (p, k, v) \<in> set (V i)" unfolding holds_set [OF g] by blast
    then have "i = bucket1 h hp k \<or> i = bucket2 h hp k" using goodD(2) [OF g, of i] by (auto simp: placed_def)
    then have "i < 2 ^ hp" using hp' by auto
    from grown_target [OF this, where V = V, OF i] show "holds (grown h hp V) k v" unfolding holds_set [OF good] by blast
  qed
  then show "holds (grown h hp V) = holds V" by blast
qed

section \<open>Doubling\<close>

lemma rehash_all_ok:
  "shape h t \<Longrightarrow> \<forall>l \<in> set ls. l < length (get_current_locks t) \<Longrightarrow>
   \<exists>t'. each (rehash_lock False h) ls t = Inr t' \<and> shape h t' \<and> agrees h t t' \<and> (\<forall>l \<in> set ls. \<not> waits t' l)"
proof (induction ls arbitrary: t)
  case Nil
  then show ?case by auto
next
  case (Cons l ls)
  then have l: "l < length (get_current_locks t)" by simp
  obtain t1 where t1: "rehash_lock False h l t = Inr t1" "shape h t1" "agrees h t t1" "\<not> waits t1 l"
  proof (cases "waits t l")
    case True
    from rehash_waiting [OF Cons.prems(1) l True, of False] settle_ok [OF Cons.prems(1) l True] that show ?thesis by simp
  next
    case False
    then have "rehash_lock False h l t = Inr t" using l by (simp add: rehash_lock_def waits_def)
    then show ?thesis using that Cons.prems(1) False by simp
  qed
  from Cons.IH [OF t1(2)] Cons.prems(2) agrees_locks [OF t1(3)] obtain t2 where
    t2: "each (rehash_lock False h) ls t1 = Inr t2" "shape h t2" "agrees h t1 t2" "\<forall>l \<in> set ls. \<not> waits t2 l" by auto
  show ?case using t1 t2 agrees_trans [OF t1(3) t2(3)] by (auto simp: agrees_def)
qed

lemma total_migrated:
  "map elem_counter ls = map elem_counter (get_current_locks t) \<Longrightarrow> total (set_current_locks t ls) = total t"
  by (simp add: total_def)

text \<open>The locks of the doubled table.\<close>

lemma maybe_resize_ok:
  assumes sh: "shape h t" and m: "\<forall>l < length (get_current_locks t). \<not> waits t l" and t': "t' = maybe_resize_locks (2 ^ Suc (hashpower t)) t"
  shows "t_buckets t' = t_buckets t" "t_all_locks t' \<noteq> []" "t_maximum_hashpower t' = t_maximum_hashpower t"
    "length (get_current_locks t') = min (2 ^ Suc (hashpower t)) kMaxNumLocks"
    "\<forall>l < length (get_current_locks t'). \<not> waits t' l" "total t' = total t"
proof -
  let ?ls = "get_current_locks t" and ?n = "2 ^ Suc (hashpower t) :: nat"
  have len: "length ?ls = min (2 ^ hashpower t) kMaxNumLocks" and ne: "t_all_locks t \<noteq> []" using sh by (simp_all add: shape_def)
  have pos: "(0::nat) < 2 ^ hashpower t" by simp
  show "t_buckets t' = t_buckets t" "t_all_locks t' \<noteq> []" "t_maximum_hashpower t' = t_maximum_hashpower t"
    using ne by (simp_all add: t' maybe_resize_locks_def Let_def)
  have ls: "get_current_locks t' = ?ls @ replicate (min kMaxNumLocks ?n - length ?ls) spinlock_make"
  proof (cases "length ?ls < kMaxNumLocks \<and> length ?ls < ?n")
    case False
    then have "min kMaxNumLocks ?n - length ?ls = 0" by auto
    moreover have "t' = t" using False by (simp add: t' maybe_resize_locks_def)
    ultimately show ?thesis by simp
  qed (simp add: t' maybe_resize_locks_def get_current_locks_def Let_def)
  show "length (get_current_locks t') = min ?n kMaxNumLocks" unfolding ls length_append length_replicate len using pos by auto
  have "is_migrated (get_current_locks t' ! l)" if "l < length (get_current_locks t')" for l
    using that m unfolding ls by (auto simp: nth_append waits_def spinlock_make_def)
  then show "\<forall>l < length (get_current_locks t'). \<not> waits t' l" by (simp add: waits_def)
  show "total t' = total t" by (simp add: total_def ls spinlock_make_def sum_list_replicate)
qed

text \<open>The table whose buckets have become the old ones, before any of them is moved.\<close>

definition swapped :: "('k \<Rightarrow> u64) \<Rightarrow> nat \<Rightarrow> (nat \<Rightarrow> ('k, 'v) bucket) \<Rightarrow> ('k, 'v) table \<Rightarrow> bool" where
  "swapped h hp V t \<longleftrightarrow> container_ok (t_old_buckets t) \<and> old_hashpower t = hp \<and> t_buckets t = bucket_container_make (Suc hp) \<and>
     (\<forall>i < 2 ^ hp. old_buckets_of t ! i = V i) \<and> t_all_locks t \<noteq> [] \<and> t_maximum_hashpower t = NO_MAXIMUM_HASHPOWER \<and>
     length (get_current_locks t) = min (2 ^ Suc hp) kMaxNumLocks"

lemma container_ok_make: "container_ok (bucket_container_make hp)"
  by (simp add: container_ok_def bucket_container_make_def empty_bucket_def)

lemma swapped_facts:
  assumes sw: "swapped h hp V t" and g: "good h hp V"
  shows "hashpower t = Suc hp" "container_ok (t_buckets t)" "i < 2 ^ hp \<Longrightarrow> ready h t i"
    "i < 2 * 2 ^ hp \<Longrightarrow> grown_bucket h hp (old_buckets_of t) i = grown h hp V i"
proof -
  have b: "t_buckets t = bucket_container_make (Suc hp)" and o: "old_hashpower t = hp" "\<forall>i < 2 ^ hp. old_buckets_of t ! i = V i"
    using sw by (simp_all add: swapped_def)
  show "hashpower t = Suc hp" unfolding hashpower_def b by (simp add: bucket_container_make_def)
  show "container_ok (t_buckets t)" unfolding b by (rule container_ok_make)
  show "ready h t i" if "i < 2 ^ hp"
    using that o goodD(2) [OF g, of i] by (simp add: ready_def b bucket_container_make_def)
  show "grown_bucket h hp (old_buckets_of t) i = grown h hp V i" if "i < 2 * 2 ^ hp"
    using that o(2) by (simp add: grown_bucket_def grown_def)
qed

lemma grown_at_once:
  assumes sw: "swapped h hp V t" and g: "good h hp V" and hp: "Suc hp < 64"
    and m: "\<forall>l < length (get_current_locks t). \<not> waits t l"
  shows "\<exists>t'. each (move_bucket h) [0..<2 ^ hp] t = Inr t' \<and> table_ok h (set_num_remaining 0 t') \<and>
    hashpower (set_num_remaining 0 t') = Suc hp \<and> view h (set_num_remaining 0 t') = grown h hp V \<and> total (set_num_remaining 0 t') = total t"
proof -
  note f = swapped_facts [OF sw g]
  have o: "container_ok (t_old_buckets t)" "old_hashpower t = hp" using sw by (simp_all add: swapped_def)
  let ?t = "migrate h t (set [0..<2 ^ hp])"
  have mv: "each (move_bucket h) [0..<2 ^ hp] t = Inr ?t"
    using f o hp by (intro each_move_ok) auto
  have len: "length (buckets_of t) = 2 * 2 ^ hp" using container_okD(2) [OF f(2)] f(1) by (simp add: hashpower_def)
  have m': "\<forall>l < length (get_current_locks ?t). \<not> waits ?t l" using m by simp
  have sh: "shape h ?t"
    using sw m f(1) hp container_ok_migrate [OF f(2) o(1), of h "set [0..<2 ^ hp]"] o(2) by (auto simp: shape_def swapped_def)
  have lk: "lock_ind i < length (get_current_locks t)" if "i < 2 ^ Suc hp" for i
    using lock_less [OF sh, of i] that f(1) by simp
  have "view h ?t i = grown h hp V i" for i
  proof (cases "i < 2 * 2 ^ hp")
    case True
    then have "base t i < 2 ^ hp" by (simp add: base_def o(2)) linarith
    then show ?thesis using True m lk [of i] f(1,4) len o(2) by (simp add: view_def hashsize_def migrate_nth)
  qed (simp add: view_def f(1) hashsize_def grown_def)
  then have v: "view h ?t = grown h hp V" by blast
  have z: "0 = length (filter (\<lambda>l. \<not> is_migrated l) (get_current_locks ?t))"
    using m' by (auto simp: waits_def filter_empty_conv in_set_conv_nth)
  note s = set_num_remaining_ok [OF sh z]
  have "hashpower (set_num_remaining 0 ?t) = Suc hp" "view h (set_num_remaining 0 ?t) = grown h hp V"
    "total (set_num_remaining 0 ?t) = total t"
    using s(2) v f(1) by (simp_all add: agrees_def total_def)
  then show ?thesis using mv s(1,3) good_grown(1) [OF _ g] hp by (auto simp: table_ok_def)
qed

lemma grown_lazily:
  assumes sw: "swapped h hp V t" and g: "good h hp V" and hp: "Suc hp < 64" and k: "kMaxNumLocks \<le> 2 ^ hp"
    and t': "t' = set_num_remaining (length (get_current_locks t))
      (set_current_locks t (map (\<lambda>l. l\<lparr>is_migrated := False\<rparr>) (get_current_locks t)))"
  shows "table_ok h t'" "hashpower t' = Suc hp" "view h t' = grown h hp V" "total t' = total t"
proof -
  note f = swapped_facts [OF sw g]
  have o: "container_ok (t_old_buckets t)" "old_hashpower t = hp" using sw by (simp_all add: swapped_def)
  have len: "length (get_current_locks t) = kMaxNumLocks" using sw k by (simp add: swapped_def)
  have k0: "0 < kMaxNumLocks" by (simp add: kMaxNumLocks_def)
  have eq: "t' = (set_current_locks t (map (\<lambda>l. l\<lparr>is_migrated := False\<rparr>) (get_current_locks t)))\<lparr>t_num_remaining := kMaxNumLocks\<rparr>"
    using len k0 by (simp add: t' set_num_remaining_def Let_def)
  have w: "l < kMaxNumLocks \<Longrightarrow> waits t' l" for l by (simp add: eq waits_def len)
  have sel: "t_buckets t' = t_buckets t" "t_old_buckets t' = t_old_buckets t" by (simp_all add: eq)
  show hp': "hashpower t' = Suc hp" using f(1) by (simp add: eq)
  have r: "ready h t' i = ready h t i" for i unfolding ready_def sel ..
  have "waiting_ok h t'" using o k f(3) hp' by (simp add: waiting_ok_def sel r)
  then have sh: "shape h t'" using sw f(2) hp hp' by (simp add: shape_def sel swapped_def eq)
  have c: "counted t'" by (simp add: counted_def eq len filter_True)
  show v: "view h t' = grown h hp V"
  proof
    fix i
    have "lock_ind i < kMaxNumLocks" using k0 by (simp add: lock_ind_mod)
    then show "view h t' i = grown h hp V i"
      using w f(4) [of i] by (simp add: view_def hashsize_def hp' sel o(2)) (simp add: grown_def)
  qed
  then show "table_ok h t'" using sh c good_grown(1) [OF _ g] hp hp' by (simp add: table_ok_def)
  show "total t' = total t" by (simp add: total_def eq comp_def)
qed

lemma load_bounds_hashpower:
  fixes n :: nat
  assumes "n < 2 ^ 53" and "\<not> n * 2 ^ 57 < 7205759403792794 * (2 ^ hp * 4)"
  shows "Suc hp < 64"
proof (rule ccontr)
  assume "\<not> Suc hp < 64"
  then have "(2::nat) ^ 58 \<le> 2 ^ hp" by (intro power_increasing) auto
  then have "7205759403792794 * (2 ^ 58 * 4) \<le> 7205759403792794 * ((2::nat) ^ hp * 4)" by simp
  moreover have "n * 2 ^ 57 < 2 ^ 53 * 2 ^ 57" using assms(1) by simp
  ultimately show False using assms(2) by simp
qed

lemma fast_double_ok:
  assumes ok: "table_ok h t" and n: "total t = int n" and n53: "n < 2 ^ 53"
  shows "if n * 2 ^ 57 < 7205759403792794 * (2 ^ hashpower t * 4)
    then cuckoo_fast_double h (hashpower t) t = Inl Load_factor_too_low
    else \<exists>t'. cuckoo_fast_double h (hashpower t) t = Inr (St_ok, t') \<and> table_ok h t' \<and> hashpower t' = Suc (hashpower t) \<and>
      holds (view h t') = holds (view h t) \<and> total t' = total t"
proof -
  let ?hp = "hashpower t" and ?V = "view h t"
  have sh: "shape h t" and g: "good h ?hp ?V" using ok by (simp_all add: table_ok_def)
  have size: "load_below_minimum t = Inr (n * 2 ^ 57 < 7205759403792794 * (2 ^ ?hp * 4))"
    using sh n by (simp add: load_below_minimum_def table_size_def capacity_def bc_size_def total_def shape_def hashpower_def)
  have max: "t_maximum_hashpower t = NO_MAXIMUM_HASHPOWER" using sh by (simp add: shape_def)
  show ?thesis
  proof (cases "n * 2 ^ 57 < 7205759403792794 * (2 ^ ?hp * 4)")
    case True
    then show ?thesis unfolding cuckoo_fast_double_def check_resize_validity_def size by (simp add: max)
  next
    case False
    have hp: "Suc ?hp < 64" using load_bounds_hashpower [OF n53 False] .
    have valid: "check_resize_validity ?hp (?hp + 1) t = Inr St_ok"
      unfolding check_resize_validity_def size using False max by simp
    from rehash_all_ok [OF sh, of "[0..<length (get_current_locks t)]"] obtain t1 where
      t1: "each (rehash_lock False h) [0..<length (get_current_locks t)] t = Inr t1" "shape h t1" "agrees h t t1"
        "\<forall>l < length (get_current_locks t). \<not> waits t1 l" by auto
    have m1: "\<forall>l < length (get_current_locks t1). \<not> waits t1 l" using t1(4) agrees_locks [OF t1(3)] by simp
    then have z: "0 = length (filter (\<lambda>l. \<not> is_migrated l) (get_current_locks t1))"
      by (auto simp: waits_def filter_empty_conv in_set_conv_nth)
    define t2 where "t2 = set_num_remaining 0 t1"
    have t2: "shape h t2" "agrees h t t2"
      using set_num_remaining_ok [OF t1(2) z] agrees_trans [OF t1(3)] by (simp_all add: t2_def)
    have m2: "\<forall>l < length (get_current_locks t2). \<not> waits t2 l"
      using m1 by (simp add: t2_def set_num_remaining_def Let_def)
    have V2: "hashpower t2 = ?hp" "view h t2 = ?V" "total t2 = total t" using t2(2) by (simp_all add: agrees_def total_def)
    define t3 where "t3 = maybe_resize_locks (2 ^ Suc (hashpower t2)) t2"
    note t3 = maybe_resize_ok [OF t2(1) m2 t3_def]
    define t4 where "t4 = t3\<lparr>t_old_buckets := t_buckets t3, t_buckets := bucket_container_make (Suc ?hp)\<rparr>"
    have "buckets_of t2 ! i = ?V i" if "i < 2 ^ ?hp" for i
      using that m2 lock_less [OF t2(1), of i] V2 locked_view [of t2 i h] by (simp add: locked_def)
    then have sw: "swapped h ?hp ?V t4"
      using t2(1) t3 V2(1) by (simp add: swapped_def t4_def shape_def get_current_locks_def hashpower_def)
    have m4: "\<forall>l < length (get_current_locks t4). \<not> waits t4 l" and tot: "total t4 = total t"
      using t3(5,6) V2(3) by (simp_all add: t4_def total_def)
    have step: "cuckoo_fast_double h ?hp t =
      (if bc_size (t_old_buckets t4) < kMaxNumLocks then
          and_then (each (move_bucket h) [0..<bc_size (t_old_buckets t4)] t4) (\<lambda>t. Inr (St_ok, set_num_remaining 0 t))
        else Inr (St_ok, set_num_remaining (length (get_current_locks t4))
          (set_current_locks t4 (map (\<lambda>l. l\<lparr>is_migrated := False\<rparr>) (get_current_locks t4)))))"
    proof -
      have t3': "maybe_resize_locks (2 ^ (?hp + 1)) (set_num_remaining 0 t1) = t3" using V2(1) by (simp add: t3_def t2_def)
      have t4': "t3\<lparr>t_old_buckets := t_buckets t3, t_buckets := bucket_container_make (?hp + 1)\<rparr> = t4" by (simp add: t4_def)
      show ?thesis unfolding cuckoo_fast_double_def Let_def valid and_then.simps t1(1) t3' t4' by simp
    qed
    have old: "bc_size (t_old_buckets t4) = 2 ^ ?hp" using sw by (simp add: swapped_def bc_size_def)
    note gr = good_grown [OF Suc_lessD [OF hp] g]
    show ?thesis
    proof (cases "(2::nat) ^ ?hp < kMaxNumLocks")
      case True
      then show ?thesis using False step grown_at_once [OF sw g hp m4] gr(2) tot unfolding old by auto
    next
      case big: False
      then show ?thesis using False step grown_lazily [OF sw g hp _ refl] gr(2) tot unfolding old by auto
    qed
  qed
qed

end
