(* ===== verification/Cuckoo_Ops.thy ===== *)
theory Cuckoo_Ops
  imports Cuckoo_Grow KV_Store
begin

text \<open>
  The operations of the hash map, proved to be the changes of a map that \<open>KV_Store\<close> takes them for: insertion ends in
  every case, and the only exception is the one for a load factor below the minimum.
\<close>

section \<open>Insertion\<close>

definition insert_result :: "('k, 'v) bucket \<Rightarrow> byte \<Rightarrow> 'k \<Rightarrow> nat \<Rightarrow> nat option \<Rightarrow> bool \<times> nat option \<Rightarrow> bool" where
  "insert_result b p key n slot r \<longleftrightarrow>
     (if fst r then (\<forall>v. Some (p, key, v) \<notin> set b) \<and>
        ((\<exists>s. snd r = Some s \<and> n \<le> s \<and> s - n < length b \<and> b ! (s - n) = None) \<or> snd r = slot \<and> None \<notin> set b)
      else \<exists>s v. snd r = Some s \<and> n \<le> s \<and> s - n < length b \<and> b ! (s - n) = Some (p, key, v))"

lemma insert_result_Cons:
  assumes "insert_result b p key (Suc n) slot r" and "\<And>v. x \<noteq> Some (p, key, v)"
    and "x = None \<longrightarrow> slot = Some n" and "x \<noteq> None \<longrightarrow> slot' = slot"
  shows "insert_result (x # b) p key n slot' r"
proof -
  have sh: "Suc n \<le> s \<and> s - Suc n < length b \<and> b ! (s - Suc n) = y \<Longrightarrow>
      n \<le> s \<and> s - n < length (x # b) \<and> (x # b) ! (s - n) = y" for s y
  proof -
    assume a: "Suc n \<le> s \<and> s - Suc n < length b \<and> b ! (s - Suc n) = y"
    then have "s - n = Suc (s - Suc n)" by linarith
    with a show ?thesis by simp
  qed
  have none: "n \<le> n \<and> n - n < length (x # b) \<and> (x # b) ! (n - n) = x" by simp
  show ?thesis
  proof (cases "fst r")
    case True
    then have "\<forall>v. Some (p, key, v) \<notin> set (x # b)" using assms(1,2) by (auto simp: insert_result_def)
    moreover have "(\<exists>s. snd r = Some s \<and> n \<le> s \<and> s - n < length (x # b) \<and> (x # b) ! (s - n) = None) \<or>
        snd r = slot' \<and> None \<notin> set (x # b)"
    proof -
      from True assms(1) consider s where "snd r = Some s" "Suc n \<le> s \<and> s - Suc n < length b \<and> b ! (s - Suc n) = None"
        | "snd r = slot" "None \<notin> set b" by (auto simp: insert_result_def)
      then show ?thesis
      proof cases
        case 1
        then show ?thesis using sh [of s None] by blast
      next
        case 2
        then show ?thesis using assms(3,4) none by (cases "x = None") auto
      qed
    qed
    ultimately show ?thesis using True by (simp add: insert_result_def)
  next
    case False
    then obtain s v where "snd r = Some s" "Suc n \<le> s \<and> s - Suc n < length b \<and> b ! (s - Suc n) = Some (p, key, v)"
      using assms(1) by (auto simp: insert_result_def)
    then show ?thesis using sh [of s "Some (p, key, v)"] False unfolding insert_result_def by auto
  qed
qed

lemma try_find_insert_ok: "insert_result b p key n slot (try_find_insert_loop b p key n slot)"
proof (induction b p key n slot rule: try_find_insert_loop.induct)
  case (1 p key n slot)
  then show ?case by (simp add: insert_result_def)
next
  case (2 b p key n slot)
  then show ?case using insert_result_Cons [of b p key n "Some n" _ None] by simp
next
  case (3 p k v b partial key n slot)
  then show ?case
    using insert_result_Cons [of b partial key n slot _ "Some (p, k, v)"] by (auto simp: insert_result_def)
qed

lemma full_iff: "full V i \<longleftrightarrow> None \<notin> set (V i)"
  by (simp add: full_def)

definition free_at :: "('k \<Rightarrow> u64) \<Rightarrow> ('k, 'v) table \<Rightarrow> 'k \<Rightarrow> nat \<Rightarrow> nat \<Rightarrow> bool" where
  "free_at h t key i s \<longleftrightarrow> locked t i \<and> s < 4 \<and> view h t i ! s = None \<and> contents h t key = None \<and>
     (i = bucket1 h (hashpower t) key \<or> i = bucket2 h (hashpower t) key)"

definition insert_pos :: "('k \<Rightarrow> u64) \<Rightarrow> ('k, 'v) table \<Rightarrow> 'k \<Rightarrow> table_position \<Rightarrow> bool" where
  "insert_pos h t key pos \<longleftrightarrow>
     (tp_status pos = St_ok \<and> free_at h t key (tp_index pos) (tp_slot pos)) \<or>
     (tp_status pos = St_key_duplicated \<and> (\<exists>v. key_at h t key (tp_index pos) (tp_slot pos) v))"

lemma absent_both:
  assumes ok: "table_ok h t" and "\<forall>v. Some (partial_key (h key), key, v) \<notin> set (view h t (bucket1 h (hashpower t) key))"
    and "\<forall>v. Some (partial_key (h key), key, v) \<notin> set (view h t (bucket2 h (hashpower t) key))"
  shows "contents h t key = None"
proof (rule ccontr)
  assume "contents h t key \<noteq> None"
  have g: "good h (hashpower t) (view h t)" using ok by (simp add: table_ok_def)
  from \<open>contents h t key \<noteq> None\<close> obtain v i p where m: "Some (p, key, v) \<in> set (view h t i)"
    using contents_holds [OF ok] holds_set [OF g] by blast
  then have "p = partial_key (h key)" "i = bucket1 h (hashpower t) key \<or> i = bucket2 h (hashpower t) key"
    using goodD(2) [OF g, of i] by (auto simp: placed_def)
  then show False using m assms(2,3) by auto
qed

lemma cuckoo_insert_ok:
  assumes inv: "cuckoo_inv h t" and l: "locked t (bucket1 h (hashpower t) key)" "locked t (bucket2 h (hashpower t) key)"
  shows "\<exists>pos t'. cuckoo_insert h (hashed_key h key) (bucket1 h (hashpower t) key) (bucket2 h (hashpower t) key) key t = Some (Inr (pos, t')) \<and>
    cuckoo_inv h t' \<and> contents h t' = contents h t \<and> hashpower t' = hashpower t \<and>
    (insert_pos h t' key pos \<or> tp_status pos = St_table_full \<and> contents h t key = None)"
proof -
  let ?b1 = "bucket1 h (hashpower t) key" and ?b2 = "bucket2 h (hashpower t) key" and ?p = "partial_key (h key)" and ?V = "view h t"
  have ok: "table_ok h t" using inv by (simp add: cuckoo_inv_def)
  have sh: "shape h t" and g: "good h (hashpower t) ?V" and hp: "hashpower t \<le> 64" using ok by (auto simp: table_ok_def shape_def)
  note at = locked_at [OF sh l(1)] locked_at [OF sh l(2)]
  have hv: "hv_partial (hashed_key h key) = ?p" "hv_hash (hashed_key h key) = h key" by (simp_all add: hashed_key_def)
  have len: "length (?V i) = 4" for i using goodD(1) [OF g] by simp
  obtain n1 r1 n2 r2 where f: "try_find_insert_bucket (?V ?b1) ?p key = (n1, r1)" "try_find_insert_bucket (?V ?b2) ?p key = (n2, r2)"
    by (cases "try_find_insert_bucket (?V ?b1) ?p key"; cases "try_find_insert_bucket (?V ?b2) ?p key") auto
  have i1: "insert_result (?V ?b1) ?p key 0 None (n1, r1)" and i2: "insert_result (?V ?b2) ?p key 0 None (n2, r2)"
    using try_find_insert_ok [of "?V ?b1" ?p key 0 None] try_find_insert_ok [of "?V ?b2" ?p key 0 None] f
    by (simp_all add: try_find_insert_bucket_def)
  note def = cuckoo_insert_def [of h "hashed_key h key" ?b1 ?b2 key t, unfolded hv at sum.case f prod.case]
  show ?thesis
  proof (cases "n1 \<and> n2")
    case False
    have "\<exists>i s v. cuckoo_insert h (hashed_key h key) ?b1 ?b2 key t =
        Some (Inr (\<lparr>tp_index = i, tp_slot = s, tp_status = St_key_duplicated\<rparr>, t)) \<and> key_at h t key i s v"
    proof (cases n1)
      case True
      then obtain s v where "r2 = Some s" "s < 4" "?V ?b2 ! s = Some (?p, key, v)" "\<not> n2"
        using False i2 len by (auto simp: insert_result_def)
      then show ?thesis using True l(2) unfolding def by (auto simp: key_at_def)
    next
      case n1: False
      then obtain s v where "r1 = Some s" "s < 4" "?V ?b1 ! s = Some (?p, key, v)"
        using i1 len by (auto simp: insert_result_def)
      then show ?thesis using n1 l(1) unfolding def by (auto simp: key_at_def)
    qed
    then show ?thesis using inv by (force simp: insert_pos_def)
  next
    case True
    have none: "contents h t key = None" using absent_both [OF ok] i1 i2 True by (simp add: insert_result_def)
    show ?thesis
    proof (cases "r1 = None \<and> r2 = None")
      case False
      then have "\<exists>i s. cuckoo_insert h (hashed_key h key) ?b1 ?b2 key t =
          Some (Inr (\<lparr>tp_index = i, tp_slot = s, tp_status = St_ok\<rparr>, t)) \<and> free_at h t key i s"
        using True i1 i2 l len none unfolding def
        by (cases r1; cases r2) (auto simp: insert_result_def free_at_def)
      then show ?thesis using inv by (force simp: insert_pos_def)
    next
      case full: True
      then have "full ?V ?b1" "full ?V ?b2" using i1 i2 True by (auto simp: insert_result_def full_def)
      from run_cuckoo_ok [OF ok _ _ this] hp obtain r t1 where
        t1: "run_cuckoo h (hashpower t) ?b1 ?b2 t = Some (Inr (r, t1))" "table_ok h t1" "same_contents h t t1"
          "\<And>i s. r = Some (i, s) \<Longrightarrow> (i = ?b1 \<or> i = ?b2) \<and> s < 4 \<and> view h t1 i ! s = None \<and> locked t1 ?b1 \<and> locked t1 ?b2"
        by auto
      have V1: "cuckoo_inv h t1" "contents h t1 = contents h t" "hashpower t1 = hashpower t"
        using inv_same [OF inv t1(2,3)] t1(3) by (simp_all add: same_contents_def)
      have bk: "(i = index_hash (hashpower t1) (h key) \<or> i = alt_index (hashpower t1) ?p (index_hash (hashpower t1) (h key))) \<longleftrightarrow>
          i = ?b1 \<or> i = ?b2" for i by (simp add: V1(3) bucket1_def bucket2_def)
      have def': "cuckoo_insert h (hashed_key h key) ?b1 ?b2 key t = (case r of
          None \<Rightarrow> Some (Inr (\<lparr>tp_index = 0, tp_slot = 0, tp_status = St_table_full\<rparr>, t1))
        | Some (i, s) \<Rightarrow>
            Some (and_then (bc_at (t_buckets t1) i) (\<lambda>b.
              and_then (check (s < length b \<and> b ! s = None) Assert_failed) (\<lambda>_.
              and_then (check (i = ?b1 \<or> i = ?b2) Assert_failed) (\<lambda>_.
              and_then (cuckoo_find t1 key ?p ?b1 ?b2) (\<lambda>pos.
              if tp_status pos = St_ok then Inr (pos\<lparr>tp_status := St_key_duplicated\<rparr>, t1)
              else Inr (\<lparr>tp_index = i, tp_slot = s, tp_status = St_ok\<rparr>, t1)))))))"
        using True full unfolding def by (cases r) (simp_all add: t1(1) bk split: prod.split)
      show ?thesis
      proof (cases r)
        case None
        then show ?thesis using V1 none unfolding def' by auto
      next
        case (Some e)
        obtain i s where e: "e = (i, s)" by (cases e)
        have isl: "i = ?b1 \<or> i = ?b2" "s < 4" "view h t1 i ! s = None" "locked t1 ?b1" "locked t1 ?b2" "locked t1 i"
          using t1(4) [of i s] Some e by auto
        have sh1: "shape h t1" using t1(2) by (simp add: table_ok_def)
        obtain pos where pos: "cuckoo_find t1 key ?p ?b1 ?b2 = Inr pos" "tp_status pos = St_key_not_found"
          using cuckoo_find_ok [OF t1(2), of key] isl(4,5) V1 none by auto
        have "cuckoo_insert h (hashed_key h key) ?b1 ?b2 key t = Some (Inr (\<lparr>tp_index = i, tp_slot = s, tp_status = St_ok\<rparr>, t1))"
          unfolding def' Some e option.case prod.case
          using isl(1-3) locked_at [OF sh1 isl(6)] length_view [OF sh1, of i] pos by (auto simp del: and_then_Inr_iff)
        moreover have "free_at h t1 key i s" using isl none V1 by (simp add: free_at_def)
        ultimately show ?thesis using V1 by (force simp: insert_pos_def)
      qed
    qed
  qed
qed

text \<open>
  The loop of insertion: every round that finds no room doubles the table, and the check of the load factor stops it
  before the hashpower can leave its range.
\<close>

lemma insert_loop_ok:
  "cuckoo_inv h t \<Longrightarrow> locked t (bucket1 h (hashpower t) key) \<Longrightarrow> locked t (bucket2 h (hashpower t) key) \<Longrightarrow>
   card (dom (contents h t)) < 2 ^ 53 \<Longrightarrow>
   \<exists>r. cuckoo_insert_loop h (hashed_key h key) (bucket1 h (hashpower t) key) (bucket2 h (hashpower t) key) key t = Some r \<and>
     (r = Inl Load_factor_too_low \<and> contents h t key = None \<or>
      (\<exists>pos t'. r = Inr (pos, t') \<and> cuckoo_inv h t' \<and> contents h t' = contents h t \<and> insert_pos h t' key pos))"
proof (induction "64 - hashpower t" arbitrary: t rule: less_induct)
  case less
  let ?b1 = "bucket1 h (hashpower t) key" and ?b2 = "bucket2 h (hashpower t) key" and ?hv = "hashed_key h key"
  from cuckoo_insert_ok [OF less.prems(1-3)] obtain pos t1 where
    t1: "cuckoo_insert h ?hv ?b1 ?b2 key t = Some (Inr (pos, t1))" "cuckoo_inv h t1" "contents h t1 = contents h t"
      "hashpower t1 = hashpower t" "insert_pos h t1 key pos \<or> tp_status pos = St_table_full \<and> contents h t key = None" by blast
  show ?case
  proof (cases "insert_pos h t1 key pos")
    case True
    then have "cuckoo_insert_loop h ?hv ?b1 ?b2 key t = Some (Inr (pos, t1))"
      using t1(1) by (subst cuckoo_insert_loop.simps) (auto simp: insert_pos_def)
    then show ?thesis using True t1 by auto
  next
    case False
    then have full: "tp_status pos = St_table_full" and none: "contents h t key = None" using t1(5) by simp_all
    let ?n = "card (dom (contents h t))"
    have tot: "total t1 = int ?n" and ok1: "table_ok h t1" using t1(2,3) by (simp_all add: cuckoo_inv_def)
    note fd = fast_double_ok [OF ok1 tot less.prems(4), unfolded t1(4)]
    show ?thesis
    proof (cases "?n * 2 ^ 57 < 7205759403792794 * (2 ^ hashpower t * 4)")
      case True
      then have "cuckoo_insert_loop h ?hv ?b1 ?b2 key t = Some (Inl Load_factor_too_low)"
        using fd t1(1) full by (subst cuckoo_insert_loop.simps) simp
      then show ?thesis using none by simp
    next
      case low: False
      have hp: "Suc (hashpower t) < 64" using load_bounds_hashpower [OF less.prems(4) low] .
      obtain t2 where t2: "cuckoo_fast_double h (hashpower t) t1 = Inr (St_ok, t2)" "table_ok h t2" "hashpower t2 = Suc (hashpower t)"
        "holds (view h t2) = holds (view h t1)" "total t2 = total t1" using fd low by auto
      have c2: "contents h t2 = contents h t"
        using t2(4) by (intro map_eqI) (simp add: contents_holds [OF t2(2)] contents_holds [OF ok1] flip: t1(3))
      then have inv2: "cuckoo_inv h t2" using t2(2,5) tot by (simp add: cuckoo_inv_def)
      from snapshot_ok [OF t2(2), of key] obtain t3 where
        t3: "snapshot_and_lock_two h ?hv t2 = Inr (bucket1 h (hashpower t2) key, bucket2 h (hashpower t2) key, t3)"
          "shape h t3" "counted t3" "agrees h t2 t3" "locked t3 (bucket1 h (hashpower t2) key)" "locked t3 (bucket2 h (hashpower t2) key)"
        by blast
      have hp3: "hashpower t3 = hashpower t2" using t3(4) by (simp add: agrees_def)
      note i3 = inv_agrees [OF inv2 t3(2-4)]
      have step: "cuckoo_insert_loop h ?hv ?b1 ?b2 key t =
          cuckoo_insert_loop h ?hv (bucket1 h (hashpower t3) key) (bucket2 h (hashpower t3) key) key t3"
        using t1(1) full t2(1) t3(1) by (subst cuckoo_insert_loop.simps) (simp add: hp3)
      have "64 - hashpower t3 < 64 - hashpower t" using hp hp3 t2(3) by simp
      from less.hyps [OF this i3(1)] t3(5,6) hp3 less.prems(4) i3(2) c2 show ?thesis unfolding step by auto
    qed
  qed
qed

section \<open>The operations\<close>

lemma uprase_ok:
  assumes inv: "cuckoo_inv h t" and small: "card (dom (contents h t)) < 2 ^ 53"
  shows "\<exists>r. uprase_fn h key (\<lambda>v. (fn v, False)) val t = Some r \<and>
    (r = Inl Load_factor_too_low \<and> contents h t key = None \<or>
     (\<exists>t'. r = Inr (contents h t key = None, t') \<and> cuckoo_inv h t' \<and>
        contents h t' = (contents h t)(key \<mapsto> (case contents h t key of None \<Rightarrow> val | Some v \<Rightarrow> fn v))))"
proof -
  let ?hv = "hashed_key h key"
  have ok: "table_ok h t" using inv by (simp add: cuckoo_inv_def)
  from snapshot_ok [OF ok, of key] obtain t1 where
    t1: "snapshot_and_lock_two h ?hv t = Inr (bucket1 h (hashpower t) key, bucket2 h (hashpower t) key, t1)"
      "shape h t1" "counted t1" "agrees h t t1" "locked t1 (bucket1 h (hashpower t) key)" "locked t1 (bucket2 h (hashpower t) key)" by blast
  have hp: "hashpower t1 = hashpower t" using t1(4) by (simp add: agrees_def)
  note i1 = inv_agrees [OF inv t1(2-4)]
  from insert_loop_ok [OF i1(1), of key] t1(5,6) hp small i1(2) obtain r where
    r: "cuckoo_insert_loop h ?hv (bucket1 h (hashpower t) key) (bucket2 h (hashpower t) key) key t1 = Some r"
      "r = Inl Load_factor_too_low \<and> contents h t key = None \<or>
       (\<exists>pos t'. r = Inr (pos, t') \<and> cuckoo_inv h t' \<and> contents h t' = contents h t \<and> insert_pos h t' key pos)" by auto
  note def = uprase_fn_def [of h key "\<lambda>v. (fn v, False)" val t, unfolded Let_def t1(1) sum.case prod.case r(1) option.case]
  show ?thesis
  proof (cases "r = Inl Load_factor_too_low")
    case True
    then show ?thesis using r(2) unfolding def by auto
  next
    case False
    then obtain pos t2 where t2: "r = Inr (pos, t2)" "cuckoo_inv h t2" "contents h t2 = contents h t" "insert_pos h t2 key pos"
      using r(2) by blast
    have ok2: "table_ok h t2" using t2(2) by (simp add: cuckoo_inv_def)
    show ?thesis
    proof (cases "tp_status pos = St_ok")
      case True
      then have f: "free_at h t2 key (tp_index pos) (tp_slot pos)" using t2(4) by (simp add: insert_pos_def)
      then have none: "contents h t key = None" using t2(3) by (simp add: free_at_def)
      from f add_to_bucket_ok [OF t2(2), of "tp_index pos" "tp_slot pos" key val] obtain t3 where
        "add_to_bucket (tp_index pos) (tp_slot pos) (partial_key (h key)) key val t2 = Inr t3" "cuckoo_inv h t3"
        "contents h t3 = (contents h t2)(key \<mapsto> val)" by (auto simp: free_at_def)
      then show ?thesis using none True t2(1,3) unfolding def by (simp add: hashed_key_def)
    next
      case dup: False
      then obtain v where k: "key_at h t2 key (tp_index pos) (tp_slot pos) v" using t2(4) by (auto simp: insert_pos_def)
      then have c: "contents h t key = Some v" using contents_holds [OF ok2] t2(3) by (auto simp: key_at_def holds_def)
      from key_at_set_mapped [OF t2(2) k, of "fn v"] obtain t3 where
        "set_mapped t2 (tp_index pos) (tp_slot pos) (fn v) = Inr t3" "cuckoo_inv h t3" "contents h t3 = (contents h t2)(key \<mapsto> fn v)" by blast
      then show ?thesis using c dup t2(1,3) key_at_mapped [OF ok2 k] unfolding def by simp
    qed
  qed
qed

text \<open>Every read-only or modifying access to an existing key starts by locking its two buckets and looking for it.\<close>

lemma locate_ok:
  assumes inv: "cuckoo_inv h t"
  shows "\<exists>t' pos. snapshot_and_lock_two h (hashed_key h key) t = Inr (bucket1 h (hashpower t) key, bucket2 h (hashpower t) key, t') \<and>
    cuckoo_find t' key (hv_partial (hashed_key h key)) (bucket1 h (hashpower t) key) (bucket2 h (hashpower t) key) = Inr pos \<and>
    cuckoo_inv h t' \<and> contents h t' = contents h t \<and>
    (case contents h t key of
       None \<Rightarrow> tp_status pos \<noteq> St_ok
     | Some v \<Rightarrow> tp_status pos = St_ok \<and> key_at h t' key (tp_index pos) (tp_slot pos) v \<and> mapped t' (tp_index pos) (tp_slot pos) = Inr v)"
proof -
  have ok: "table_ok h t" using inv by (simp add: cuckoo_inv_def)
  from snapshot_ok [OF ok, of key] obtain t1 where
    t1: "snapshot_and_lock_two h (hashed_key h key) t = Inr (bucket1 h (hashpower t) key, bucket2 h (hashpower t) key, t1)"
      "shape h t1" "counted t1" "agrees h t t1" "locked t1 (bucket1 h (hashpower t) key)" "locked t1 (bucket2 h (hashpower t) key)" by blast
  have hp: "hashpower t1 = hashpower t" using t1(4) by (simp add: agrees_def)
  note i1 = inv_agrees [OF inv t1(2-4)]
  then have ok1: "table_ok h t1" by (simp add: cuckoo_inv_def)
  from cuckoo_find_ok [OF ok1, of key] t1(5,6) hp obtain pos where
    "cuckoo_find t1 key (partial_key (h key)) (bucket1 h (hashpower t) key) (bucket2 h (hashpower t) key) = Inr pos"
    "case contents h t1 key of Some v \<Rightarrow> tp_status pos = St_ok \<and> key_at h t1 key (tp_index pos) (tp_slot pos) v
     | None \<Rightarrow> tp_status pos = St_key_not_found" by auto
  then show ?thesis using t1(1) i1 key_at_mapped [OF ok1] by (auto simp: hashed_key_def split: option.splits)
qed

lemma find_fn_ok:
  "cuckoo_inv h t \<Longrightarrow> \<exists>t'. find_fn h key t = Inr (contents h t key, t') \<and> cuckoo_inv h t' \<and> contents h t' = contents h t"
  using locate_ok [of h t key] by (cases "contents h t key") (auto simp: find_fn_def Let_def simp del: and_then_Inr_iff)

lemma find_default_ok:
  "cuckoo_inv h t \<Longrightarrow> \<exists>t'. table_find_default h d key t = Inr (cuckoo_find_default d (contents h t) key, t') \<and> cuckoo_inv h t' \<and>
    contents h t' = contents h t"
  using locate_ok [of h t key] by (cases "contents h t key") (auto simp: table_find_default_def cuckoo_find_default_def Let_def simp del: and_then_Inr_iff)

lemma erase_ok:
  assumes inv: "cuckoo_inv h t"
  shows "\<exists>t'. table_erase h key t = Inr (fst (cuckoo_erase key (contents h t)), t') \<and> cuckoo_inv h t' \<and>
    contents h t' = snd (cuckoo_erase key (contents h t))"
proof -
  from locate_ok [OF inv, of key] obtain t1 pos where
    l: "snapshot_and_lock_two h (hashed_key h key) t = Inr (bucket1 h (hashpower t) key, bucket2 h (hashpower t) key, t1)"
      "cuckoo_find t1 key (hv_partial (hashed_key h key)) (bucket1 h (hashpower t) key) (bucket2 h (hashpower t) key) = Inr pos"
      "cuckoo_inv h t1" "contents h t1 = contents h t"
      "case contents h t key of None \<Rightarrow> tp_status pos \<noteq> St_ok
       | Some v \<Rightarrow> tp_status pos = St_ok \<and> key_at h t1 key (tp_index pos) (tp_slot pos) v \<and> mapped t1 (tp_index pos) (tp_slot pos) = Inr v"
    by blast
  note def = table_erase_def [unfolded erase_fn_def Let_def, of h key t, unfolded l(1) and_then.simps prod.case l(2)]
  show ?thesis
  proof (cases "contents h t key")
    case None
    then show ?thesis using l(3-5) unfolding def by (simp add: cuckoo_erase_def fun_upd_idem)
  next
    case (Some v)
    then have k: "tp_status pos = St_ok" "key_at h t1 key (tp_index pos) (tp_slot pos) v" "mapped t1 (tp_index pos) (tp_slot pos) = Inr v"
      using l(5) by simp_all
    from key_at_set_mapped [OF l(3) k(2), of v] obtain t2 where
      t2: "set_mapped t1 (tp_index pos) (tp_slot pos) v = Inr t2" "cuckoo_inv h t2" "contents h t2 = (contents h t1)(key \<mapsto> v)"
        "key_at h t2 key (tp_index pos) (tp_slot pos) v" by blast
    from del_from_bucket_ok [OF t2(2,4)] obtain t3 where
      t3: "del_from_bucket (tp_index pos) (tp_slot pos) t2 = Inr t3" "cuckoo_inv h t3" "contents h t3 = (contents h t2)(key := None)" by blast
    show ?thesis using Some k t2 t3 l(4) unfolding def by (simp add: cuckoo_erase_def)
  qed
qed

lemma insert_or_assign_ok:
  assumes "cuckoo_inv h t" and "card (dom (contents h t)) < 2 ^ 53"
  shows "\<exists>r. insert_or_assign h key val t = Some r \<and>
    (r = Inl Load_factor_too_low \<and> contents h t key = None \<or>
     (\<exists>t'. r = Inr (contents h t key = None, t') \<and> cuckoo_inv h t' \<and> contents h t' = cuckoo_insert_or_assign key val (contents h t)))"
  using uprase_ok [OF assms, of key "\<lambda>_. val" val]
  by (cases "contents h t key") (auto simp: insert_or_assign_def upsert_def cuckoo_insert_or_assign_def)

end
