(* ===== verification/Cuckoo_Refine.thy ===== *)
theory Cuckoo_Refine
  imports Cuckoo_Ops
begin

text \<open>
  The hash map as its clients see it: the contract of a map as a locale, its interpretation on the operations of
  \<open>libcuckoo\<close>, and the properties of runs of calls on a table that was just constructed.
\<close>

section \<open>Construction, update and clearing\<close>

lemma reserve_calc_loop_ok:
  "buckets \<le> 2 ^ n \<Longrightarrow> k \<le> n \<Longrightarrow> reserve_calc_loop buckets k \<le> n \<and> buckets \<le> 2 ^ reserve_calc_loop buckets k"
proof (induction buckets k rule: reserve_calc_loop.induct)
  case (1 buckets k)
  show ?case
  proof (cases "(2::nat) ^ k < buckets")
    case True
    then have "(2::nat) ^ k < 2 ^ n" using 1(2) by linarith
    then have "k + 1 \<le> n" by simp
    with 1(1) [OF True 1(2)] True show ?thesis by (subst (1 2) reserve_calc_loop.simps) simp
  next
    case False
    then show ?thesis using 1(3) by (subst (1 2) reserve_calc_loop.simps) simp
  qed
qed

lemma reserve_calc_ok:
  assumes "n \<le> 2 ^ 60"
  shows "\<exists>hp. reserve_calc n = Inr hp \<and> hp \<le> 60 \<and> n \<le> 4 * 2 ^ hp"
proof -
  let ?b = "(n + 3) div 4"
  have b: "n \<le> ?b * 4" by linarith
  have "?b \<le> 2 ^ 60" using assms by linarith
  note r = reserve_calc_loop_ok [OF this, of 0]
  then have le: "?b \<le> 2 ^ reserve_calc_loop ?b 0" by simp
  then have "n \<le> 4 * 2 ^ reserve_calc_loop ?b 0" using b by linarith
  then show ?thesis using r b le by (simp add: reserve_calc_def slot_per_bucket_def hashsize_def Let_def add.commute [of 3])
qed

lemma bucket_map_empty [simp]: "bucket_map empty_bucket = Map.empty"
  by (simp add: bucket_map_def empty_bucket_def List.map_filter_def)

lemma good_empty: "(\<And>i. V i = empty_bucket) \<Longrightarrow> good h hp V"
  by (rule goodI) (simp_all add: empty_bucket_def)

lemma empty_inv:
  assumes "\<And>i. view h t i = empty_bucket" and "shape h t" and "counted t" and "total t = 0"
  shows "cuckoo_inv h t" and "contents h t = Map.empty"
proof -
  show c: "contents h t = Map.empty" by (rule ext) (simp add: contents_def lookup_def assms(1))
  show "cuckoo_inv h t" using assms(2-4) c good_empty [OF assms(1)] by (simp add: cuckoo_inv_def table_ok_def)
qed

lemma table_make_ok:
  assumes "n \<le> 2 ^ 60"
  shows "\<exists>t :: ('k, 'v) table. table_make n = Inr t \<and> cuckoo_inv h t \<and> contents h t = Map.empty \<and> n \<le> capacity t"
proof -
  from reserve_calc_ok [OF assms] obtain hp where hp: "reserve_calc n = Inr hp" "hp \<le> 60" "n \<le> 4 * 2 ^ hp" by blast
  define t :: "('k, 'v) table" where "t = \<lparr>t_buckets = bucket_container_make hp, t_old_buckets = bucket_container_make 0,
    t_all_locks = [replicate (min (2 ^ hp) kMaxNumLocks) spinlock_make], t_num_remaining = 0, t_maximum_hashpower = NO_MAXIMUM_HASHPOWER\<rparr>"
  have make: "table_make n = Inr t" by (simp add: table_make_def hp(1) t_def)
  have locks: "get_current_locks t = replicate (min (2 ^ hp) kMaxNumLocks) spinlock_make" by (simp add: t_def get_current_locks_def)
  have hpt: "hashpower t = hp" by (simp add: t_def hashpower_def bucket_container_make_def)
  have tt: "t_buckets t = bucket_container_make hp" "t_all_locks t \<noteq> []" "t_maximum_hashpower t = NO_MAXIMUM_HASHPOWER"
    by (simp_all add: t_def)
  have w: "\<not> waits t l" if "l < min (2 ^ hp) kMaxNumLocks" for l
    using that by (simp add: waits_def locks spinlock_make_def)
  have "view h t i = empty_bucket" for i
  proof (cases "i < 2 ^ hp")
    case True
    then have "lock_ind i < min (2 ^ hp) kMaxNumLocks"
      by (simp add: lock_ind_mod kMaxNumLocks_def le_less_trans [OF mod_less_eq_dividend])
    then show ?thesis using True w by (simp add: view_def hpt hashsize_def) (simp add: t_def bucket_container_make_def)
  qed (simp add: view_def hpt hashsize_def)
  moreover have "shape h t"
    unfolding shape_def hpt using hp(2) w container_ok_make [of hp] tt by (auto simp: locks)
  moreover have "counted t" by (simp add: counted_def locks spinlock_make_def) (simp add: t_def)
  moreover have "total t = 0" by (simp add: total_def locks spinlock_make_def sum_list_replicate)
  ultimately have "cuckoo_inv h t" "contents h t = Map.empty" by (rule empty_inv)+
  moreover have "n \<le> capacity t" using hp(3) by (simp add: capacity_def bc_size_def t_def bucket_container_make_def slot_per_bucket_def)
  ultimately show ?thesis using make by blast
qed

lemma update_ok:
  assumes inv: "cuckoo_inv h t"
  shows "\<exists>t'. table_update h key val t = Inr (contents h t key \<noteq> None, t') \<and> cuckoo_inv h t' \<and>
    contents h t' = (if contents h t key = None then contents h t else (contents h t)(key \<mapsto> val))"
proof -
  from locate_ok [OF inv, of key] obtain t1 pos where
    l: "snapshot_and_lock_two h (hashed_key h key) t = Inr (bucket1 h (hashpower t) key, bucket2 h (hashpower t) key, t1)"
      "cuckoo_find t1 key (hv_partial (hashed_key h key)) (bucket1 h (hashpower t) key) (bucket2 h (hashpower t) key) = Inr pos"
      "cuckoo_inv h t1" "contents h t1 = contents h t"
      "case contents h t key of None \<Rightarrow> tp_status pos \<noteq> St_ok
       | Some v \<Rightarrow> tp_status pos = St_ok \<and> key_at h t1 key (tp_index pos) (tp_slot pos) v \<and> mapped t1 (tp_index pos) (tp_slot pos) = Inr v"
    by blast
  note def = table_update_def [unfolded update_fn_def Let_def, of h key val t, unfolded l(1) and_then.simps prod.case l(2)]
  show ?thesis
  proof (cases "contents h t key")
    case None
    then show ?thesis using l(3-5) unfolding def by simp
  next
    case (Some v)
    then have k: "tp_status pos = St_ok" "key_at h t1 key (tp_index pos) (tp_slot pos) v" "mapped t1 (tp_index pos) (tp_slot pos) = Inr v"
      using l(5) by simp_all
    from key_at_set_mapped [OF l(3) k(2), of val] obtain t2 where
      "set_mapped t1 (tp_index pos) (tp_slot pos) val = Inr t2" "cuckoo_inv h t2" "contents h t2 = (contents h t1)(key \<mapsto> val)" by blast
    then show ?thesis using Some k l(4) unfolding def by simp
  qed
qed

lemma insert_ok:
  assumes "cuckoo_inv h t" and "card (dom (contents h t)) < 2 ^ 53"
  shows "\<exists>r. table_insert h key val t = Some r \<and>
    (r = Inl Load_factor_too_low \<and> contents h t key = None \<or>
     (\<exists>t'. r = Inr (contents h t key = None, t') \<and> cuckoo_inv h t' \<and>
        contents h t' = (if contents h t key = None then (contents h t)(key \<mapsto> val) else contents h t)))"
  using uprase_ok [OF assms, of key "\<lambda>v. v" val]
  by (cases "contents h t key") (auto simp: table_insert_def upsert_def fun_upd_idem)

lemma contains_ok:
  assumes "cuckoo_inv h t"
  shows "\<exists>t'. table_contains h key t = Inr (contents h t key \<noteq> None, t') \<and> cuckoo_inv h t' \<and> contents h t' = contents h t"
  using find_fn_ok [OF assms, of key] by (auto simp: table_contains_def simp del: and_then_Inr_iff)

lemma current_locks_set [simp]: "get_current_locks (set_current_locks t ls) = ls"
  by (simp add: get_current_locks_def set_current_locks_def)

lemma clear_ok:
  assumes "cuckoo_inv h t"
  shows "cuckoo_inv h (cuckoo_clear t)" and "contents h (cuckoo_clear t) = Map.empty"
proof -
  let ?t = "cuckoo_clear t" and ?f = "\<lambda>l. l\<lparr>elem_counter := 0, is_migrated := True\<rparr> :: spinlock"
  have sh: "shape h t" using assms by (simp add: cuckoo_inv_def table_ok_def)
  then obtain bs where bs: "bc_buckets (t_buckets t) = Some bs" "length bs = 2 ^ hashpower t" "\<forall>b \<in> set bs. length b = slot_per_bucket"
    by (auto simp: shape_def container_ok_def hashpower_def)
  have locks: "get_current_locks ?t = map ?f (get_current_locks t)"
    by (simp add: cuckoo_clear_def Let_def) (simp add: set_num_remaining_def get_current_locks_def)
  have b: "bc_buckets (t_buckets ?t) = Some (map (map (\<lambda>_. None)) bs)" "hashpower ?t = hashpower t" "t_all_locks ?t \<noteq> []"
    "t_maximum_hashpower ?t = t_maximum_hashpower t" "t_num_remaining ?t = 0"
    using bs by (simp_all add: cuckoo_clear_def Let_def set_num_remaining_def set_current_locks_def bc_clear_def hashpower_def)
  have w: "\<not> waits ?t l" if "l < length (get_current_locks t)" for l using that by (simp add: waits_def locks)
  have e: "(map (\<lambda>_. None) b :: ('a, 'b) bucket) = empty_bucket" if "length b = slot_per_bucket" for b :: "('a, 'b) bucket"
    using that by (simp add: empty_bucket_def map_replicate_const)
  have "view h ?t i = empty_bucket" for i
    using bs w [OF lock_less [OF sh]] e by (auto simp: view_def b hashsize_def)
  moreover have "shape h ?t"
    using sh bs w unfolding shape_def b(2,4) container_ok_def by (simp add: locks b) (auto simp: b(2) simp flip: hashpower_def)
  moreover have "counted ?t" by (simp add: counted_def locks b)
  moreover have "total ?t = 0" by (simp add: total_def locks comp_def)
  ultimately show "cuckoo_inv h ?t" "contents h ?t = Map.empty" by (rule empty_inv)+
qed

section \<open>The contract of a map\<close>

text \<open>
  What \<open>CuckooDB\<close> and the PMR server expect of the hash map. \<open>limit\<close> bounds the number of elements for which insertion is
  promised to end; it may then still refuse a new key with an exception.
\<close>

locale map_adt =
  fixes inv :: "'t \<Rightarrow> bool" and abs :: "'t \<Rightarrow> 'k \<rightharpoonup> 'v" and limit :: nat
    and put :: "'k \<Rightarrow> 'v \<Rightarrow> 't \<Rightarrow> (bool \<times> 't) result option"
    and get :: "'k \<Rightarrow> 't \<Rightarrow> ('v option \<times> 't) result"
    and del :: "'k \<Rightarrow> 't \<Rightarrow> (bool \<times> 't) result"
    and refused :: "fault \<Rightarrow> bool"
  assumes finite_abs: "inv t \<Longrightarrow> finite (dom (abs t))"
    and put_law: "inv t \<Longrightarrow> card (dom (abs t)) < limit \<Longrightarrow>
      \<exists>r. put k v t = Some r \<and> ((\<exists>e. r = Inl e \<and> refused e \<and> abs t k = None) \<or>
        (\<exists>t'. r = Inr (abs t k = None, t') \<and> inv t' \<and> abs t' = cuckoo_insert_or_assign k v (abs t)))"
    and get_law: "inv t \<Longrightarrow> \<exists>t'. get k t = Inr (cuckoo_find_value (abs t) k, t') \<and> inv t' \<and> abs t' = abs t"
    and del_law: "inv t \<Longrightarrow> \<exists>t'. del k t = Inr (fst (cuckoo_erase k (abs t)), t') \<and> inv t' \<and> abs t' = snd (cuckoo_erase k (abs t))"

datatype ('k, 'v) map_call = Call_put 'k 'v | Call_get 'k | Call_del 'k

datatype 'v map_reply = Reply_flag bool | Reply_value "'v option"

fun spec_call :: "('k, 'v) map_call \<Rightarrow> ('k \<rightharpoonup> 'v) \<Rightarrow> 'v map_reply \<times> ('k \<rightharpoonup> 'v)" where
  "spec_call (Call_put k v) m = (Reply_flag (m k = None), cuckoo_insert_or_assign k v m)"
| "spec_call (Call_get k) m = (Reply_value (cuckoo_find_value m k), m)"
| "spec_call (Call_del k) m = map_prod Reply_flag id (cuckoo_erase k m)"

fun spec_calls :: "('k, 'v) map_call list \<Rightarrow> ('k \<rightharpoonup> 'v) \<Rightarrow> 'v map_reply list \<times> ('k \<rightharpoonup> 'v)" where
  "spec_calls [] m = ([], m)"
| "spec_calls (c # cs) m = (let (r, m) = spec_call c m; (rs, m) = spec_calls cs m in (r # rs, m))"

text \<open>A run of calls: it stops at the first exception, with the replies so far.\<close>

fun map_calls ::
  "('k \<Rightarrow> 'v \<Rightarrow> 't \<Rightarrow> (bool \<times> 't) result option) \<Rightarrow> ('k \<Rightarrow> 't \<Rightarrow> ('v option \<times> 't) result) \<Rightarrow>
   ('k \<Rightarrow> 't \<Rightarrow> (bool \<times> 't) result) \<Rightarrow> ('k, 'v) map_call list \<Rightarrow> 't \<Rightarrow> ('v map_reply list \<times> 't result) option" where
  "map_calls put get del [] t = Some ([], Inr t)"
| "map_calls put get del (c # cs) t =
     (case (case c of Call_put k v \<Rightarrow> map_option (map_sum id (map_prod Reply_flag id)) (put k v t)
            | Call_get k \<Rightarrow> Some (map_sum id (map_prod Reply_value id) (get k t))
            | Call_del k \<Rightarrow> Some (map_sum id (map_prod Reply_flag id) (del k t))) of
        None \<Rightarrow> None
      | Some (Inl e) \<Rightarrow> Some ([], Inl e)
      | Some (Inr (r, t)) \<Rightarrow> map_option (map_prod (Cons r) id) (map_calls put get del cs t))"

context map_adt
begin

lemma call_step:
  assumes "inv t" and "card (dom (abs t)) < limit"
  shows "(\<exists>e k v. c = Call_put k v \<and> put k v t = Some (Inl e) \<and> refused e \<and> abs t k = None) \<or>
    (\<exists>t'. (\<forall>cs. map_calls put get del (c # cs) t =
        map_option (map_prod (Cons (fst (spec_call c (abs t)))) id) (map_calls put get del cs t')) \<and>
      inv t' \<and> abs t' = snd (spec_call c (abs t)))"
proof (cases c)
  case (Call_put k v)
  then show ?thesis using put_law [OF assms, of k v] by fastforce
next
  case (Call_get k)
  then show ?thesis using get_law [OF assms(1), of k] by fastforce
next
  case (Call_del k)
  then show ?thesis using del_law [OF assms(1), of k] by (cases "cuckoo_erase k (abs t)") fastforce
qed

lemma card_call: "inv t \<Longrightarrow> card (dom (snd (spec_call c (abs t)))) \<le> Suc (card (dom (abs t)))"
  using finite_abs [of t] card_Diff1_le [of "dom (abs t)"]
  by (cases c) (auto simp: cuckoo_insert_or_assign_def cuckoo_erase_def card_insert_if intro: le_SucI)

lemma calls_refine:
  "inv t \<Longrightarrow> card (dom (abs t)) + length cs \<le> limit \<Longrightarrow>
   (\<exists>t'. map_calls put get del cs t = Some (fst (spec_calls cs (abs t)), Inr t') \<and> inv t' \<and> abs t' = snd (spec_calls cs (abs t))) \<or>
   (\<exists>n k v e. n < length cs \<and> cs ! n = Call_put k v \<and> refused e \<and> snd (spec_calls (take n cs) (abs t)) k = None \<and>
      map_calls put get del cs t = Some (fst (spec_calls (take n cs) (abs t)), Inl e))"
proof (induction cs arbitrary: t)
  case Nil
  then show ?case by simp
next
  case (Cons c cs)
  let ?m = "snd (spec_call c (abs t))" and ?r = "fst (spec_call c (abs t))"
  have spec: "spec_calls (c # xs) (abs t) = map_prod (Cons ?r) id (spec_calls xs ?m)" for xs
    by (simp add: split_beta map_prod_def)
  from Cons.prems have "card (dom (abs t)) < limit" by simp
  from call_step [OF Cons.prems(1) this, of c] show ?case
  proof
    assume "\<exists>e k v. c = Call_put k v \<and> put k v t = Some (Inl e) \<and> refused e \<and> abs t k = None"
    then have "\<exists>k v e. c = Call_put k v \<and> refused e \<and> abs t k = None \<and> map_calls put get del (c # cs) t = Some ([], Inl e)" by auto
    then show ?thesis by (intro disjI2 exI [of _ 0]) simp
  next
    assume "\<exists>t'. (\<forall>cs. map_calls put get del (c # cs) t = map_option (map_prod (Cons ?r) id) (map_calls put get del cs t')) \<and>
      inv t' \<and> abs t' = ?m"
    then obtain t1 where t1: "map_calls put get del (c # cs) t = map_option (map_prod (Cons ?r) id) (map_calls put get del cs t1)"
      "inv t1" "abs t1 = ?m" by blast
    have "card (dom (abs t1)) + length cs \<le> limit" using card_call [OF Cons.prems(1), of c] Cons.prems(2) t1(3) by simp
    from Cons.IH [OF t1(2) this, unfolded t1(3)] show ?thesis
    proof
      assume "\<exists>t'. map_calls put get del cs t1 = Some (fst (spec_calls cs ?m), Inr t') \<and> inv t' \<and> abs t' = snd (spec_calls cs ?m)"
      then show ?thesis unfolding t1(1) spec by (intro disjI1) auto
    next
      assume "\<exists>n k v e. n < length cs \<and> cs ! n = Call_put k v \<and> refused e \<and> snd (spec_calls (take n cs) ?m) k = None \<and>
        map_calls put get del cs t1 = Some (fst (spec_calls (take n cs) ?m), Inl e)"
      then obtain n k v e where "n < length cs" "cs ! n = Call_put k v" "refused e" "snd (spec_calls (take n cs) ?m) k = None"
        "map_calls put get del cs t1 = Some (fst (spec_calls (take n cs) ?m), Inl e)" by blast
      then show ?thesis using spec [of "take n cs"] unfolding t1(1)
        by (intro disjI2 exI [of _ "Suc n"] exI [of _ k] exI [of _ v] exI [of _ e]) simp
    qed
  qed
qed

end

interpretation libcuckoo: map_adt "cuckoo_inv h" "contents h" "2 ^ 53" "insert_or_assign h" "find_fn h" "table_erase h"
  "\<lambda>e. e = Load_factor_too_low" for h :: "'k \<Rightarrow> u64"
proof
  fix t :: "('k, 'v) table" and k :: 'k and v :: 'v
  assume inv: "cuckoo_inv h t"
  show "finite (dom (contents h t))"
    using inv finite_contents [of h "hashpower t" "view h t"] by (simp add: cuckoo_inv_def table_ok_def shape_def contents_def)
  show "\<exists>t'. find_fn h k t = Inr (cuckoo_find_value (contents h t) k, t') \<and> cuckoo_inv h t' \<and> contents h t' = contents h t"
    using find_fn_ok [OF inv, of k] by (simp add: cuckoo_find_value_def)
  show "\<exists>t'. table_erase h k t = Inr (fst (cuckoo_erase k (contents h t)), t') \<and> cuckoo_inv h t' \<and>
      contents h t' = snd (cuckoo_erase k (contents h t))"
    by (rule erase_ok [OF inv])
  show "\<exists>r. insert_or_assign h k v t = Some r \<and> ((\<exists>e. r = Inl e \<and> e = Load_factor_too_low \<and> contents h t k = None) \<or>
      (\<exists>t'. r = Inr (contents h t k = None, t') \<and> cuckoo_inv h t' \<and> contents h t' = cuckoo_insert_or_assign k v (contents h t)))"
    if "card (dom (contents h t)) < 2 ^ 53"
    using insert_or_assign_ok [OF inv that, of k v] by blast
qed

section \<open>Keys with the same hash\<close>

lemma card_same_hash:
  assumes "cuckoo_inv h t"
  shows "card {k \<in> dom (contents h t). h k = x} \<le> 8"
proof -
  let ?V = "view h t" and ?K = "{k \<in> dom (contents h t). h k = x}"
  have ok: "table_ok h t" using assms by (simp add: cuckoo_inv_def)
  then have g: "good h (hashpower t) ?V" by (simp add: table_ok_def)
  define i1 i2 where "i1 = index_hash (hashpower t) x" and "i2 = alt_index (hashpower t) (partial_key x) i1"
  have "?K \<subseteq> (\<lambda>(i, s). fst (snd (the (?V i ! s)))) ` ({i1, i2} \<times> {..<4})"
  proof
    fix k assume k: "k \<in> ?K"
    then obtain v where "holds ?V k v" using contents_holds [OF ok] by auto
    then obtain i s p where s: "s < 4" "?V i ! s = Some (p, k, v)" by (auto simp: holds_def slot_per_bucket_def)
    then have "i \<in> {i1, i2}"
      using goodD(3) [OF g, of s i p k v] k by (simp add: bucket1_def bucket2_def i1_def i2_def slot_per_bucket_def)
    then show "k \<in> (\<lambda>(i, s). fst (snd (the (?V i ! s)))) ` ({i1, i2} \<times> {..<4})"
      using s by (intro image_eqI [of _ _ "(i, s)"]) auto
  qed
  then have "card ?K \<le> card ({i1, i2} \<times> {..<4 :: nat})" by (rule surj_card_le [rotated]) simp
  also have "\<dots> \<le> 8" by (simp add: card_cartesian_product card_insert_if)
  finally show ?thesis .
qed

lemma spec_puts:
  "distinct ks \<Longrightarrow> set ks \<inter> dom m = {} \<Longrightarrow>
   fst (spec_calls (map (\<lambda>k. Call_put k v) ks) m) = replicate (length ks) (Reply_flag True) \<and>
   dom (snd (spec_calls (map (\<lambda>k. Call_put k v) ks) m)) = set ks \<union> dom m"
proof (induction ks arbitrary: m)
  case Nil
  then show ?case by simp
next
  case (Cons k ks)
  let ?m = "cuckoo_insert_or_assign k v m"
  have m: "m k = None" "distinct ks" "set ks \<inter> dom ?m = {}" "dom ?m = insert k (dom m)"
    using Cons.prems by (auto simp: cuckoo_insert_or_assign_def)
  from Cons.IH [OF m(2,3)] m(1,4) show ?case by (simp add: split_beta)
qed

section \<open>Properties\<close>

text \<open>
  C18. A table constructed for up to \<open>2 ^ 60\<close> elements serves every run of up to \<open>2 ^ 53\<close> calls of
  \<open>insert_or_assign\<close>, \<open>find\<close> and \<open>erase\<close> as an abstract map would: every call returns, no assertion fails and no index leaves
  its array, the replies are those of the map, and the table ends with the contents of the map, whatever cuckoo paths,
  doublings and migrations the run took. The only other outcome is the exception \<open>load_factor_too_low\<close> at the insertion of a
  key that is not in the map, after the right replies to all calls before it.
\<close>

theorem cuckoo_runs_refine_map:
  fixes h :: "'k \<Rightarrow> u64" and cs :: "('k, 'v) map_call list"
  assumes "n \<le> 2 ^ 60" and "length cs \<le> 2 ^ 53"
  shows "\<exists>t. table_make n = Inr t \<and> n \<le> capacity t \<and>
    ((\<exists>t'. map_calls (insert_or_assign h) (find_fn h) (table_erase h) cs t = Some (fst (spec_calls cs Map.empty), Inr t') \<and>
        cuckoo_inv h t' \<and> contents h t' = snd (spec_calls cs Map.empty)) \<or>
     (\<exists>i k v. i < length cs \<and> cs ! i = Call_put k v \<and> snd (spec_calls (take i cs) Map.empty) k = None \<and>
        map_calls (insert_or_assign h) (find_fn h) (table_erase h) cs t =
          Some (fst (spec_calls (take i cs) Map.empty), Inl Load_factor_too_low)))"
proof -
  from table_make_ok [OF assms(1), of h] obtain t :: "('k, 'v) table" where
    t: "table_make n = Inr t" "cuckoo_inv h t" "contents h t = Map.empty" "n \<le> capacity t" by blast
  from libcuckoo.calls_refine [OF t(2), of cs] t(3) assms(2) show ?thesis
    by (intro exI [of _ t]) (simp add: t(1,4) del: One_nat_def)
qed

theorem cuckoo_runs_refine_map_witness:
  "\<exists>t :: (nat, bool) table. table_make 4 = Inr t \<and> 4 \<le> capacity t \<and>
    ((\<exists>t'. map_calls (insert_or_assign (\<lambda>_. 7)) (find_fn (\<lambda>_. 7)) (table_erase (\<lambda>_. 7)) [Call_put 1 True, Call_get 1] t =
        Some ([Reply_flag True, Reply_value (Some True)], Inr t') \<and> contents (\<lambda>_. 7) t' = [1 \<mapsto> True]) \<or>
     (map_calls (insert_or_assign (\<lambda>_. 7)) (find_fn (\<lambda>_. 7)) (table_erase (\<lambda>_. 7)) [Call_put 1 True, Call_get 1] t =
        Some ([], Inl Load_factor_too_low)))"
proof -
  let ?cs = "[Call_put 1 True, Call_get 1] :: (nat, bool) map_call list"
  have spec: "spec_calls ?cs Map.empty = ([Reply_flag True, Reply_value (Some True)], [1 \<mapsto> True])"
    by (simp add: cuckoo_insert_or_assign_def cuckoo_find_value_def)
  have zero: "i = 0" if "i < length ?cs" "?cs ! i = Call_put k v" for i k v
    using that by (auto simp: less_Suc_eq)
  show ?thesis
    using cuckoo_runs_refine_map [of 4 ?cs "\<lambda>_. 7", unfolded spec fst_conv snd_conv] zero
    by (fastforce simp del: map_calls.simps)
qed

text \<open>
  C26. Two buckets have eight slots, so of nine different keys with the same hash value one is
  always refused in a new table of any size: the insertions before it succeed, then \<open>load_factor_too_low\<close> leaves
  \<open>insert_or_assign\<close>.
\<close>

theorem cuckoo_collisions_refused:
  fixes h :: "'k \<Rightarrow> u64" and v :: 'v
  assumes n: "n \<le> 2 ^ 60" and ks: "distinct ks" "8 < length ks" "length ks \<le> 2 ^ 53" and h: "\<forall>k \<in> set ks. h k = x"
  shows "\<exists>t :: ('k, 'v) table. \<exists>i < length ks. table_make n = Inr t \<and>
    map_calls (insert_or_assign h) (find_fn h) (table_erase h) (map (\<lambda>k. Call_put k v) ks) t =
      Some (replicate i (Reply_flag True), Inl Load_factor_too_low)"
proof -
  let ?cs = "map (\<lambda>k. Call_put k v) ks"
  from table_make_ok [OF n, of h] obtain t :: "('k, 'v) table" where
    t: "table_make n = Inr t" "cuckoo_inv h t" "contents h t = Map.empty" by blast
  have no: False if "cuckoo_inv h t'" "contents h t' = snd (spec_calls ?cs Map.empty)" for t'
  proof -
    have "dom (contents h t') = set ks" using spec_puts [OF ks(1), of Map.empty v] that(2) by simp
    then have "{k \<in> dom (contents h t'). h k = x} = set ks" using h by auto
    then show False using card_same_hash [OF that(1), of x] ks(2) distinct_card [OF ks(1)] by simp
  qed
  from libcuckoo.calls_refine [OF t(2), of ?cs] t(3) ks(3) no obtain i where
    i: "i < length ks" "map_calls (insert_or_assign h) (find_fn h) (table_erase h) ?cs t =
        Some (fst (spec_calls (take i ?cs) Map.empty), Inl Load_factor_too_low)" by auto
  have "fst (spec_calls (take i ?cs) Map.empty) = replicate i (Reply_flag True)"
    using spec_puts [of "take i ks" Map.empty v] ks(1) i(1) by (simp add: take_map)
  then show ?thesis using t(1) i by auto
qed

theorem cuckoo_collisions_refused_witness:
  "\<exists>t :: (nat, bool) table. \<exists>i < 9. table_make DEFAULT_SIZE = Inr t \<and>
    map_calls (insert_or_assign (\<lambda>_. 7)) (find_fn (\<lambda>_. 7)) (table_erase (\<lambda>_. 7)) (map (\<lambda>k. Call_put k True) [0..<9]) t =
      Some (replicate i (Reply_flag True), Inl Load_factor_too_low)"
  using cuckoo_collisions_refused [of DEFAULT_SIZE "[0..<9]" "\<lambda>_ :: nat. 7" 7 True] by (simp add: DEFAULT_SIZE_def)

text \<open>
  C19. Doubling a table of \<open>n\<close> elements keeps the invariant and the contents and gives twice
  the buckets, whether the buckets are moved at once or lock by lock later; it is refused exactly when the load factor is
  below the minimum of 0.05 (as the double it is stored as).
\<close>

theorem cuckoo_doubling_keeps_contents:
  assumes "cuckoo_inv h t" and "card (dom (contents h t)) < 2 ^ 53"
  shows "if card (dom (contents h t)) * 2 ^ 57 < 7205759403792794 * capacity t
    then cuckoo_fast_double h (hashpower t) t = Inl Load_factor_too_low
    else \<exists>t'. cuckoo_fast_double h (hashpower t) t = Inr (St_ok, t') \<and> cuckoo_inv h t' \<and> contents h t' = contents h t \<and>
      capacity t' = 2 * capacity t"
proof -
  have ok: "table_ok h t" and tot: "total t = int (card (dom (contents h t)))" using assms(1) by (simp_all add: cuckoo_inv_def)
  have cap: "capacity t = 2 ^ hashpower t * 4" for t :: "('a, 'b) table"
    by (simp add: capacity_def bc_size_def hashpower_def slot_per_bucket_def)
  have c: "contents h t' = contents h t" if "table_ok h t'" "holds (view h t') = holds (view h t)" for t'
    by (rule map_eqI) (simp add: contents_holds [OF ok] contents_holds [OF that(1)] that(2))
  show ?thesis
    using fast_double_ok [OF ok tot assms(2)] c tot unfolding cap
    by (auto simp: cuckoo_inv_def split: if_splits)
qed

theorem cuckoo_doubling_keeps_contents_witness:
  "\<exists>t :: (nat, bool) table. table_make 4 = Inr t \<and> cuckoo_inv (\<lambda>_. 7) t \<and>
    cuckoo_fast_double (\<lambda>_. 7) (hashpower t) t = Inl Load_factor_too_low"
proof -
  from table_make_ok [of 4 "\<lambda>_. 7"] obtain t :: "(nat, bool) table" where
    t: "table_make 4 = Inr t" "cuckoo_inv (\<lambda>_. 7) t" "contents (\<lambda>_. 7) t = Map.empty" "4 \<le> capacity t" by auto
  then have "cuckoo_fast_double (\<lambda>_. 7) (hashpower t) t = Inl Load_factor_too_low"
    using cuckoo_doubling_keeps_contents [OF t(2)] by simp
  with t show ?thesis by blast
qed

end
