(* ===== verification/Spec2Isabelle.thy ===== *)
theory Spec2Isabelle
  imports PMem_Front PMR_Properties Group_Commit Level_Db Bloom_Filter Block_Layout Bench Cuckoo_Refine
begin

text \<open>
  PMRAccess, verified.
\<close>

end
